(* ===== verification/Prelude.thy ===== *)
theory Prelude
  imports Main "HOL-Library.Word" "HOL-Library.Char_ord"
begin

text \<open>
  Shared vocabulary of the development: the faults a C++ step can end in, the
  error-propagating sequencing of steps, the machine integers of the code (\<open>int\<close>,
  \<open>int32_t\<close>, \<open>int64_t\<close> and \<open>size_t\<close>) with their conversions, and the byte images of
  integers. A value of type \<open>'a res\<close> is \<open>Inl\<close> of the fault that stopped the program
  or \<open>Inr\<close> of the result. \<open>std::string\<close> and \<open>std::vector<char>\<close> are lists of
  \<open>char\<close> (eight-bit values in HOL as in C++).
\<close>

section \<open>Faults and sequencing\<close>

text \<open>
  \<open>Assert_failed\<close> is a failed \<open>assert\<close> (the build never defines \<open>NDEBUG\<close>: the
  release flags of CMakeLists.txt are replaced), \<open>Out_of_bounds\<close> an access outside an
  object, \<open>Signed_overflow\<close> an \<open>int\<close> operation whose exact result is no \<open>int\<close>,
  \<open>Length_error\<close> the exception of \<open>std::vector::resize\<close>, \<open>Null_deref\<close> the use of an
  empty pointer, \<open>Uninitialised\<close> the read of a variable no one wrote,
  \<open>Invalid_argument\<close> and \<open>Out_of_range\<close> the exceptions of the string conversions,
  \<open>Bad_function_call\<close> the call of an empty \<open>std::function\<close>, \<open>Uncaught_exception\<close> any other
  exception no one catches, \<open>Deadlock\<close> the locking of a mutex its thread already holds,
  \<open>Division_by_zero\<close> an integer division by 0.
\<close>

datatype fault =
    Assert_failed
  | Out_of_bounds
  | Signed_overflow
  | Length_error
  | Null_deref
  | Uninitialised
  | Invalid_argument
  | Out_of_range
  | Bad_function_call
  | Uncaught_exception
  | Deadlock
  | Division_by_zero
  | Use_after_free

type_synonym 'a res = "fault + 'a"

fun bindR :: "'a res \<Rightarrow> ('a \<Rightarrow> 'b res) \<Rightarrow> 'b res" where
  "bindR (Inl e) f = Inl e"
| "bindR (Inr x) f = f x"

lemma bindR_Inr_iff [simp]:
  "bindR m f = Inr y \<longleftrightarrow> (\<exists>x. m = Inr x \<and> f x = Inr y)"
  by (cases m) auto

lemma bindR_Inl_iff [simp]:
  "bindR m f = Inl e \<longleftrightarrow> m = Inl e \<or> (\<exists>x. m = Inr x \<and> f x = Inl e)"
  by (cases m) auto

lemma bindR_assoc: "bindR (bindR m f) g = bindR m (\<lambda>x. bindR (f x) g)"
  by (cases m) auto

text \<open>The monadic fold: a range-based \<open>for\<close> loop whose body can stop the program.\<close>

fun foldR :: "('a \<Rightarrow> 's \<Rightarrow> 's res) \<Rightarrow> 'a list \<Rightarrow> 's \<Rightarrow> 's res" where
  "foldR f [] s = Inr s"
| "foldR f (x # xs) s = bindR (f x s) (foldR f xs)"

lemma foldR_append: "foldR f (xs @ ys) s = bindR (foldR f xs s) (foldR f ys)"
proof (induction xs arbitrary: s)
  case (Cons a xs)
  then have "foldR f (xs @ ys) = (\<lambda>s. bindR (foldR f xs s) (foldR f ys))" by blast
  then show ?case by (simp add: bindR_assoc)
qed simp

lemma foldR_inv:
  assumes "\<And>x s s'. I s \<Longrightarrow> f x s = Inr s' \<Longrightarrow> I s'"
  shows "I s \<Longrightarrow> foldR f xs s = Inr s' \<Longrightarrow> I s'"
  by (induction xs arbitrary: s) (use assms in auto)

section \<open>Machine integers\<close>

text \<open>
  An \<open>int\<close> of the code is a HOL \<open>int\<close> in the range of 32-bit two's complement. A
  conversion to \<open>int\<close> wraps (\<open>to_i32\<close>), a conversion to \<open>size_t\<close> is modulo \<open>2^64\<close>
  (\<open>to_size\<close>), an addition or subtraction at type \<open>int\<close> faults when its result leaves
  the range. Sums and differences of \<open>size_t\<close> wrap (\<open>size_plus\<close>, \<open>size_minus\<close>).
\<close>

definition INT_MAX :: int where "INT_MAX = 2147483647"

definition INT_MIN :: int where "INT_MIN = - 2147483648"

definition to_i32 :: "int \<Rightarrow> int" where
  "to_i32 x = (x + 2147483648) mod 4294967296 - 2147483648"

definition SIZE_MOD :: nat where "SIZE_MOD = 18446744073709551616"

definition to_size :: "int \<Rightarrow> nat" where
  "to_size x = nat (x mod 18446744073709551616)"

definition size_plus :: "nat \<Rightarrow> nat \<Rightarrow> nat" where
  "size_plus a b = (a + b) mod 18446744073709551616"

definition size_minus :: "nat \<Rightarrow> nat \<Rightarrow> nat" where
  "size_minus a b = (if b \<le> a then a - b else 18446744073709551616 + a - b)"

definition i32_add :: "int \<Rightarrow> int \<Rightarrow> int res" where
  "i32_add x y = (if INT_MIN \<le> x + y \<and> x + y \<le> INT_MAX then Inr (x + y)
    else Inl Signed_overflow)"

definition i32_sub :: "int \<Rightarrow> int \<Rightarrow> int res" where
  "i32_sub x y = (if INT_MIN \<le> x - y \<and> x - y \<le> INT_MAX then Inr (x - y)
    else Inl Signed_overflow)"

lemma to_i32_id [simp]: "- 2147483648 \<le> x \<Longrightarrow> x \<le> 2147483647 \<Longrightarrow> to_i32 x = x"
  by (simp add: to_i32_def)

lemma to_i32_range: "INT_MIN \<le> to_i32 x \<and> to_i32 x \<le> INT_MAX"
  unfolding to_i32_def INT_MIN_def INT_MAX_def
  using pos_mod_bound [of "4294967296" "x + 2147483648"]
    pos_mod_sign [of "4294967296" "x + 2147483648"] by linarith

lemma to_size_id [simp]: "0 \<le> x \<Longrightarrow> x < 18446744073709551616 \<Longrightarrow> to_size x = nat x"
  by (simp add: to_size_def)

lemma to_size_neg:
  assumes "x < 0" "- 9223372036854775808 \<le> x"
  shows "to_size x = nat (18446744073709551616 + x)"
proof -
  have "x mod 18446744073709551616 = (18446744073709551616 + x) mod 18446744073709551616"
    by simp
  also have "\<dots> = 18446744073709551616 + x"
    using assms by (intro mod_pos_pos_trivial) auto
  finally show ?thesis by (simp add: to_size_def)
qed

lemma size_minus_le [simp]: "b \<le> a \<Longrightarrow> size_minus a b = a - b"
  by (simp add: size_minus_def)

lemma size_plus_id [simp]: "a + b < 18446744073709551616 \<Longrightarrow> size_plus a b = a + b"
  by (simp add: size_plus_def)

lemma i32_add_Inr_iff [simp]:
  "i32_add x y = Inr z \<longleftrightarrow> z = x + y \<and> - 2147483648 \<le> x + y \<and> x + y \<le> 2147483647"
  by (auto simp: i32_add_def INT_MIN_def INT_MAX_def)

lemma i32_sub_Inr_iff [simp]:
  "i32_sub x y = Inr z \<longleftrightarrow> z = x - y \<and> - 2147483648 \<le> x - y \<and> x - y \<le> 2147483647"
  by (auto simp: i32_sub_def INT_MIN_def INT_MAX_def)

lemma sint32_range: "- 2147483648 \<le> sint (w :: 32 word) \<and> sint w \<le> 2147483647"
  using sint_ge [of w] sint_lt [of w] by simp

section \<open>Byte images of integers\<close>

text \<open>
  \<open>memcpy\<close> and the pointer casts of \<open>Buffer\<close> see an integer as the bytes of its
  little-endian image (the hosts the project builds on); \<open>htobe32\<close> and \<open>be32toh\<close> of
  \<open><endian.h>\<close> reverse the bytes of a 32-bit value there, \<open>be16toh\<close> those of a 16-bit one.
\<close>

fun le_bytes :: "nat \<Rightarrow> nat \<Rightarrow> char list" where
  "le_bytes 0 n = []"
| "le_bytes (Suc k) n = char_of n # le_bytes k (n div 256)"

fun le_val :: "char list \<Rightarrow> nat" where
  "le_val [] = 0"
| "le_val (c # cs) = of_char c + 256 * le_val cs"

definition mem32 :: "32 word \<Rightarrow> char list" where
  "mem32 w = le_bytes 4 (unat w)"

definition mem16 :: "16 word \<Rightarrow> char list" where
  "mem16 w = le_bytes 2 (unat w)"

definition mem8 :: "8 word \<Rightarrow> char list" where
  "mem8 w = le_bytes 1 (unat w)"

definition load32 :: "char list \<Rightarrow> 32 word" where
  "load32 cs = word_of_nat (le_val cs)"

definition load16 :: "char list \<Rightarrow> 16 word" where
  "load16 cs = word_of_nat (le_val cs)"

definition load8 :: "char list \<Rightarrow> 8 word" where
  "load8 cs = word_of_nat (le_val cs)"

definition bswap32 :: "32 word \<Rightarrow> 32 word" where
  "bswap32 w = load32 (rev (mem32 w))"

definition bswap16 :: "16 word \<Rightarrow> 16 word" where
  "bswap16 w = load16 (rev (mem16 w))"

text \<open>The network image of a 32-bit value: its bytes, most significant first.\<close>

definition be32 :: "32 word \<Rightarrow> char list" where
  "be32 w = rev (mem32 w)"

lemma of_char_less: "(of_char c :: nat) < 256"
  by (metis atLeastLessThan_iff range_nat_of_char rangeI)

lemma length_le_bytes [simp]: "length (le_bytes k n) = k"
  by (induction k arbitrary: n) auto

lemma le_val_less: "le_val cs < 256 ^ length cs"
proof (induction cs)
  case (Cons c cs)
  then have "Suc (le_val cs) \<le> 256 ^ length cs" by simp
  then have "256 * Suc (le_val cs) \<le> 256 * 256 ^ length cs" by (rule mult_le_mono2)
  then have "256 + 256 * le_val cs \<le> 256 ^ length (c # cs)" by simp
  moreover have "le_val (c # cs) < 256 + 256 * le_val cs"
    using of_char_less [of c] unfolding le_val.simps by (rule add_strict_right_mono)
  ultimately show ?case by (rule order.strict_trans2 [rotated])
qed simp

lemma le_val_le_bytes: "le_val (le_bytes k n) = n mod 256 ^ k"
  by (induction k arbitrary: n) (simp_all add: mod_mult2_eq)

lemma le_bytes_le_val: "le_bytes (length cs) (le_val cs) = cs"
proof (induction cs)
  case (Cons c cs)
  have "char_of (of_char c + 256 * le_val cs) = c"
    using of_char_less [of c] by (metis char_of_char char_of_mod_256 mod_less mod_mult_self2)
  moreover have "(of_char c + 256 * le_val cs) div 256 = le_val cs"
    using of_char_less [of c] by simp
  ultimately show ?case using Cons by simp
qed simp

lemma length_mem [simp]: "length (mem32 w) = 4" "length (mem16 v) = 2" "length (mem8 u) = 1"
  by (simp_all add: mem32_def mem16_def mem8_def)

lemma length_be32 [simp]: "length (be32 w) = 4"
  by (simp add: be32_def)

lemma load32_mem32 [simp]: "load32 (mem32 w) = w"
proof -
  have "unat w < 2 ^ 32" using unsigned_less [of w] by simp
  then have "unat w mod 4294967296 = unat w" by simp
  then show ?thesis by (simp add: load32_def mem32_def le_val_le_bytes)
qed

lemma load16_mem16 [simp]: "load16 (mem16 w) = w"
proof -
  have "unat w < 2 ^ 16" using unsigned_less [of w] by simp
  then have "unat w mod 65536 = unat w" by simp
  then show ?thesis by (simp add: load16_def mem16_def le_val_le_bytes)
qed

lemma load8_mem8 [simp]: "load8 (mem8 w) = w"
proof -
  have "unat w < 2 ^ 8" using unsigned_less [of w] by simp
  then have "unat w mod 256 = unat w" by simp
  then show ?thesis by (simp add: load8_def mem8_def le_val_le_bytes)
qed

lemma mem32_load32 [simp]: "length cs = 4 \<Longrightarrow> mem32 (load32 cs) = cs"
  using le_val_less [of cs] le_bytes_le_val [of cs]
  by (simp add: mem32_def load32_def unat_of_nat)

lemma mem16_load16 [simp]: "length cs = 2 \<Longrightarrow> mem16 (load16 cs) = cs"
  using le_val_less [of cs] le_bytes_le_val [of cs]
  by (simp add: mem16_def load16_def unat_of_nat)

lemma mem8_load8 [simp]: "length cs = 1 \<Longrightarrow> mem8 (load8 cs) = cs"
  using le_val_less [of cs] le_bytes_le_val [of cs]
  by (simp add: mem8_def load8_def unat_of_nat)

lemma mem32_bswap32: "mem32 (bswap32 w) = be32 w"
  by (simp add: bswap32_def be32_def)

lemma bswap32_load32_be32 [simp]: "bswap32 (load32 (be32 w)) = w"
  by (simp add: bswap32_def be32_def)

lemma be32_bswap32_load32: "length cs = 4 \<Longrightarrow> be32 (bswap32 (load32 cs)) = cs"
  by (simp add: bswap32_def be32_def)

lemma bswap32_involutive [simp]: "bswap32 (bswap32 w) = w"
  by (simp add: bswap32_def)

lemma le_bytes_mod: "le_bytes k (n mod 256 ^ k) = le_bytes k n"
  by (metis le_bytes_le_val le_val_le_bytes length_le_bytes)

lemma take_le_bytes: "take k (le_bytes (k + m) n) = le_bytes k n"
  by (induction k arbitrary: n) auto

lemma mem16_ucast: "mem16 (ucast w) = take 2 (mem32 w)"
proof -
  have "unat (ucast w :: 16 word) = unat w mod 256 ^ 2"
    by (simp add: unsigned_ucast_eq take_bit_eq_mod)
  then show ?thesis
    using take_le_bytes [of 2 2 "unat w"] le_bytes_mod [of 2 "unat w"]
    by (simp add: mem16_def mem32_def)
qed

lemma unat_scast32:
  "unat (scast (x :: 16 word) :: 32 word) = nat (sint x mod 4294967296)"
proof -
  have "uint (word_of_int (sint x) :: 32 word) = sint x mod 4294967296"
    by (simp only: uint_word_of_int) simp
  then show ?thesis by (simp only: scast_eq unat_eq_nat_uint)
qed

lemma be32_bytes: "be32 w = [char_of (unat w div 16777216), char_of (unat w div 65536),
    char_of (unat w div 256), char_of (unat w)]"
proof -
  have "le_bytes (Suc (Suc (Suc (Suc 0)))) n = [char_of n, char_of (n div 256),
      char_of (n div 256 div 256), char_of (n div 256 div 256 div 256)]" for n
    by simp
  moreover have "n div 256 div 256 = n div 65536" "n div 65536 div 256 = n div 16777216" for n :: nat
    using div_mult2_eq [of n 256 256] div_mult2_eq [of n 65536 256] by simp_all
  moreover have "(4::nat) = Suc (Suc (Suc (Suc 0)))" by simp
  ultimately show ?thesis by (simp only: be32_def mem32_def) simp
qed

lemma be32_scast16:
  "take 2 (be32 (scast (x :: 16 word))) = (if sint x < 0 then [CHR 0xFF, CHR 0xFF] else [CHR 0x00, CHR 0x00])"
proof -
  let ?n = "unat (scast x :: 32 word)"
  have r: "- 32768 \<le> sint x" "sint x < 32768"
    using sint_ge [of x] sint_lt [of x] by simp_all
  have b: "take 2 (be32 (scast x)) = [char_of (?n div 16777216), char_of (?n div 65536)]"
    using be32_bytes [of "scast x"] by simp
  show ?thesis
  proof (cases "sint x < 0")
    case True
    have "sint x mod 4294967296 = (sint x + 4294967296) mod 4294967296" by simp
    also have "\<dots> = sint x + 4294967296"
      using True r by (intro mod_pos_pos_trivial) auto
    finally have "sint x mod 4294967296 = sint x + 4294967296" .
    then have n: "?n = nat (sint x + 4294967296)" by (simp add: unat_scast32)
    have "?n div 16777216 = 255" "?n div 65536 = 65535"
      using True r unfolding n by (auto intro!: div_nat_eqI)
    moreover have "char_of (255 :: nat) = CHR 0xFF" "char_of (65535 :: nat) = CHR 0xFF"
      by (simp_all add: char_of_eq_iff)
    ultimately show ?thesis using b True by simp
  next
    case False
    then have "?n = nat (sint x)" using r by (simp add: unat_scast32)
    then show ?thesis using b False r by (simp add: char_of_def)
  qed
qed

section \<open>Refinement of event handlers\<close>

text \<open>
  A handler that carries out, on a concrete state with an invariant, what a function says of the
  abstract state; \<open>total\<close> are the events on which it cannot fault. Whole runs follow.
\<close>

locale event_refinement =
  fixes inv :: "'s \<Rightarrow> bool"
    and abs :: "'s \<Rightarrow> 'a"
    and step :: "'e \<Rightarrow> 's \<Rightarrow> 's res"
    and spec :: "'e \<Rightarrow> 'a \<Rightarrow> 'a"
    and total :: "'e \<Rightarrow> bool"
  assumes step_refines: "inv s \<Longrightarrow> step e s = Inr s' \<Longrightarrow> inv s' \<and> abs s' = spec e (abs s)"
    and step_total: "inv s \<Longrightarrow> total e \<Longrightarrow> \<exists>s'. step e s = Inr s'"
begin

lemma run_refines: "inv s \<Longrightarrow> foldR step es s = Inr s' \<Longrightarrow> inv s' \<and> abs s' = fold spec es (abs s)"
proof (induction es arbitrary: s)
  case (Cons e es)
  then obtain s1 where s1: "step e s = Inr s1" "foldR step es s1 = Inr s'" by auto
  from Cons.IH [OF _ s1(2)] step_refines [OF Cons.prems(1) s1(1)] show ?case by simp
qed simp

lemma run_total: "inv s \<Longrightarrow> list_all total es \<Longrightarrow> \<exists>s'. foldR step es s = Inr s'"
proof (induction es arbitrary: s)
  case (Cons e es)
  then obtain s1 where s1: "step e s = Inr s1" using step_total by fastforce
  from Cons.IH [of s1] Cons.prems step_refines [OF Cons.prems(1) s1] show ?case using s1 by simp
qed simp

end

section \<open>Runs over a stream of messages\<close>

text \<open>Events that may fault or never end, one after the other.\<close>

fun run_events :: "('e \<Rightarrow> 's \<Rightarrow> 's res option) \<Rightarrow> 'e list \<Rightarrow> 's \<Rightarrow> 's res option" where
  "run_events act [] s = Some (Inr s)"
| "run_events act (e # es) s = (case act e s of
      None \<Rightarrow> None
    | Some (Inl err) \<Rightarrow> Some (Inl err)
    | Some (Inr s) \<Rightarrow> run_events act es s)"

text \<open>What has arrived of some messages that are not complete: less than the first one.\<close>

definition begun :: "('m \<Rightarrow> 'c list) \<Rightarrow> 'm list \<Rightarrow> 'c list \<Rightarrow> bool" where
  "begun img ms d \<longleftrightarrow> ms = [] \<and> d = [] \<or> ms \<noteq> [] \<and> length d < length (img (hd ms))"

lemma begun_all: "begun img ms d \<Longrightarrow> d = concat (map img ms) \<Longrightarrow> ms = []"
  by (cases ms) (auto simp: begun_def)

text \<open>
  The contract of an end of a connection that consumes a byte stream of messages. Each event brings
  some bytes; the messages that are then complete are processed, with the effect \<open>eff\<close> on the state, and
  the beginning of the next one is kept; \<open>inv\<close> speaks of the messages still to come.
\<close>

locale message_stream =
  fixes act :: "'e \<Rightarrow> 's \<Rightarrow> 's res option"
    and bytes :: "'e \<Rightarrow> 'c list"
    and legal :: "'e \<Rightarrow> bool"
    and image :: "'m \<Rightarrow> 'c list"
    and input :: "'s \<Rightarrow> 'c list"
    and index :: "'s \<Rightarrow> nat"
    and limit :: nat
    and inv :: "'m list \<Rightarrow> 's \<Rightarrow> bool"
    and eff :: "'m list \<Rightarrow> 's \<Rightarrow> 's \<Rightarrow> bool"
  assumes step: "inv ms s \<Longrightarrow> legal e \<Longrightarrow> (input s @ bytes e) @ t = concat (map image ms) \<Longrightarrow>
      index s + length (bytes e) + length (concat (map image ms)) \<le> limit \<Longrightarrow> begun image ms (input s) \<Longrightarrow>
      \<exists>ms1 ms2 s'. ms = ms1 @ ms2 \<and> act e s = Some (Inr s') \<and> inv ms2 s' \<and> eff ms1 s s'
        \<and> input s' @ t = concat (map image ms2) \<and> index s' \<le> index s + length (bytes e) \<and> begun image ms2 (input s')"
    and eff_Nil: "inv ms s \<Longrightarrow> eff [] s s"
    and eff_append: "inv (ms1 @ ms2 @ ms3) s \<Longrightarrow> eff ms1 s s1 \<Longrightarrow> eff ms2 s1 s2 \<Longrightarrow> eff (ms1 @ ms2) s s2"
begin

lemma run:
  assumes "inv ms s" "\<forall>e \<in> set es. legal e" "input s @ concat (map bytes es) @ t = concat (map image ms)"
    "index s + length (concat (map bytes es)) + length (concat (map image ms)) \<le> limit" "begun image ms (input s)"
  shows "\<exists>ms1 ms2 s'. ms = ms1 @ ms2 \<and> run_events act es s = Some (Inr s') \<and> inv ms2 s' \<and> eff ms1 s s'
    \<and> input s' @ t = concat (map image ms2) \<and> begun image ms2 (input s')"
  using assms
proof (induction es arbitrary: ms s)
  case Nil
  then show ?case using eff_Nil by (intro exI [of _ "[]"] exI [of _ ms] exI [of _ s]) simp
next
  case (Cons e es)
  have "(input s @ bytes e) @ concat (map bytes es) @ t = concat (map image ms)"
    "index s + length (bytes e) + length (concat (map image ms)) \<le> limit" "legal e" using Cons.prems(2-4) by simp_all
  from step [OF Cons.prems(1) this(3,1,2) Cons.prems(5)] obtain ms1 ms2 s1 where
    s1: "ms = ms1 @ ms2" "act e s = Some (Inr s1)" "inv ms2 s1" "eff ms1 s s1"
      "input s1 @ concat (map bytes es) @ t = concat (map image ms2)" "index s1 \<le> index s + length (bytes e)"
      "begun image ms2 (input s1)" by blast
  have "\<forall>e \<in> set es. legal e" "index s1 + length (concat (map bytes es)) + length (concat (map image ms2)) \<le> limit"
    using Cons.prems(2,4) s1(1,6) by simp_all
  from Cons.IH [OF s1(3) this(1) s1(5) this(2) s1(7)] obtain ms3 ms4 s2 where
    s2: "ms2 = ms3 @ ms4" "run_events act es s1 = Some (Inr s2)" "inv ms4 s2" "eff ms3 s1 s2"
      "input s2 @ t = concat (map image ms4)" "begun image ms4 (input s2)" by blast
  have "eff (ms1 @ ms3) s s2" using eff_append [OF _ s1(4) s2(4)] Cons.prems(1) s1(1) s2(1) by simp
  then show ?case using s1(1,2) s2 by (intro exI [of _ "ms1 @ ms3"] exI [of _ ms4] exI [of _ s2]) simp
qed

text \<open>When everything has arrived, every message is processed.\<close>

lemma run_all:
  assumes "inv ms s" "\<forall>e \<in> set es. legal e" "input s @ concat (map bytes es) = concat (map image ms)"
    "index s + length (concat (map bytes es)) + length (concat (map image ms)) \<le> limit" "begun image ms (input s)"
  shows "\<exists>s'. run_events act es s = Some (Inr s') \<and> inv [] s' \<and> eff ms s s' \<and> input s' = []"
proof -
  obtain ms1 ms2 s' where s': "ms = ms1 @ ms2" "run_events act es s = Some (Inr s')" "inv ms2 s'" "eff ms1 s s'"
    "input s' @ [] = concat (map image ms2)" "begun image ms2 (input s')"
    using run [OF assms(1,2) _ assms(4,5), of "[]"] assms(3) by auto
  have "ms2 = []" using begun_all [OF s'(6)] s'(5) by simp
  then show ?thesis using s' by (intro exI [of _ s']) simp
qed

end

end
