(* ===== verification/Reactor.thy ===== *)
theory Reactor
  imports Prelude
begin

unbundle bit_operations_syntax

text \<open>
  The reactor: \<open>Channel\<close> (\<open>src/net/Channel.cpp\<close>), \<open>Epoll\<close> (\<open>src/net/Epoll.cpp\<close>), \<open>EventLoop\<close>
  (\<open>src/net/EventLoop.cpp\<close>) and \<open>EventLoopGroup\<close>. The kernel is an argument: \<open>ctl\<close> answers
  \<open>epoll_ctl\<close>, the events \<open>epoll_wait\<close> returns are a list of answers. What is relied on
  of \<open>epoll_ctl\<close> is stated by \<open>kernel_ok\<close>. Callbacks and tasks are of arbitrary types;
  what running one does to the loop is an argument, too. A mutex is its holder.
\<close>

section \<open>Channel\<close>

definition EPOLLIN :: "32 word" where "EPOLLIN = 0x001"
definition EPOLLPRI :: "32 word" where "EPOLLPRI = 0x002"
definition EPOLLOUT :: "32 word" where "EPOLLOUT = 0x004"
definition EPOLLRDHUP :: "32 word" where "EPOLLRDHUP = 0x2000"
definition EPOLLONESHOT :: "32 word" where "EPOLLONESHOT = 0x40000000"
definition EPOLLET :: "32 word" where "EPOLLET = 0x80000000"

lemmas epoll_bits = EPOLLIN_def EPOLLPRI_def EPOLLOUT_def EPOLLRDHUP_def EPOLLONESHOT_def EPOLLET_def

record 'cb channel =
  ch_fd :: int
  inepoll :: bool
  events :: "32 word"
  revents :: "32 word"
  readcallback :: "'cb option"
  closecallback :: "'cb option"
  errorcallback :: "'cb option"
  writecallback :: "'cb option"

definition Channel_new :: "int \<Rightarrow> 'cb channel" where
  "Channel_new fd = \<lparr>ch_fd = fd, inepoll = False, events = 0, revents = 0, readcallback = None,
    closecallback = None, errorcallback = None, writecallback = None\<rparr>"

definition useET :: "'cb channel \<Rightarrow> 'cb channel" where
  "useET ch = ch\<lparr>events := events ch OR EPOLLET\<rparr>"

definition useOneshot :: "'cb channel \<Rightarrow> 'cb channel" where
  "useOneshot ch = ch\<lparr>events := events ch OR EPOLLONESHOT\<rparr>"

definition setRevents :: "32 word \<Rightarrow> 'cb channel \<Rightarrow> 'cb channel" where
  "setRevents ev ch = ch\<lparr>revents := ev\<rparr>"

text \<open>What is stored in the object only.\<close>

definition setReadcallback :: "'cb \<Rightarrow> 'cb channel \<Rightarrow> 'cb channel" where
  [simp]: "setReadcallback fn ch = ch\<lparr>readcallback := Some fn\<rparr>"

definition setClosecallback :: "'cb \<Rightarrow> 'cb channel \<Rightarrow> 'cb channel" where
  [simp]: "setClosecallback fn ch = ch\<lparr>closecallback := Some fn\<rparr>"

definition setErrorcallback :: "'cb \<Rightarrow> 'cb channel \<Rightarrow> 'cb channel" where
  [simp]: "setErrorcallback fn ch = ch\<lparr>errorcallback := Some fn\<rparr>"

definition setWritecallback :: "'cb \<Rightarrow> 'cb channel \<Rightarrow> 'cb channel" where
  [simp]: "setWritecallback fn ch = ch\<lparr>writecallback := Some fn\<rparr>"

definition setInepoll :: "'cb channel \<Rightarrow> 'cb channel" where
  [simp]: "setInepoll ch = ch\<lparr>inepoll := True\<rparr>"

definition delInepoll :: "'cb channel \<Rightarrow> 'cb channel" where
  [simp]: "delInepoll ch = ch\<lparr>inepoll := False\<rparr>"

definition channel_isWriting :: "'cb channel \<Rightarrow> bool" where
  "channel_isWriting ch \<longleftrightarrow> events ch AND EPOLLOUT \<noteq> 0"

text \<open>Calling a \<open>std::function\<close>: an empty one throws.\<close>

fun invoke :: "'cb option \<Rightarrow> 'cb res" where
  "invoke None = Inl Bad_function_call"
| "invoke (Some cb) = Inr cb"

definition handleEvent :: "'cb channel \<Rightarrow> 'cb res" where
  "handleEvent ch = (
    if revents ch AND EPOLLRDHUP \<noteq> 0 then invoke (closecallback ch)
    else if revents ch AND (EPOLLIN OR EPOLLPRI) \<noteq> 0 then invoke (readcallback ch)
    else if revents ch AND EPOLLOUT \<noteq> 0 then invoke (writecallback ch)
    else invoke (errorcallback ch))"

section \<open>Epoll\<close>

text \<open>The constructor, with the answer of \<open>epoll_create\<close>.\<close>

definition Epoll_new :: "int \<Rightarrow> int res" where
  "Epoll_new ans = (if ans \<noteq> - 1 then Inr ans else Inl Assert_failed)"

datatype ctl_op = CTL_ADD | CTL_MOD | CTL_DEL

type_synonym 'k epoll_ctl = "ctl_op \<Rightarrow> int \<Rightarrow> 32 word \<Rightarrow> 'k \<Rightarrow> int \<times> 'k"

definition setChannel :: "'k epoll_ctl \<Rightarrow> 'cb channel \<times> 'k \<Rightarrow> ('cb channel \<times> 'k) res" where
  "setChannel ctl = (\<lambda>(ch, k).
    if inepoll ch then
      (let (ret, k') = ctl CTL_MOD (ch_fd ch) (events ch) k
       in if ret \<noteq> - 1 then Inr (ch, k') else Inl Assert_failed)
    else
      (let (ret, k') = ctl CTL_ADD (ch_fd ch) (events ch) k
       in if ret \<noteq> - 1 then Inr (setInepoll ch, k') else Inl Assert_failed))"

definition removeChannel :: "'k epoll_ctl \<Rightarrow> 'cb channel \<times> 'k \<Rightarrow> ('cb channel \<times> 'k) res" where
  "removeChannel ctl = (\<lambda>(ch, k).
    if inepoll ch then
      (let (ret, k') = ctl CTL_DEL (ch_fd ch) 0 k
       in if ret \<noteq> - 1 then Inr (delInepoll ch, k') else Inl Assert_failed)
    else Inr (ch, k))"

definition enableReading :: "'k epoll_ctl \<Rightarrow> 'cb channel \<times> 'k \<Rightarrow> ('cb channel \<times> 'k) res" where
  "enableReading ctl = (\<lambda>(ch, k). setChannel ctl (ch\<lparr>events := events ch OR EPOLLIN\<rparr>, k))"

definition disableReading :: "'k epoll_ctl \<Rightarrow> 'cb channel \<times> 'k \<Rightarrow> ('cb channel \<times> 'k) res" where
  "disableReading ctl = (\<lambda>(ch, k). setChannel ctl (ch\<lparr>events := events ch AND NOT EPOLLIN\<rparr>, k))"

definition enableWriting :: "'k epoll_ctl \<Rightarrow> 'cb channel \<times> 'k \<Rightarrow> ('cb channel \<times> 'k) res" where
  "enableWriting ctl = (\<lambda>(ch, k). setChannel ctl (ch\<lparr>events := events ch OR EPOLLOUT\<rparr>, k))"

definition disableWriting :: "'k epoll_ctl \<Rightarrow> 'cb channel \<times> 'k \<Rightarrow> ('cb channel \<times> 'k) res" where
  "disableWriting ctl = (\<lambda>(ch, k). setChannel ctl (ch\<lparr>events := events ch AND NOT EPOLLOUT\<rparr>, k))"

definition disableAll :: "'k epoll_ctl \<Rightarrow> 'cb channel \<times> 'k \<Rightarrow> ('cb channel \<times> 'k) res" where
  "disableAll ctl = (\<lambda>(ch, k). setChannel ctl (ch\<lparr>events := 0\<rparr>, k))"

datatype chan_op = Enable_reading | Disable_reading | Enable_writing | Disable_writing
  | Disable_all | Remove | Use_ET | Use_oneshot

fun chan_step :: "'k epoll_ctl \<Rightarrow> chan_op \<Rightarrow> 'cb channel \<times> 'k \<Rightarrow> ('cb channel \<times> 'k) res" where
  "chan_step ctl Enable_reading s = enableReading ctl s"
| "chan_step ctl Disable_reading s = disableReading ctl s"
| "chan_step ctl Enable_writing s = enableWriting ctl s"
| "chan_step ctl Disable_writing s = disableWriting ctl s"
| "chan_step ctl Disable_all s = disableAll ctl s"
| "chan_step ctl Remove s = removeChannel ctl s"
| "chan_step ctl Use_ET s = Inr (useET (fst s), snd s)"
| "chan_step ctl Use_oneshot s = Inr (useOneshot (fst s), snd s)"

text \<open>
  What \<open>epoll_ctl\<close> promises: \<open>watched k fd\<close> is the event mask the kernel keeps for the
  descriptor. Adding works for a descriptor not watched, changing and deleting for one
  that is; other descriptors are not touched.
\<close>

definition kernel_ok :: "'k epoll_ctl \<Rightarrow> ('k \<Rightarrow> int \<Rightarrow> 32 word option) \<Rightarrow> bool" where
  "kernel_ok ctl watched \<longleftrightarrow> (\<forall>fd ev k.
    (watched k fd = None \<longrightarrow> fst (ctl CTL_ADD fd ev k) = 0
      \<and> watched (snd (ctl CTL_ADD fd ev k)) = (watched k)(fd \<mapsto> ev))
    \<and> (watched k fd \<noteq> None \<longrightarrow> fst (ctl CTL_MOD fd ev k) = 0
      \<and> watched (snd (ctl CTL_MOD fd ev k)) = (watched k)(fd \<mapsto> ev)
      \<and> fst (ctl CTL_DEL fd ev k) = 0
      \<and> watched (snd (ctl CTL_DEL fd ev k)) = (watched k)(fd := None)))"

definition in_sync :: "('k \<Rightarrow> int \<Rightarrow> 32 word option) \<Rightarrow> 'cb channel \<times> 'k \<Rightarrow> bool" where
  "in_sync watched s \<longleftrightarrow> (inepoll (fst s) \<longleftrightarrow> watched (snd s) (ch_fd (fst s)) \<noteq> None)"

lemma setChannel_sync:
  assumes "kernel_ok ctl watched" "in_sync watched (ch, k)"
  obtains ch' k' where "setChannel ctl (ch, k) = Inr (ch', k')" "ch' = ch\<lparr>inepoll := True\<rparr>"
    "watched k' = (watched k)(ch_fd ch \<mapsto> events ch)" "in_sync watched (ch', k')"
proof (cases "inepoll ch")
  case True
  then have w: "watched k (ch_fd ch) \<noteq> None" using assms by (simp add: in_sync_def)
  obtain r k' where c: "ctl CTL_MOD (ch_fd ch) (events ch) k = (r, k')" by fastforce
  then have "r = 0" "watched k' = (watched k)(ch_fd ch \<mapsto> events ch)"
    using assms(1) w unfolding kernel_ok_def by (metis fst_conv snd_conv)+
  then show thesis
    using True c by (intro that [of ch k']) (auto simp: setChannel_def in_sync_def)
next
  case False
  then have w: "watched k (ch_fd ch) = None" using assms by (simp add: in_sync_def)
  obtain r k' where c: "ctl CTL_ADD (ch_fd ch) (events ch) k = (r, k')" by fastforce
  then have "r = 0" "watched k' = (watched k)(ch_fd ch \<mapsto> events ch)"
    using assms(1) w unfolding kernel_ok_def by (metis fst_conv snd_conv)+
  then show thesis
    using False c by (intro that [of "ch\<lparr>inepoll := True\<rparr>" k']) (auto simp: setChannel_def in_sync_def)
qed

lemma removeChannel_sync:
  assumes "kernel_ok ctl watched" "in_sync watched (ch, k)"
  obtains k' where "removeChannel ctl (ch, k) = Inr (ch\<lparr>inepoll := False\<rparr>, k')"
    "watched k' = (watched k)(ch_fd ch := None)" "in_sync watched (ch\<lparr>inepoll := False\<rparr>, k')"
proof (cases "inepoll ch")
  case True
  then have w: "watched k (ch_fd ch) \<noteq> None" using assms by (simp add: in_sync_def)
  obtain r k' where c: "ctl CTL_DEL (ch_fd ch) 0 k = (r, k')" by fastforce
  then have "r = 0" "watched k' = (watched k)(ch_fd ch := None)"
    using assms(1) w unfolding kernel_ok_def by (metis fst_conv snd_conv)+
  then show thesis
    using True c by (intro that [of k']) (auto simp: removeChannel_def in_sync_def)
next
  case False
  then have w: "watched k (ch_fd ch) = None" using assms by (simp add: in_sync_def)
  then show thesis
    using False by (intro that [of k]) (auto simp: removeChannel_def in_sync_def fun_eq_iff)
qed

text \<open>The mask the kernel keeps after an operation on a synchronised channel.\<close>

lemma chan_step_sync:
  assumes "kernel_ok ctl watched" "in_sync watched s"
  obtains s' where "chan_step ctl op s = Inr s'" "in_sync watched s'" "ch_fd (fst s') = ch_fd (fst s)"
    "\<And>fd. fd \<noteq> ch_fd (fst s) \<Longrightarrow> watched (snd s') fd = watched (snd s) fd"
proof -
  obtain ch k where s: "s = (ch, k)" by fastforce
  have set': "\<exists>s'. setChannel ctl (ch\<lparr>events := ev\<rparr>, k) = Inr s' \<and> in_sync watched s'
      \<and> ch_fd (fst s') = ch_fd ch \<and> (\<forall>fd. fd \<noteq> ch_fd ch \<longrightarrow> watched (snd s') fd = watched k fd)" for ev
  proof -
    have "in_sync watched (ch\<lparr>events := ev\<rparr>, k)" using assms s by (simp add: in_sync_def)
    from setChannel_sync [OF assms(1) this] obtain ch' k' where
      "setChannel ctl (ch\<lparr>events := ev\<rparr>, k) = Inr (ch', k')" "ch' = ch\<lparr>events := ev, inepoll := True\<rparr>"
      "watched k' = (watched k)(ch_fd ch \<mapsto> ev)" "in_sync watched (ch', k')" by auto
    then show ?thesis by auto
  qed
  have "\<exists>s'. chan_step ctl op s = Inr s' \<and> in_sync watched s'
      \<and> ch_fd (fst s') = ch_fd ch \<and> (\<forall>fd. fd \<noteq> ch_fd ch \<longrightarrow> watched (snd s') fd = watched k fd)"
  proof (cases op)
    case Remove
    obtain k' where "removeChannel ctl (ch, k) = Inr (ch\<lparr>inepoll := False\<rparr>, k')"
      "watched k' = (watched k)(ch_fd ch := None)" "in_sync watched (ch\<lparr>inepoll := False\<rparr>, k')"
      by (rule removeChannel_sync [OF assms(1) assms(2) [unfolded s]])
    then show ?thesis using Remove by (auto simp: s)
  next
    case Use_ET
    then show ?thesis using assms(2) by (simp add: s in_sync_def useET_def)
  next
    case Use_oneshot
    then show ?thesis using assms(2) by (simp add: s in_sync_def useOneshot_def)
  qed (simp_all only: s chan_step.simps enableReading_def disableReading_def enableWriting_def
      disableWriting_def disableAll_def prod.case set')
  then show thesis using that s by auto
qed

section \<open>The flag agrees with the kernel\<close>

fun chan_steps :: "'k epoll_ctl \<Rightarrow> chan_op list \<Rightarrow> 'cb channel \<times> 'k \<Rightarrow> ('cb channel \<times> 'k) res" where
  "chan_steps ctl ops s = foldR (chan_step ctl) ops s"

text \<open>What the kernel should watch after a sequence of operations: a pure function of them.\<close>

fun spec_step :: "chan_op \<Rightarrow> 32 word \<times> 32 word option \<Rightarrow> 32 word \<times> 32 word option" where
  "spec_step Enable_reading (m, w) = (m OR EPOLLIN, Some (m OR EPOLLIN))"
| "spec_step Disable_reading (m, w) = (m AND NOT EPOLLIN, Some (m AND NOT EPOLLIN))"
| "spec_step Enable_writing (m, w) = (m OR EPOLLOUT, Some (m OR EPOLLOUT))"
| "spec_step Disable_writing (m, w) = (m AND NOT EPOLLOUT, Some (m AND NOT EPOLLOUT))"
| "spec_step Disable_all (m, w) = (0, Some 0)"
| "spec_step Remove (m, w) = (m, None)"
| "spec_step Use_ET (m, w) = (m OR EPOLLET, w)"
| "spec_step Use_oneshot (m, w) = (m OR EPOLLONESHOT, w)"

lemma chan_step_spec:
  assumes "kernel_ok ctl watched" "in_sync watched (ch, k)"
    "chan_step ctl op (ch, k) = Inr (ch', k')"
  shows "(events ch', watched k' (ch_fd ch)) = spec_step op (events ch, watched k (ch_fd ch))"
proof -
  have st: "watched k' (ch_fd ch) = Some m \<and> events ch' = m"
    if "setChannel ctl (ch\<lparr>events := m\<rparr>, k) = Inr (ch', k')" for m
  proof -
    have "in_sync watched (ch\<lparr>events := m\<rparr>, k)" using assms by (simp add: in_sync_def)
    from setChannel_sync [OF assms(1) this] that show ?thesis by (metis (no_types) channel.ext_inject
      channel.select_convs(1,3) channel.surjective channel.update_convs(2,3) fun_upd_same prod.inject sum.inject(2))
  qed
  show ?thesis
  proof (cases op)
    case Remove
    then show ?thesis using assms(3) removeChannel_sync [OF assms(1,2)]
      by (metis (no_types) chan_step.simps(6) channel.select_convs(3) channel.surjective
        channel.update_convs(2) fun_upd_same prod.inject spec_step.simps(6) sum.inject(2))
  qed (use assms(3) st in \<open>auto simp: enableReading_def disableReading_def enableWriting_def
      disableWriting_def disableAll_def useET_def useOneshot_def\<close>)
qed

lemma chan_steps_spec:
  assumes "kernel_ok ctl watched" "in_sync watched (ch, k)"
  shows "\<exists>ch' k'. chan_steps ctl ops (ch, k) = Inr (ch', k') \<and> in_sync watched (ch', k')
    \<and> ch_fd ch' = ch_fd ch
    \<and> (events ch', watched k' (ch_fd ch)) = fold spec_step ops (events ch, watched k (ch_fd ch))
    \<and> (\<forall>fd. fd \<noteq> ch_fd ch \<longrightarrow> watched k' fd = watched k fd)"
  using assms(2)
proof (induction ops arbitrary: ch k)
  case (Cons op ops)
  obtain ch1 k1 where o: "chan_step ctl op (ch, k) = Inr (ch1, k1)" "in_sync watched (ch1, k1)"
    "ch_fd ch1 = ch_fd ch" "\<And>fd. fd \<noteq> ch_fd ch \<Longrightarrow> watched k1 fd = watched k fd"
    using chan_step_sync [OF assms(1) Cons.prems, of op] by (metis fst_conv snd_conv surj_pair)
  note sp = chan_step_spec [OF assms(1) Cons.prems o(1)]
  obtain ch2 k2 where "chan_steps ctl ops (ch1, k1) = Inr (ch2, k2)" "in_sync watched (ch2, k2)"
    "ch_fd ch2 = ch_fd ch"
    "(events ch2, watched k2 (ch_fd ch)) = fold spec_step ops (events ch1, watched k1 (ch_fd ch))"
    "\<forall>fd. fd \<noteq> ch_fd ch \<longrightarrow> watched k2 fd = watched k1 fd"
    using Cons.IH [OF o(2)] o(3) by auto
  then show ?case using o sp by auto
qed simp

text \<open>C25.
  For any sequence of operations on a channel, none of the assertions on \<open>epoll_ctl\<close> fails,
  the flag \<open>inepoll_\<close> says whether the kernel watches the descriptor, and the mask the
  kernel keeps is the one the operations describe: the last enable or disable call
  registers the channel (again) with its whole mask, \<open>remove\<close> takes it out, and
  \<open>useET\<close> takes effect with the next registration. No other descriptor is touched.
\<close>

theorem channel_registration:
  assumes "kernel_ok ctl watched" "watched k fd = None"
  shows "\<exists>ch' k'. chan_steps ctl ops (Channel_new fd :: 'cb channel, k) = Inr (ch', k')
    \<and> (inepoll ch' \<longleftrightarrow> watched k' fd \<noteq> None)
    \<and> (events ch', watched k' fd) = fold spec_step ops (0, None)
    \<and> (\<forall>fd'. fd' \<noteq> fd \<longrightarrow> watched k' fd' = watched k fd')"
proof -
  have sync: "in_sync watched (Channel_new fd :: 'cb channel, k)" using assms(2) by (simp add: in_sync_def Channel_new_def)
  have n: "ch_fd (Channel_new fd :: 'cb channel) = fd" "events (Channel_new fd :: 'cb channel) = 0"
    by (simp_all add: Channel_new_def)
  obtain ch' k' where c:
    "chan_steps ctl ops (Channel_new fd :: 'cb channel, k) = Inr (ch', k')" "in_sync watched (ch', k')"
    "ch_fd ch' = fd" "(events ch', watched k' fd) = fold spec_step ops (0, watched k fd)"
    "\<forall>fd'. fd' \<noteq> fd \<longrightarrow> watched k' fd' = watched k fd'"
    using chan_steps_spec [OF assms(1) sync, of ops, unfolded n] by blast
  show ?thesis
  proof (rule exI [of _ ch'], rule exI [of _ k'], intro conjI)
    show "chan_steps ctl ops (Channel_new fd :: 'cb channel, k) = Inr (ch', k')" by (rule c(1))
    show "inepoll ch' \<longleftrightarrow> watched k' fd \<noteq> None" using c(2,3) by (simp add: in_sync_def)
    show "(events ch', watched k' fd) = fold spec_step ops (0, None)" using c(4) assms(2) by simp
  qed (rule c(5))
qed

text \<open>A kernel that keeps its promises: the interest list as a map.\<close>

fun map_ctl :: "(int \<Rightarrow> 32 word option) epoll_ctl" where
  "map_ctl CTL_ADD fd ev k = (if k fd = None then (0, k(fd \<mapsto> ev)) else (- 1, k))"
| "map_ctl CTL_MOD fd ev k = (if k fd \<noteq> None then (0, k(fd \<mapsto> ev)) else (- 1, k))"
| "map_ctl CTL_DEL fd ev k = (if k fd \<noteq> None then (0, k(fd := None)) else (- 1, k))"

lemma map_ctl_ok: "kernel_ok map_ctl (\<lambda>k. k)"
  by (simp add: kernel_ok_def)

lemma channel_registration_witness:
  "\<exists>ch' k'. chan_steps map_ctl [Use_ET, Enable_reading, Enable_writing, Remove, Disable_reading]
        (Channel_new 7 :: unit channel, Map.empty) = Inr (ch', k')
    \<and> (inepoll ch' \<longleftrightarrow> k' 7 \<noteq> None)
    \<and> (events ch', k' 7) = fold spec_step
        [Use_ET, Enable_reading, Enable_writing, Remove, Disable_reading] (0, None)
    \<and> (\<forall>fd'. fd' \<noteq> 7 \<longrightarrow> k' fd' = None)"
  using channel_registration [OF map_ctl_ok, of Map.empty 7
      "[Use_ET, Enable_reading, Enable_writing, Remove, Disable_reading]"]
  by (simp del: chan_steps.simps fold_simps)

text \<open>
  \<open>handleEvent\<close> runs one callback per event. When an event is at once readable and
  writable (and the peer has not closed), only the read callback runs; as connections are
  edge-triggered, the write event is lost until the next registration.
\<close>

theorem write_event_dropped:
  assumes "revents ch AND EPOLLRDHUP = 0" "revents ch AND EPOLLIN \<noteq> 0" "readcallback ch = Some cb"
  shows "handleEvent ch = Inr cb"
proof -
  have "revents ch AND (EPOLLIN OR EPOLLPRI) \<noteq> 0"
  proof
    assume "revents ch AND (EPOLLIN OR EPOLLPRI) = 0"
    then have "(revents ch AND EPOLLIN) OR (revents ch AND EPOLLPRI) = 0"
      by (simp add: bit.conj_disj_distrib)
    then have "revents ch AND EPOLLIN = 0" by (metis or_eq_0_iff)
    then show False using assms by simp
  qed
  then show ?thesis using assms by (simp add: handleEvent_def)
qed

lemma write_event_dropped_witness:
  "handleEvent ((Channel_new 5)\<lparr>revents := EPOLLIN OR EPOLLOUT, readcallback := Some ''onMessage'',
      writecallback := Some ''sendMessage''\<rparr>) = Inr ''onMessage''"
  by (rule write_event_dropped) (simp_all add: epoll_bits)

section \<open>The event loop\<close>

record ('cb, 't, 'u) event_loop =
  el_channels :: "nat \<Rightarrow> 'cb channel"
  threadId :: "int option"
  el_stop :: bool
  taskqueue :: "'t list"
  taskMutex :: "int option"
  wakeup_count :: nat
  timeoutCallback :: "'cb option"
  el_env :: 'u

type_synonym ('cb, 't, 'u) el = "('cb, 't, 'u) event_loop"

text \<open>
  The constructor: a new \<open>Epoll\<close>, in which the channel of the wake-up descriptor listens with the
  callback \<open>wake\<close> (\<open>handleWakeup\<close>). It is number 0 of the channels, \<open>chans\<close> are the others. \<open>threadId_\<close> is not set.
\<close>

definition EventLoop_new :: "'k epoll_ctl \<Rightarrow> int \<Rightarrow> int \<Rightarrow> 'cb \<Rightarrow> (nat \<Rightarrow> 'cb channel) \<Rightarrow> 'u \<Rightarrow> 'k \<Rightarrow> (('cb, 't, 'u) el \<times> 'k) res" where
  "EventLoop_new ctl epfd wakeupFd wake chans u k =
    bindR (Epoll_new epfd) (\<lambda>_.
    bindR (enableReading ctl (setReadcallback wake (Channel_new wakeupFd), k)) (\<lambda>(ch, k).
    Inr (\<lparr>el_channels = chans(0 := ch), threadId = None, el_stop = False, taskqueue = [], taskMutex = None,
      wakeup_count = 0, timeoutCallback = None, el_env = u\<rparr>, k)))"

text \<open>\<open>setepollTimeoutCallback\<close> keeps a callback that is already set.\<close>

definition setepollTimeoutCallback :: "'cb option \<Rightarrow> ('cb, 't, 'u) el \<Rightarrow> ('cb, 't, 'u) el" where
  "setepollTimeoutCallback fn l = (if timeoutCallback l = None then l\<lparr>timeoutCallback := fn\<rparr> else l)"

definition wakeup :: "('cb, 't, 'u) el \<Rightarrow> ('cb, 't, 'u) el" where
  "wakeup l = l\<lparr>wakeup_count := wakeup_count l + 1\<rparr>"

definition EventLoop_stop :: "('cb, 't, 'u) el \<Rightarrow> ('cb, 't, 'u) el" where
  "EventLoop_stop l = wakeup (l\<lparr>el_stop := True\<rparr>)"

text \<open>
  \<open>queueInLoop\<close> called by thread \<open>me\<close>. A mutex held by another thread is waited for, so a
  completed call sees it free; the thread that holds it would wait for itself.
\<close>

definition queueInLoop :: "int \<Rightarrow> 't \<Rightarrow> ('cb, 't, 'u) el \<Rightarrow> ('cb, 't, 'u) el res" where
  "queueInLoop me t l = (if taskMutex l = Some me then Inl Deadlock
    else Inr (wakeup (l\<lparr>taskqueue := taskqueue l @ [t]\<rparr>)))"

definition isLoopThread :: "int \<Rightarrow> ('cb, 't, 'u) el \<Rightarrow> bool res" where
  "isLoopThread me l = (case threadId l of None \<Rightarrow> Inl Uninitialised | Some i \<Rightarrow> Inr (i = me))"

definition runInLoop :: "int \<Rightarrow> ('t \<Rightarrow> ('cb, 't, 'u) el \<Rightarrow> ('cb, 't, 'u) el res) \<Rightarrow> 't
    \<Rightarrow> ('cb, 't, 'u) el \<Rightarrow> ('cb, 't, 'u) el res" where
  "runInLoop me exec t l = bindR (isLoopThread me l)
    (\<lambda>here. if here then exec t l else queueInLoop me t l)"

text \<open>The loop over the task queue; \<open>None\<close> if it never ends.\<close>

partial_function (option) drain :: "('t \<Rightarrow> ('cb, 't, 'u) el \<Rightarrow> ('cb, 't, 'u) el res)
    \<Rightarrow> ('cb, 't, 'u) el \<Rightarrow> ('cb, 't, 'u) el res option" where
  "drain exec l = (case taskqueue l of [] \<Rightarrow> Some (Inr l)
    | t # ts \<Rightarrow> (case exec t (l\<lparr>taskqueue := ts\<rparr>) of Inl e \<Rightarrow> Some (Inl e) | Inr l' \<Rightarrow> drain exec l'))"

definition handleWakeup :: "int \<Rightarrow> ('t \<Rightarrow> ('cb, 't, 'u) el \<Rightarrow> ('cb, 't, 'u) el res)
    \<Rightarrow> ('cb, 't, 'u) el \<Rightarrow> ('cb, 't, 'u) el res option" where
  "handleWakeup me exec l = (
    if wakeup_count l = 0 then Some (Inr l)
    else if taskMutex l = Some me then Some (Inl Deadlock)
    else (case drain exec (l\<lparr>wakeup_count := 0, taskMutex := Some me\<rparr>) of
        None \<Rightarrow> None
      | Some r \<Rightarrow> Some (bindR r (\<lambda>l'. Inr (l'\<lparr>taskMutex := None\<rparr>)))))"

text \<open>
  One round of \<open>EventLoop::run\<close>: \<open>epoll_wait\<close> answers \<open>None\<close> (an error, which the assertion
  catches) or the channels with their events; all masks are stored before the first
  channel is handled.
\<close>

definition Epoll_loop :: "(nat \<times> 32 word) list option \<Rightarrow> ('cb, 't, 'u) el
    \<Rightarrow> (nat list \<times> ('cb, 't, 'u) el) res" where
  "Epoll_loop ans l = (case ans of
      None \<Rightarrow> Inl Assert_failed
    | Some evs \<Rightarrow> Inr (map fst evs, l\<lparr>el_channels := fold (\<lambda>(c, ev) chans. chans(c := setRevents ev (chans c)))
        evs (el_channels l)\<rparr>))"

definition run_round :: "('cb \<Rightarrow> ('cb, 't, 'u) el \<Rightarrow> ('cb, 't, 'u) el res)
    \<Rightarrow> (nat \<times> 32 word) list option \<Rightarrow> ('cb, 't, 'u) el \<Rightarrow> ('cb, 't, 'u) el res" where
  "run_round exec ans l = bindR (Epoll_loop ans l) (\<lambda>(vec, l1).
    bindR (if vec = [] then (case timeoutCallback l1 of None \<Rightarrow> Inr l1 | Some cb \<Rightarrow> exec cb l1)
           else Inr l1) (\<lambda>l2.
    foldR (\<lambda>c l. bindR (handleEvent (el_channels l c)) (\<lambda>cb. exec cb l)) vec l2))"

text \<open>\<open>run\<close> for a finite list of answers of \<open>epoll_wait\<close>: the state after them or at the stop.\<close>

fun run_rounds :: "('cb \<Rightarrow> ('cb, 't, 'u) el \<Rightarrow> ('cb, 't, 'u) el res)
    \<Rightarrow> (nat \<times> 32 word) list option list \<Rightarrow> ('cb, 't, 'u) el \<Rightarrow> ('cb, 't, 'u) el res" where
  "run_rounds exec [] l = Inr l"
| "run_rounds exec (a # as) l = (if el_stop l then Inr l
    else bindR (run_round exec a l) (run_rounds exec as))"

definition EventLoop_run :: "int \<Rightarrow> ('cb \<Rightarrow> ('cb, 't, 'u) el \<Rightarrow> ('cb, 't, 'u) el res)
    \<Rightarrow> (nat \<times> 32 word) list option list \<Rightarrow> ('cb, 't, 'u) el \<Rightarrow> ('cb, 't, 'u) el res" where
  "EventLoop_run tid exec as l = run_rounds exec as (l\<lparr>threadId := Some tid\<rparr>)"

text \<open>The loop of a descriptor: \<open>loops_[fd % ioThread_]\<close>, by index.\<close>

definition getEventLoop :: "int \<Rightarrow> nat \<Rightarrow> int \<Rightarrow> nat res" where
  "getEventLoop ioThread nloops fd = (if ioThread = 0 then Inl Division_by_zero
    else let i = to_size (fd - ioThread * (if ioThread < 0 then - (fd div (- ioThread)) else fd div ioThread))
      in if i < nloops then Inr i else Inl Out_of_bounds)"

section \<open>Tasks run once, in order\<close>

lemma drain_foldR:
  assumes "\<And>t l l'. exec t l = Inr l' \<Longrightarrow> taskqueue l' = taskqueue l"
  shows "drain exec l = Some (foldR (\<lambda>t l. exec t (l\<lparr>taskqueue := tl (taskqueue l)\<rparr>)) (taskqueue l) l)"
proof (induction "taskqueue l" arbitrary: l)
  case Nil
  then have "taskqueue l = []" by simp
  then show ?case by (subst drain.simps) simp
next
  case (Cons t ts)
  then have q: "taskqueue l = t # ts" by simp
  show ?case
  proof (cases "exec t (l\<lparr>taskqueue := ts\<rparr>)")
    case (Inl e)
    then show ?thesis using q by (subst drain.simps) simp
  next
    case (Inr l')
    then have "taskqueue l' = ts" using assms by fastforce
    then show ?thesis using q Inr Cons.hyps(1) [of l'] by (subst drain.simps) simp
  qed
qed

lemma foldR_pops:
  assumes "\<And>t l l'. exec t l = Inr l' \<Longrightarrow> taskqueue l' = taskqueue l"
    and "foldR (\<lambda>t l. exec t (l\<lparr>taskqueue := tl (taskqueue l)\<rparr>)) ts l = Inr l'"
  shows "taskqueue l' = drop (length ts) (taskqueue l)"
  using assms(2)
proof (induction ts arbitrary: l)
  case (Cons t ts)
  then obtain l1 where l1: "exec t (l\<lparr>taskqueue := tl (taskqueue l)\<rparr>) = Inr l1"
    "foldR (\<lambda>t l. exec t (l\<lparr>taskqueue := tl (taskqueue l)\<rparr>)) ts l1 = Inr l'" by auto
  then have "taskqueue l1 = tl (taskqueue l)" using assms(1) by fastforce
  then show ?case using Cons.IH [OF l1(2)] by (cases "taskqueue l") auto
qed simp

text \<open>C27.
  Tasks posted to an event loop by other threads are run by its next wake-up: each once, in
  the order they were posted, and the queue is empty afterwards. The wake-up returns (the
  loop over the queue ends), provided no task posts to the queue itself.
\<close>

theorem handleWakeup_fifo:
  assumes "\<And>t l l'. exec t l = Inr l' \<Longrightarrow> taskqueue l' = taskqueue l"
    "queueInLoop other t l0 = Inr l" "taskMutex l0 = None"
  shows "\<exists>r. handleWakeup me exec l = Some r
    \<and> r = bindR (foldR (\<lambda>t l. exec t (l\<lparr>taskqueue := tl (taskqueue l)\<rparr>)) (taskqueue l0 @ [t])
        (l\<lparr>wakeup_count := 0, taskMutex := Some me\<rparr>)) (\<lambda>l'. Inr (l'\<lparr>taskMutex := None\<rparr>))
    \<and> (\<forall>l'. r = Inr l' \<longrightarrow> taskqueue l' = [] \<and> taskMutex l' = None)"
proof -
  have l: "taskqueue l = taskqueue l0 @ [t]" "wakeup_count l \<noteq> 0" "taskMutex l = None"
    using assms(2,3) by (auto simp: queueInLoop_def wakeup_def split: if_splits)
  let ?l = "l\<lparr>wakeup_count := 0, taskMutex := Some me\<rparr>"
  let ?f = "foldR (\<lambda>t l. exec t (l\<lparr>taskqueue := tl (taskqueue l)\<rparr>)) (taskqueue l0 @ [t]) ?l"
  have "drain exec ?l = Some ?f" using drain_foldR [of exec ?l, OF assms(1)] l by simp
  then have h: "handleWakeup me exec l = Some (bindR ?f (\<lambda>l'. Inr (l'\<lparr>taskMutex := None\<rparr>)))"
    using l by (simp add: handleWakeup_def)
  have e: "taskqueue l' = []" if "?f = Inr l'" for l'
    using foldR_pops [of exec, OF assms(1) that] l by simp
  have "taskqueue l' = [] \<and> taskMutex l' = None"
    if r: "bindR ?f (\<lambda>l'. Inr (l'\<lparr>taskMutex := None\<rparr>)) = Inr l'" for l'
  proof -
    obtain l1 where "?f = Inr l1" "l' = l1\<lparr>taskMutex := None\<rparr>" using r by (simp only: bindR_Inr_iff sum.inject) blast
    then show ?thesis using e [of l1] by simp
  qed
  then show ?thesis using h by (intro exI conjI) (assumption, rule refl, blast)
qed

text \<open>A loop whose tasks append their number to a log.\<close>

definition sample_loop :: "(unit, nat, nat list) event_loop" where
  "sample_loop = \<lparr>el_channels = (\<lambda>_. Channel_new 0), threadId = Some 1, el_stop = False,
    taskqueue = [4, 5], taskMutex = None, wakeup_count = 0, timeoutCallback = None, el_env = []\<rparr>"

definition log_task :: "nat \<Rightarrow> (unit, nat, nat list) event_loop \<Rightarrow> (unit, nat, nat list) event_loop res" where
  "log_task n l = Inr (l\<lparr>el_env := el_env l @ [n]\<rparr>)"

lemma handleWakeup_fifo_witness:
  "\<exists>r l'. handleWakeup 1 log_task (wakeup (sample_loop\<lparr>taskqueue := [4, 5, 6]\<rparr>)) = Some r
    \<and> r = Inr l' \<and> taskqueue l' = [] \<and> el_env l' = [4, 5, 6]"
proof -
  have q: "queueInLoop 2 6 sample_loop = Inr (wakeup (sample_loop\<lparr>taskqueue := [4, 5, 6]\<rparr>))"
    by (simp add: queueInLoop_def sample_loop_def)
  have "taskqueue l' = taskqueue l" if "log_task t l = Inr l'" for t l l'
    using that by (auto simp: log_task_def)
  from handleWakeup_fifo [of log_task, OF this q, where me = 1] show ?thesis
    by (auto simp: sample_loop_def log_task_def wakeup_def)
qed

text \<open>C37.
  A task that posts another task to its own loop blocks the loop for ever: \<open>handleWakeup\<close>
  runs the tasks while it holds the mutex of the queue, which \<open>queueInLoop\<close> locks.
\<close>

theorem task_posting_deadlocks:
  assumes "taskqueue l = t # ts" "0 < wakeup_count l" "taskMutex l = None"
    "\<And>l. exec t l = queueInLoop me t' l"
  shows "handleWakeup me exec l = Some (Inl Deadlock)"
  using assms by (simp add: handleWakeup_def drain.simps queueInLoop_def)

lemma task_posting_deadlocks_witness:
  "handleWakeup 1 (\<lambda>t. queueInLoop 1 (t + 1)) (sample_loop\<lparr>wakeup_count := 1\<rparr>) = Some (Inl Deadlock)"
  by (rule task_posting_deadlocks) (auto simp: sample_loop_def)

text \<open>Every descriptor has one loop of the group.\<close>

lemma getEventLoop_bound:
  assumes "0 \<le> fd" "0 < io" "io \<le> INT_MAX"
  shows "getEventLoop io (nat io) fd = Inr (nat (fd mod io))" "fd mod io < io"
proof -
  have "fd - io * (fd div io) = fd mod io" by (simp add: minus_mult_div_eq_mod)
  moreover have "fd mod io < io" using assms by simp
  moreover have "0 \<le> fd mod io" using assms by simp
  moreover have "fd mod io < 18446744073709551616"
    using assms(3) \<open>fd mod io < io\<close> unfolding INT_MAX_def by linarith
  ultimately show "getEventLoop io (nat io) fd = Inr (nat (fd mod io))" "fd mod io < io"
    using assms by (simp_all add: getEventLoop_def INT_MAX_def Let_def nat_less_iff)
qed

end
