(* ===== verification/Config.thy ===== *)
theory Config
  imports Prelude
begin

text \<open>
  The configuration, \<open>src/common/Config.cpp\<close>. The YAML library is not part of the
  repository: what \<open>YAML::LoadFile\<close> answers (\<open>yaml_file\<close>) and what the conversions
  \<open>as<std::string>()\<close>, \<open>as<int>()\<close>, \<open>as<bool>()\<close> give for a path of keys (\<open>None\<close> for an
  exception) are arguments. An exception in the middle of \<open>load\<close> leaves the fields written
  before it.
\<close>

record cconfig =
  cfg_ip :: string
  cfg_port :: int
  cfg_ThreadNum :: int
  cfg_ioThread :: int
  cfg_workThread :: int
  cfg_timeout :: int
  cfg_log_level :: string
  cfg_log_out_console :: bool
  cfg_log_out_dir :: string
  cfg_logger_name_prefix :: string
  cfg_etcd_url :: string
  cfg_etcd_base_dir :: string
  cfg_etcd_lease_keep_time :: int

record yaml_node =
  as_string :: "string list \<Rightarrow> string option"
  as_int :: "string list \<Rightarrow> int option"
  as_bool :: "string list \<Rightarrow> bool option"

datatype yaml_file = Bad_file | Parser_exception | Loaded yaml_node

text \<open>One assignment of the block: \<open>Inr None\<close> is the exception of a conversion.\<close>

type_synonym cfg_step = "yaml_node \<Rightarrow> cconfig \<Rightarrow> cconfig option res"

definition set_string :: "string list \<Rightarrow> (string \<Rightarrow> cconfig \<Rightarrow> cconfig) \<Rightarrow> cfg_step" where
  "set_string path upd y c = Inr (map_option (\<lambda>v. upd v c) (as_string y path))"

definition set_int :: "string list \<Rightarrow> (int \<Rightarrow> cconfig \<Rightarrow> cconfig) \<Rightarrow> cfg_step" where
  "set_int path upd y c = Inr (map_option (\<lambda>v. upd v c) (as_int y path))"

definition set_bool :: "string list \<Rightarrow> (bool \<Rightarrow> cconfig \<Rightarrow> cconfig) \<Rightarrow> cfg_step" where
  "set_bool path upd y c = Inr (map_option (\<lambda>v. upd v c) (as_bool y path))"

definition set_ThreadNum :: cfg_step where
  "set_ThreadNum y c = bindR (i32_add (cfg_ioThread c) (cfg_workThread c))
    (\<lambda>n. Inr (Some (c\<lparr>cfg_ThreadNum := n\<rparr>)))"

definition load_steps :: "cfg_step list" where
  "load_steps = [
    set_string [''ip''] (\<lambda>v. cfg_ip_update (\<lambda>_. v)),
    set_int [''port''] (\<lambda>v. cfg_port_update (\<lambda>_. v)),
    set_int [''threadnum'', ''iothread''] (\<lambda>v. cfg_ioThread_update (\<lambda>_. v)),
    set_int [''threadnum'', ''workthread''] (\<lambda>v. cfg_workThread_update (\<lambda>_. v)),
    set_ThreadNum,
    set_int [''timeout''] (\<lambda>v. cfg_timeout_update (\<lambda>_. v)),
    set_string [''logging'', ''level''] (\<lambda>v. cfg_log_level_update (\<lambda>_. v)),
    set_bool [''logging'', ''log_out_console''] (\<lambda>v. cfg_log_out_console_update (\<lambda>_. v)),
    set_string [''logging'', ''log_out_dir''] (\<lambda>v. cfg_log_out_dir_update (\<lambda>_. v)),
    set_string [''logging'', ''logger_name_prefix''] (\<lambda>v. cfg_logger_name_prefix_update (\<lambda>_. v)),
    set_string [''etcd'', ''url''] (\<lambda>v. cfg_etcd_url_update (\<lambda>_. v)),
    set_string [''etcd'', ''base_dir''] (\<lambda>v. cfg_etcd_base_dir_update (\<lambda>_. v)),
    set_int [''etcd'', ''leaseKeepTime''] (\<lambda>v. cfg_etcd_lease_keep_time_update (\<lambda>_. v))]"

fun run_steps :: "cfg_step list \<Rightarrow> yaml_node \<Rightarrow> cconfig \<Rightarrow> (bool \<times> cconfig) res" where
  "run_steps [] y c = Inr (True, c)"
| "run_steps (f # fs) y c = bindR (f y c) (\<lambda>r. case r of
      None \<Rightarrow> Inr (False, c)
    | Some c' \<Rightarrow> run_steps fs y c')"

definition load :: "yaml_file \<Rightarrow> cconfig \<Rightarrow> (int \<times> cconfig) res" where
  "load f c = (case f of
      Bad_file \<Rightarrow> Inr (- 1, c)
    | Parser_exception \<Rightarrow> Inl Uncaught_exception
    | Loaded y \<Rightarrow> bindR (run_steps load_steps y c) (\<lambda>(ok, c'). Inr (if ok then 0 else - 1, c')))"

definition init :: "yaml_file \<Rightarrow> cconfig \<Rightarrow> (int \<times> cconfig) res" where
  "init f c = load f c"

lemma run_steps_Cons_ok:
  "run_steps (f # fs) y c = Inr (True, c') \<longleftrightarrow>
    (\<exists>c1. f y c = Inr (Some c1) \<and> run_steps fs y c1 = Inr (True, c'))"
  by (cases "f y c") (auto split: option.splits)

text \<open>
  When \<open>init\<close> reports success, every setting the servers and clients read was in the file and
  is stored unchanged, the size of the thread pool is the number of I/O threads plus the
  number of worker threads, and the sum is an \<open>int\<close>.
\<close>

theorem init_success:
  assumes "init (Loaded y) c = Inr (0, c')"
  shows "as_string y [''ip''] = Some (cfg_ip c') \<and> as_int y [''port''] = Some (cfg_port c')
    \<and> as_int y [''threadnum'', ''iothread''] = Some (cfg_ioThread c')
    \<and> as_int y [''threadnum'', ''workthread''] = Some (cfg_workThread c')
    \<and> cfg_ThreadNum c' = cfg_ioThread c' + cfg_workThread c' \<and> cfg_ThreadNum c' \<le> INT_MAX
    \<and> as_int y [''timeout''] = Some (cfg_timeout c')
    \<and> as_string y [''etcd'', ''url''] = Some (cfg_etcd_url c')
    \<and> as_string y [''etcd'', ''base_dir''] = Some (cfg_etcd_base_dir c')
    \<and> as_int y [''etcd'', ''leaseKeepTime''] = Some (cfg_etcd_lease_keep_time c')"
proof -
  have "run_steps load_steps y c = Inr (True, c')"
    using assms by (auto simp: init_def load_def split: if_splits)
  then show ?thesis
    unfolding load_steps_def run_steps_Cons_ok
    by (clarsimp simp: set_string_def set_int_def set_bool_def set_ThreadNum_def INT_MAX_def)
qed

definition sample_yaml :: yaml_node where
  "sample_yaml = \<lparr>as_string = (\<lambda>p. Some (last p)), as_int = (\<lambda>p. Some (int (length p))),
    as_bool = (\<lambda>p. Some True)\<rparr>"

definition sample_config :: cconfig where
  "sample_config = \<lparr>cfg_ip = '''', cfg_port = 0, cfg_ThreadNum = 0, cfg_ioThread = 0,
    cfg_workThread = 0, cfg_timeout = 0, cfg_log_level = '''', cfg_log_out_console = False,
    cfg_log_out_dir = '''', cfg_logger_name_prefix = '''', cfg_etcd_url = '''',
    cfg_etcd_base_dir = '''', cfg_etcd_lease_keep_time = - 1\<rparr>"

lemma init_success_witness:
  "\<exists>c'. init (Loaded sample_yaml) sample_config = Inr (0, c')
    \<and> cfg_ThreadNum c' = cfg_ioThread c' + cfg_workThread c'"
proof -
  have "\<exists>c'. init (Loaded sample_yaml) sample_config = Inr (0, c')"
    by (simp add: init_def load_def load_steps_def set_string_def set_int_def set_bool_def
        set_ThreadNum_def sample_yaml_def sample_config_def i32_add_def INT_MIN_def INT_MAX_def)
  then show ?thesis using init_success by blast
qed

end
