(* ===== verification/Sockets.thy ===== *)
theory Sockets
  imports Reactor Config
begin

text \<open>
  Addresses and sockets: \<open>InterAddress\<close>, \<open>Socket\<close> and \<open>Acceptor\<close> of \<open>src/net/\<close>. The system
  calls are inputs: each takes the kernel's answer as an argument, and \<open>inet_addr\<close> and
  \<open>inet_ntoa\<close>, which are not part of the repository, are arguments of the functions that
  use them. The options set on a socket are recorded in order.
\<close>

section \<open>InterAddress\<close>

record inter_address =
  sin_addr :: "32 word"
  sin_port :: "16 word"

text \<open>The port field keeps network byte order: \<open>htons\<close> swaps the bytes of the low 16 bits.\<close>

definition InterAddress_new :: "(string \<Rightarrow> 32 word) \<Rightarrow> string \<Rightarrow> int \<Rightarrow> inter_address" where
  "InterAddress_new inet_addr ip port = \<lparr>sin_addr = inet_addr ip, sin_port = bswap16 (word_of_int port)\<rparr>"

definition InterAddress_getIp :: "(32 word \<Rightarrow> string) \<Rightarrow> inter_address \<Rightarrow> string" where
  "InterAddress_getIp inet_ntoa a = inet_ntoa (sin_addr a)"

definition InterAddress_getPort :: "inter_address \<Rightarrow> 16 word" where
  "InterAddress_getPort a = bswap16 (sin_port a)"

section \<open>Socket\<close>

datatype sock_opt = SO_REUSEADDR | SO_REUSEPORT | TCP_NODELAY | SO_KEEPALIVE

record socket =
  sk_fd :: int
  sk_ip :: string
  sk_port :: "16 word"
  sk_opts :: "sock_opt list"

definition Socket_new :: "int \<Rightarrow> socket res" where
  "Socket_new fd = (if fd = - 1 then Inl Assert_failed
    else Inr \<lparr>sk_fd = fd, sk_ip = [], sk_port = 0, sk_opts = []\<rparr>)"

definition createNonblokingSock :: "int \<Rightarrow> int res" where
  "createNonblokingSock answer = (if answer < 0 then Inl Assert_failed else Inr answer)"

definition setIpAndPort :: "string \<Rightarrow> 16 word \<Rightarrow> socket \<Rightarrow> socket" where
  "setIpAndPort ip port s = s\<lparr>sk_ip := ip, sk_port := port\<rparr>"

definition set_option :: "sock_opt \<Rightarrow> bool \<Rightarrow> socket \<Rightarrow> socket" where
  "set_option opt on s = (if on then s\<lparr>sk_opts := sk_opts s @ [opt]\<rparr> else s)"

definition setReuseaddr :: "bool \<Rightarrow> socket \<Rightarrow> socket" where "setReuseaddr = set_option SO_REUSEADDR"
definition setReuseport :: "bool \<Rightarrow> socket \<Rightarrow> socket" where "setReuseport = set_option SO_REUSEPORT"
definition setTcpnodelay :: "bool \<Rightarrow> socket \<Rightarrow> socket" where "setTcpnodelay = set_option TCP_NODELAY"
definition setKeepalive :: "bool \<Rightarrow> socket \<Rightarrow> socket" where "setKeepalive = set_option SO_KEEPALIVE"

definition Socket_Bind :: "(32 word \<Rightarrow> string) \<Rightarrow> int \<Rightarrow> inter_address \<Rightarrow> socket \<Rightarrow> socket res" where
  "Socket_Bind inet_ntoa answer addr s = (if answer = - 1 then Inl Assert_failed
    else Inr (setIpAndPort (InterAddress_getIp inet_ntoa addr) (InterAddress_getPort addr) s))"

definition Socket_Listen :: "int \<Rightarrow> socket \<Rightarrow> socket res" where
  "Socket_Listen answer s = (if answer = - 1 then Inl Assert_failed else Inr s)"

definition Socket_Accept :: "int \<times> inter_address \<Rightarrow> socket \<Rightarrow> (int \<times> inter_address) res" where
  "Socket_Accept answer s = (if fst answer < 0 then Inl Assert_failed else Inr answer)"

section \<open>Acceptor\<close>

text \<open>The answers of \<open>socket\<close>, \<open>bind\<close> and \<open>listen\<close> while the acceptor is constructed.\<close>

record sys_answers =
  ans_socket :: int
  ans_bind :: int
  ans_listen :: int

record acceptor =
  listenSock :: socket
  acceptChannel :: "unit channel"

definition Acceptor_new :: "(string \<Rightarrow> 32 word) \<Rightarrow> (32 word \<Rightarrow> string) \<Rightarrow> 'k epoll_ctl \<Rightarrow> cconfig
    \<Rightarrow> sys_answers \<Rightarrow> 'k \<Rightarrow> (acceptor \<times> 'k) res" where
  "Acceptor_new inet_addr inet_ntoa ctl cfg ans k =
    bindR (createNonblokingSock (ans_socket ans)) (\<lambda>fd.
    bindR (Socket_new fd) (\<lambda>s.
    let s = setReuseport True (setKeepalive True (setTcpnodelay True (setReuseaddr True s)));
        addr = InterAddress_new inet_addr ''0.0.0.0'' (cfg_port cfg) in
    bindR (Socket_Bind inet_ntoa (ans_bind ans) addr s) (\<lambda>s.
    bindR (Socket_Listen (ans_listen ans) s) (\<lambda>s.
    bindR (enableReading ctl ((Channel_new (sk_fd s))\<lparr>readcallback := Some ()\<rparr>, k)) (\<lambda>(ch, k).
    Inr (\<lparr>listenSock = s, acceptChannel = ch\<rparr>, k))))))"

definition Acceptor_newConnection :: "(32 word \<Rightarrow> string) \<Rightarrow> int \<times> inter_address \<Rightarrow> acceptor \<Rightarrow> socket res" where
  "Acceptor_newConnection inet_ntoa answer a =
    bindR (Socket_Accept answer (listenSock a)) (\<lambda>(fd, addr).
    bindR (Socket_new fd) (\<lambda>s.
    Inr (setIpAndPort (InterAddress_getIp inet_ntoa addr) (InterAddress_getPort addr) s)))"

section \<open>Properties\<close>

lemma bswap16_bswap16 [simp]: "bswap16 (bswap16 w) = w"
  by (simp add: bswap16_def)

text \<open>
  A listening server is set up as configured: if no system call fails, the acceptor's
  socket has all four options, carries the configured port (modulo 65536), and the kernel
  watches its descriptor for reading.
\<close>

theorem Acceptor_listens:
  assumes "kernel_ok ctl watched" "watched k (ans_socket ans) = None" "0 \<le> ans_socket ans"
    "ans_bind ans \<noteq> - 1" "ans_listen ans \<noteq> - 1"
  shows "\<exists>a k'. Acceptor_new inet_addr inet_ntoa ctl cfg ans k = Inr (a, k')
    \<and> sk_fd (listenSock a) = ans_socket ans \<and> sk_port (listenSock a) = word_of_int (cfg_port cfg)
    \<and> set (sk_opts (listenSock a)) = {SO_REUSEADDR, TCP_NODELAY, SO_KEEPALIVE, SO_REUSEPORT}
    \<and> watched k' = (watched k)(ans_socket ans \<mapsto> EPOLLIN)"
proof -
  let ?s = "\<lparr>sk_fd = ans_socket ans, sk_ip = inet_ntoa (inet_addr ''0.0.0.0''),
    sk_port = word_of_int (cfg_port cfg),
    sk_opts = [SO_REUSEADDR, TCP_NODELAY, SO_KEEPALIVE, SO_REUSEPORT]\<rparr>"
  let ?ch = "(Channel_new (ans_socket ans) :: unit channel)\<lparr>readcallback := Some (), events := EPOLLIN\<rparr>"
  have "in_sync watched (?ch, k)" using assms(2) by (simp add: in_sync_def Channel_new_def)
  moreover have "ch_fd ?ch = ans_socket ans" "events ?ch = EPOLLIN" by (simp_all add: Channel_new_def)
  ultimately obtain ch k' where
    c: "setChannel ctl (?ch, k) = Inr (ch, k')" "watched k' = (watched k)(ans_socket ans \<mapsto> EPOLLIN)"
    using setChannel_sync [OF assms(1), of ?ch k] by metis
  have e: "enableReading ctl ((Channel_new (ans_socket ans))\<lparr>readcallback := Some ()\<rparr>, k)
      = setChannel ctl (?ch, k)"
    by (simp add: enableReading_def Channel_new_def)
  have "Acceptor_new inet_addr inet_ntoa ctl cfg ans k = Inr (\<lparr>listenSock = ?s, acceptChannel = ch\<rparr>, k')"
    using assms c e by (simp add: Acceptor_new_def createNonblokingSock_def Socket_new_def Let_def
        Socket_Bind_def Socket_Listen_def setReuseaddr_def setReuseport_def setTcpnodelay_def
        setKeepalive_def set_option_def setIpAndPort_def InterAddress_new_def InterAddress_getIp_def
        InterAddress_getPort_def)
  then show ?thesis using c(2) by (auto intro!: exI [of _ "\<lparr>listenSock = ?s, acceptChannel = ch\<rparr>"] exI [of _ k'])
qed

lemma Acceptor_listens_witness:
  "\<exists>a k'. Acceptor_new (\<lambda>_. 0) (\<lambda>_. ''0.0.0.0'') map_ctl (sample_config\<lparr>cfg_port := 8081\<rparr>)
      \<lparr>ans_socket = 3, ans_bind = 0, ans_listen = 0\<rparr> Map.empty = Inr (a, k')
    \<and> sk_fd (listenSock a) = 3 \<and> sk_port (listenSock a) = 8081
    \<and> set (sk_opts (listenSock a)) = {SO_REUSEADDR, TCP_NODELAY, SO_KEEPALIVE, SO_REUSEPORT}
    \<and> k' = Map.empty(3 \<mapsto> EPOLLIN)"
  using Acceptor_listens [OF map_ctl_ok, of Map.empty "\<lparr>ans_socket = 3, ans_bind = 0, ans_listen = 0\<rparr>"
      "\<lambda>_. 0" "\<lambda>_. ''0.0.0.0''" "sample_config\<lparr>cfg_port := 8081\<rparr>"] by simp

text \<open>
  A connection that is gone before \<open>accept4\<close> runs, or a process out of descriptors, stops
  the server: \<open>Accept\<close> asserts that the call succeeds, so every error answer, also the
  harmless \<open>EAGAIN\<close> and \<open>ECONNABORTED\<close>, is a failed assertion. Otherwise the new socket has
  the descriptor and the peer's address and port.
\<close>

theorem accept_error_aborts:
  "Acceptor_newConnection inet_ntoa (fd, addr) a =
    (if fd < 0 then Inl Assert_failed
     else Inr \<lparr>sk_fd = fd, sk_ip = inet_ntoa (sin_addr addr), sk_port = bswap16 (sin_port addr), sk_opts = []\<rparr>)"
  by (simp add: Acceptor_newConnection_def Socket_Accept_def Socket_new_def setIpAndPort_def
      InterAddress_getIp_def InterAddress_getPort_def)

end
