(* ===== verification/Buffer.thy ===== *)
theory Buffer
  imports Prelude
begin

text \<open>
  The byte buffer of \<open>src/common/Buffer.h\<close> and \<open>src/common/Buffer.cpp\<close>: a vector with
  a read and a write index, as the input and the output buffer of every connection. The
  definitions follow the class method by method; \<open>contents\<close> is the abstraction (the
  bytes between the indices) and \<open>buffer_wf\<close> the class invariant. The locale
  \<open>byte_queue\<close> is the contract the coder and the connection rely on; it is interpreted
  on \<open>writeToBuffer\<close> and \<open>retrieveAsString\<close>.
\<close>

section \<open>State\<close>

record buffer =
  buffer_vec :: "char list"
  readIndex :: nat
  writeIndex :: nat

definition kInitialSize :: nat where "kInitialSize = 1024"

definition Buffer_new :: buffer where
  "Buffer_new = \<lparr>buffer_vec = replicate kInitialSize (CHR 0x00), readIndex = 0, writeIndex = 0\<rparr>"

text \<open>\<open>std::vector<char>::max_size()\<close>: \<open>resize\<close> beyond it throws \<open>std::length_error\<close>.\<close>

definition MAX_SIZE :: nat where "MAX_SIZE = 9223372036854775807"

definition vec_resize :: "nat \<Rightarrow> char list \<Rightarrow> char list res" where
  "vec_resize n xs = (if MAX_SIZE < n then Inl Length_error
    else Inr (take n xs @ replicate (n - length xs) (CHR 0x00)))"

text \<open>\<open>std::copy\<close> of given bytes to an offset of the vector, and of a part of the vector to its front.\<close>

definition copy_in :: "nat \<Rightarrow> char list \<Rightarrow> char list \<Rightarrow> char list res" where
  "copy_in pos d xs = (if pos + length d \<le> length xs
    then Inr (take pos xs @ d @ drop (pos + length d) xs) else Inl Out_of_bounds)"

definition copy_front :: "nat \<Rightarrow> nat \<Rightarrow> char list \<Rightarrow> char list res" where
  "copy_front r w xs = (if r \<le> w \<and> w \<le> length xs
    then Inr (take (w - r) (drop r xs) @ drop (w - r) xs) else Inl Out_of_bounds)"

text \<open>\<open>memcpy\<close> of \<open>n\<close> bytes out of the vector.\<close>

definition copy_out :: "nat \<Rightarrow> nat \<Rightarrow> char list \<Rightarrow> char list res" where
  "copy_out pos n xs = (if pos + n \<le> length xs then Inr (take n (drop pos xs))
    else Inl Out_of_bounds)"

section \<open>Operations\<close>

definition readableBytes :: "buffer \<Rightarrow> nat" where
  "readableBytes b = size_minus (writeIndex b) (readIndex b)"

definition writeableBytes :: "buffer \<Rightarrow> nat" where
  "writeableBytes b = size_minus (length (buffer_vec b)) (writeIndex b)"

definition prependableBytes :: "buffer \<Rightarrow> nat" where
  "prependableBytes b = readIndex b"

definition makeSpace :: "nat \<Rightarrow> buffer \<Rightarrow> buffer res" where
  "makeSpace len b =
    (if size_plus (writeableBytes b) (prependableBytes b) < len
     then bindR (vec_resize (size_plus (writeIndex b) len) (buffer_vec b)) (\<lambda>v.
       Inr (b\<lparr>buffer_vec := v\<rparr>))
     else let readable = readableBytes b in
       bindR (copy_front (readIndex b) (writeIndex b) (buffer_vec b)) (\<lambda>v.
         Inr (b\<lparr>buffer_vec := v, readIndex := 0, writeIndex := 0 + readable\<rparr>)))"

definition hasWritten :: "nat \<Rightarrow> buffer \<Rightarrow> buffer" where
  "hasWritten len b = b\<lparr>writeIndex := size_plus (writeIndex b) len\<rparr>"

definition retrieve :: "nat \<Rightarrow> buffer \<Rightarrow> buffer res" where
  "retrieve len b =
    (if \<not> len \<le> readableBytes b then Inl Assert_failed
     else if len < readableBytes b then Inr (b\<lparr>readIndex := size_plus (readIndex b) len\<rparr>)
     else if len = readableBytes b then Inr (b\<lparr>readIndex := 0, writeIndex := 0\<rparr>)
     else Inr b)"

definition writeToBuffer :: "char list \<Rightarrow> buffer \<Rightarrow> buffer res" where
  "writeToBuffer d b =
    bindR (if writeableBytes b < length d then makeSpace (length d) b else Inr b) (\<lambda>b.
    bindR (copy_in (writeIndex b) d (buffer_vec b)) (\<lambda>v.
      Inr (hasWritten (length d) (b\<lparr>buffer_vec := v\<rparr>))))"

text \<open>\<open>re\<close> is the caller's vector; it is overwritten from its first element on.\<close>

definition readFromBuffer :: "char list \<Rightarrow> nat \<Rightarrow> buffer \<Rightarrow> (char list \<times> buffer) res" where
  "readFromBuffer re len b =
    (if \<not> len \<le> readableBytes b then Inl Assert_failed
     else bindR (copy_out (readIndex b) len (buffer_vec b)) (\<lambda>d.
          bindR (copy_in 0 d re) (\<lambda>re.
          bindR (retrieve len b) (\<lambda>b. Inr (re, b)))))"

definition retrieveAsString :: "nat \<Rightarrow> buffer \<Rightarrow> (char list \<times> buffer) res" where
  "retrieveAsString len b =
    (if \<not> len \<le> readableBytes b then Inl Assert_failed
     else bindR (copy_out (readIndex b) len (buffer_vec b)) (\<lambda>result.
          bindR (retrieve len b) (\<lambda>b. Inr (result, b))))"

definition peekInt32 :: "buffer \<Rightarrow> 32 word res" where
  "peekInt32 b = (if \<not> readableBytes b \<ge> 4 then Inl Assert_failed
    else bindR (copy_out (readIndex b) 4 (buffer_vec b)) (\<lambda>d. Inr (bswap32 (load32 d))))"

definition peekInt16 :: "buffer \<Rightarrow> 16 word res" where
  "peekInt16 b = (if \<not> readableBytes b \<ge> 2 then Inl Assert_failed
    else bindR (copy_out (readIndex b) 2 (buffer_vec b)) (\<lambda>d. Inr (bswap16 (load16 d))))"

definition peekInt8 :: "buffer \<Rightarrow> 8 word res" where
  "peekInt8 b = (if \<not> readableBytes b \<ge> 1 then Inl Assert_failed
    else bindR (copy_out (readIndex b) 1 (buffer_vec b)) (\<lambda>d. Inr (load8 d)))"

definition readInt32 :: "buffer \<Rightarrow> (32 word \<times> buffer) res" where
  "readInt32 b = bindR (peekInt32 b) (\<lambda>x. bindR (retrieve 4 b) (\<lambda>b. Inr (x, b)))"

definition readInt16 :: "buffer \<Rightarrow> (16 word \<times> buffer) res" where
  "readInt16 b = bindR (peekInt16 b) (\<lambda>x. bindR (retrieve 2 b) (\<lambda>b. Inr (x, b)))"

definition readInt8 :: "buffer \<Rightarrow> (8 word \<times> buffer) res" where
  "readInt8 b = bindR (peekInt8 b) (\<lambda>x. bindR (retrieve 1 b) (\<lambda>b. Inr (x, b)))"

definition appendInt32 :: "32 word \<Rightarrow> buffer \<Rightarrow> buffer res" where
  "appendInt32 x b = writeToBuffer (mem32 (bswap32 x)) b"

text \<open>
  The source converts with \<open>htobe32\<close>: \<open>x\<close> is sign-extended to 32 bits, reversed, and
  the result truncated to the 16 bits that are stored.
\<close>

definition appendInt16 :: "16 word \<Rightarrow> buffer \<Rightarrow> buffer res" where
  "appendInt16 x b = writeToBuffer (mem16 (ucast (bswap32 (scast x)))) b"

definition appendInt8 :: "8 word \<Rightarrow> buffer \<Rightarrow> buffer res" where
  "appendInt8 x b = writeToBuffer (mem8 x) b"

subsection \<open>System calls on the buffer\<close>

text \<open>
  What a \<open>readv\<close> or \<open>write\<close> on the descriptor answers is the environment's: the bytes
  that have arrived (of which \<open>readv\<close> takes what its two blocks hold), the number of bytes
  taken, or an error. \<open>readFd\<close> and \<open>writeFd\<close> return
  the call's result, the value stored through \<open>savedErrno\<close> (0 if untouched) and the buffer.
\<close>

datatype errno = No_error | EINTR | EAGAIN | EINPROGRESS | Other_errno int

datatype read_answer = Read_error errno | Read_bytes "char list"

datatype write_answer = Write_error errno | Written nat

definition EXTRABUF :: nat where "EXTRABUF = 65536"

definition readFd :: "read_answer \<Rightarrow> buffer \<Rightarrow> (int \<times> errno \<times> buffer) res" where
  "readFd ans b =
    (let writable = writeableBytes b in
     case ans of
       Read_error e \<Rightarrow> Inr (-1, e, b)
     | Read_bytes avail \<Rightarrow>
         let d = take (writable + EXTRABUF) avail; n = length d in
         bindR (copy_in (writeIndex b) (take writable d) (buffer_vec b)) (\<lambda>v.
         let b = b\<lparr>buffer_vec := v\<rparr> in
         if n \<le> writable
         then Inr (int n, No_error, b\<lparr>writeIndex := size_plus (writeIndex b) n\<rparr>)
         else bindR (writeToBuffer (drop writable d) (b\<lparr>writeIndex := length (buffer_vec b)\<rparr>)) (\<lambda>b.
              Inr (int n, No_error, b))))"

definition writeFd :: "write_answer \<Rightarrow> buffer \<Rightarrow> (int \<times> errno \<times> buffer) res" where
  "writeFd ans b =
    (case ans of
       Write_error e \<Rightarrow> Inr (-1, e, b)
     | Written n \<Rightarrow> bindR (retrieve n b) (\<lambda>b. Inr (int n, No_error, b)))"

section \<open>Invariant and abstraction\<close>

definition buffer_wf :: "buffer \<Rightarrow> bool" where
  "buffer_wf b \<longleftrightarrow> readIndex b \<le> writeIndex b \<and> writeIndex b \<le> length (buffer_vec b)
     \<and> length (buffer_vec b) \<le> MAX_SIZE"

definition contents :: "buffer \<Rightarrow> char list" where
  "contents b = take (writeIndex b - readIndex b) (drop (readIndex b) (buffer_vec b))"

definition buffer_room :: "buffer \<Rightarrow> nat" where
  "buffer_room b = MAX_SIZE - writeIndex b"

lemma length_contents: "buffer_wf b \<Longrightarrow> length (contents b) = writeIndex b - readIndex b"
  by (auto simp: buffer_wf_def contents_def)

lemma buffer_wf_Buffer_new [simp]: "buffer_wf Buffer_new"
  by (simp add: buffer_wf_def Buffer_new_def kInitialSize_def MAX_SIZE_def)

lemma contents_Buffer_new [simp]: "contents Buffer_new = []"
  by (simp add: contents_def Buffer_new_def)

lemma room_Buffer_new [simp]: "buffer_room Buffer_new = 9223372036854775807"
  by (simp add: buffer_room_def Buffer_new_def MAX_SIZE_def)

lemma readableBytes_wf: "buffer_wf b \<Longrightarrow> readableBytes b = length (contents b)"
  by (simp add: length_contents readableBytes_def) (simp add: buffer_wf_def)

lemma writeableBytes_wf: "buffer_wf b \<Longrightarrow> writeableBytes b = length (buffer_vec b) - writeIndex b"
  by (simp add: writeableBytes_def buffer_wf_def)

lemma take_split_mid: "w \<le> length xs \<Longrightarrow> r \<le> w \<Longrightarrow>
  drop r (take w xs @ ys) = take (w - r) (drop r xs) @ ys"
  by (simp add: drop_take)

lemma retrieve_wf:
  assumes "buffer_wf b"
  shows "retrieve n b = (if n \<le> length (contents b)
    then Inr (if n = length (contents b) then b\<lparr>readIndex := 0, writeIndex := 0\<rparr>
              else b\<lparr>readIndex := readIndex b + n\<rparr>)
    else Inl Assert_failed)"
  using assms length_contents [OF assms]
  by (auto simp: retrieve_def readableBytes_wf buffer_wf_def MAX_SIZE_def)

lemma retrieve_ok:
  assumes "buffer_wf b" "n \<le> length (contents b)"
  shows "\<exists>b'. retrieve n b = Inr b' \<and> buffer_wf b' \<and> contents b' = drop n (contents b)"
proof (cases "n = length (contents b)")
  case True
  with assms show ?thesis by (auto simp: retrieve_wf buffer_wf_def contents_def)
next
  case False
  with assms have "n < writeIndex b - readIndex b" by (simp add: length_contents)
  with assms False show ?thesis
    by (auto simp: retrieve_wf buffer_wf_def contents_def drop_take algebra_simps)
qed

lemma retrieve_Inr:
  assumes "buffer_wf b" "retrieve n b = Inr b'"
  shows "n \<le> length (contents b) \<and> buffer_wf b' \<and> contents b' = drop n (contents b)"
  using retrieve_ok [of b n] assms by (auto simp: retrieve_wf split: if_splits)

lemma retrieve_writeIndex:
  "buffer_wf b \<Longrightarrow> retrieve n b = Inr b' \<Longrightarrow> writeIndex b' \<le> writeIndex b"
  by (simp add: retrieve_wf split: if_splits) auto

lemma copy_out_wf:
  assumes "buffer_wf b" "n \<le> length (contents b)"
  shows "copy_out (readIndex b) n (buffer_vec b) = Inr (take n (contents b))"
proof -
  have "n \<le> writeIndex b - readIndex b" using assms by (simp add: length_contents)
  with assms(1) show ?thesis
    by (auto simp: copy_out_def contents_def buffer_wf_def min_def)
qed

lemma retrieveAsString_Inr:
  assumes "buffer_wf b" "retrieveAsString n b = Inr (d, b')"
  shows "buffer_wf b' \<and> n \<le> length (contents b) \<and> d = take n (contents b)
    \<and> contents b' = drop n (contents b)"
proof -
  have n: "n \<le> length (contents b)"
    using assms by (auto simp: retrieveAsString_def readableBytes_wf split: if_splits)
  with assms copy_out_wf [OF assms(1) n] have "retrieve n b = Inr b'" "d = take n (contents b)"
    by (auto simp: retrieveAsString_def split: if_splits)
  with retrieve_Inr [OF assms(1)] show ?thesis by auto
qed

lemma retrieveAsString_ok:
  assumes "buffer_wf b" "n \<le> length (contents b)"
  shows "\<exists>b'. retrieveAsString n b = Inr (take n (contents b), b')"
  using assms retrieve_ok [OF assms]
  by (auto simp: retrieveAsString_def readableBytes_wf copy_out_wf)

lemma retrieveAsString_fails:
  "buffer_wf b \<Longrightarrow> length (contents b) < n \<Longrightarrow> retrieveAsString n b = Inl Assert_failed"
  by (simp add: retrieveAsString_def readableBytes_wf)

lemma makeSpace_Inr:
  assumes "buffer_wf b" "makeSpace n b = Inr b'" "writeIndex b + n < 18446744073709551616"
  shows "buffer_wf b' \<and> contents b' = contents b \<and> writeIndex b' \<le> writeIndex b"
proof (cases "size_plus (writeableBytes b) (prependableBytes b) < n")
  case True
  with assms obtain v where v: "vec_resize (writeIndex b + n) (buffer_vec b) = Inr v"
    and b': "b' = b\<lparr>buffer_vec := v\<rparr>"
    by (auto simp: makeSpace_def)
  with assms(1) show ?thesis
    by (auto simp: vec_resize_def buffer_wf_def contents_def drop_take min_def split: if_splits)
next
  case False
  with assms show ?thesis
    by (auto simp: makeSpace_def Let_def copy_front_def buffer_wf_def contents_def
        readableBytes_def split: if_splits)
qed

lemma append_at_end:
  assumes "r \<le> w" "w + length d \<le> length xs"
  shows "take (w + length d - r) (drop r (take w xs @ d @ drop (w + length d) xs))
    = take (w - r) (drop r xs) @ d"
proof -
  have "w + length d - r = (w - r) + length d" using assms by simp
  with assms show ?thesis by (simp add: drop_take)
qed

lemma contents_append:
  assumes "readIndex b \<le> writeIndex b" "writeIndex b + length d \<le> length (buffer_vec b)"
  shows "contents (b\<lparr>buffer_vec := take (writeIndex b) (buffer_vec b) @ d
      @ drop (writeIndex b + length d) (buffer_vec b), writeIndex := writeIndex b + length d\<rparr>)
    = contents b @ d"
  using assms append_at_end [OF assms] by (simp add: contents_def drop_take)

lemma writeToBuffer_Inr:
  assumes "buffer_wf b" "writeToBuffer d b = Inr b'"
  shows "buffer_wf b' \<and> contents b' = contents b @ d \<and> writeIndex b' \<le> writeIndex b + length d"
proof -
  from assms(2) obtain b1 v
    where b1: "(if writeableBytes b < length d then makeSpace (length d) b else Inr b) = Inr b1"
      and v: "copy_in (writeIndex b1) d (buffer_vec b1) = Inr v"
      and b': "b' = hasWritten (length d) (b1\<lparr>buffer_vec := v\<rparr>)"
    by (auto simp: writeToBuffer_def)
  have "buffer_wf b1 \<and> contents b1 = contents b \<and> writeIndex b1 \<le> writeIndex b"
  proof (cases "writeableBytes b < length d")
    case True
    with b1 have m: "makeSpace (length d) b = Inr b1" by simp
    have "writeIndex b + length d < 18446744073709551616"
    proof (rule ccontr)
      assume big: "\<not> writeIndex b + length d < 18446744073709551616"
      have "size_plus (writeableBytes b) (prependableBytes b) < length d"
        using assms(1) big by (auto simp: writeableBytes_wf prependableBytes_def buffer_wf_def MAX_SIZE_def)
      with m obtain v1 where "vec_resize (size_plus (writeIndex b) (length d)) (buffer_vec b) = Inr v1"
        and "b1 = b\<lparr>buffer_vec := v1\<rparr>"
        by (auto simp: makeSpace_def)
      then have "length (buffer_vec b1) \<le> MAX_SIZE" "writeIndex b1 = writeIndex b"
        by (auto simp: vec_resize_def split: if_splits)
      with v big show False
        by (auto simp: copy_in_def MAX_SIZE_def split: if_splits)
    qed
    with makeSpace_Inr [OF assms(1) m] show ?thesis by blast
  qed (use b1 assms(1) in auto)
  then have wf1: "buffer_wf b1" and c1: "contents b1 = contents b"
    and w1: "writeIndex b1 \<le> writeIndex b" by auto
  from v wf1 b' have fit: "writeIndex b1 + length d \<le> length (buffer_vec b1)"
    and b'': "b' = b1\<lparr>buffer_vec := take (writeIndex b1) (buffer_vec b1) @ d
      @ drop (writeIndex b1 + length d) (buffer_vec b1), writeIndex := writeIndex b1 + length d\<rparr>"
    by (auto simp: copy_in_def hasWritten_def buffer_wf_def MAX_SIZE_def split: if_splits)
  have "contents b' = contents b1 @ d"
    unfolding b'' using wf1 fit by (intro contents_append) (auto simp: buffer_wf_def)
  moreover have "buffer_wf b'"
    using wf1 fit by (auto simp: b'' buffer_wf_def)
  ultimately show ?thesis using c1 w1 by (simp add: b'')
qed

lemma writeToBuffer_ok:
  assumes "buffer_wf b" "length d \<le> buffer_room b"
  shows "\<exists>b'. writeToBuffer d b = Inr b'"
proof (cases "writeableBytes b < length d")
  case True
  show ?thesis
  proof (cases "size_plus (writeableBytes b) (prependableBytes b) < length d")
    case grow: True
    with True assms show ?thesis
      by (auto simp: writeToBuffer_def makeSpace_def vec_resize_def copy_in_def buffer_room_def
          buffer_wf_def MAX_SIZE_def)
  next
    case False
    with True assms show ?thesis
      by (auto simp: writeToBuffer_def makeSpace_def Let_def copy_front_def copy_in_def
          buffer_wf_def writeableBytes_def prependableBytes_def readableBytes_def MAX_SIZE_def)
  qed
next
  case False
  with assms show ?thesis
    by (auto simp: writeToBuffer_def copy_in_def writeableBytes_wf buffer_wf_def)
qed

section \<open>The byte-queue contract\<close>

text \<open>
  A client writes strings at one end and takes strings of a given length from the other.
  \<open>queue_op\<close> lists its two operations, \<open>queue_run\<close> runs a sequence of them over any
  implementation and returns what the reads returned, \<open>spec_put\<close> and \<open>spec_get\<close> are the
  abstract queue: the string of bytes written and not yet taken.
\<close>

datatype queue_op = Put "char list" | Get nat

fun queue_run :: "(char list \<Rightarrow> 'q \<Rightarrow> 'q res) \<Rightarrow> (nat \<Rightarrow> 'q \<Rightarrow> (char list \<times> 'q) res) \<Rightarrow>
    queue_op list \<Rightarrow> 'q \<Rightarrow> (char list list \<times> 'q) res" where
  "queue_run put get [] q = Inr ([], q)"
| "queue_run put get (Put d # ops) q = bindR (put d q) (queue_run put get ops)"
| "queue_run put get (Get n # ops) q =
     bindR (get n q) (\<lambda>(d, q). bindR (queue_run put get ops q) (\<lambda>(ds, q). Inr (d # ds, q)))"

fun written :: "queue_op list \<Rightarrow> nat" where
  "written [] = 0"
| "written (Put d # ops) = length d + written ops"
| "written (Get n # ops) = written ops"

definition spec_put :: "char list \<Rightarrow> char list \<Rightarrow> char list res" where
  "spec_put d s = Inr (s @ d)"

definition spec_get :: "nat \<Rightarrow> char list \<Rightarrow> (char list \<times> char list) res" where
  "spec_get n s = (if n \<le> length s then Inr (take n s, drop n s) else Inl Assert_failed)"

locale byte_queue =
  fixes inv :: "'q \<Rightarrow> bool"
    and abs :: "'q \<Rightarrow> char list"
    and room :: "'q \<Rightarrow> nat"
    and put :: "char list \<Rightarrow> 'q \<Rightarrow> 'q res"
    and get :: "nat \<Rightarrow> 'q \<Rightarrow> (char list \<times> 'q) res"
  assumes put_ok: "inv q \<Longrightarrow> length d \<le> room q \<Longrightarrow> \<exists>q'. put d q = Inr q'"
    and put_abs: "inv q \<Longrightarrow> put d q = Inr q' \<Longrightarrow>
      inv q' \<and> abs q' = abs q @ d \<and> room q \<le> room q' + length d"
    and get_ok: "inv q \<Longrightarrow> n \<le> length (abs q) \<Longrightarrow> \<exists>q'. get n q = Inr (take n (abs q), q')"
    and get_abs: "inv q \<Longrightarrow> get n q = Inr (d, q') \<Longrightarrow>
      inv q' \<and> n \<le> length (abs q) \<and> d = take n (abs q) \<and> abs q' = drop n (abs q) \<and> room q \<le> room q'"
    and get_fails: "inv q \<Longrightarrow> length (abs q) < n \<Longrightarrow> get n q = Inl Assert_failed"
begin

lemma puts_abs:
  "inv q \<Longrightarrow> foldR put ds q = Inr q' \<Longrightarrow>
   inv q' \<and> abs q' = abs q @ concat ds \<and> room q \<le> room q' + length (concat ds)"
proof (induction ds arbitrary: q)
  case (Cons d ds)
  from Cons.prems obtain q1 where q1: "put d q = Inr q1" and r: "foldR put ds q1 = Inr q'"
    by auto
  from put_abs [OF Cons.prems(1) q1] have "inv q1" "abs q1 = abs q @ d" "room q \<le> room q1 + length d"
    by auto
  with Cons.IH [OF _ r] show ?case by auto
qed simp

lemma puts_ok:
  "inv q \<Longrightarrow> length (concat ds) \<le> room q \<Longrightarrow> \<exists>q'. foldR put ds q = Inr q'"
proof (induction ds arbitrary: q)
  case (Cons d ds)
  then obtain q1 where q1: "put d q = Inr q1" using put_ok [of q d] by auto
  from put_abs [OF Cons.prems(1) q1] Cons.prems(2)
  have "inv q1" "length (concat ds) \<le> room q1" by auto
  with Cons.IH q1 show ?case by auto
qed simp

lemma get_step:
  assumes "inv q" "n \<le> length (abs q)"
  shows "\<exists>q'. get n q = Inr (take n (abs q), q') \<and> inv q' \<and> abs q' = drop n (abs q)
    \<and> room q \<le> room q'"
  using get_ok [OF assms] get_abs [OF assms(1)] by blast

lemma run_refines:
  "inv q \<Longrightarrow> written ops \<le> room q \<Longrightarrow>
   (case queue_run put get ops q of
      Inl e \<Rightarrow> queue_run spec_put spec_get ops (abs q) = Inl e
    | Inr (ds, q') \<Rightarrow> inv q' \<and> queue_run spec_put spec_get ops (abs q) = Inr (ds, abs q'))"
proof (induction ops arbitrary: q rule: written.induct)
  case (2 d ops)
  then obtain q1 where q1: "put d q = Inr q1" using put_ok [of q d] by auto
  from put_abs [OF 2(2) q1] 2(3) have i: "inv q1" "written ops \<le> room q1" "abs q1 = abs q @ d"
    by auto
  from 2(1) [OF i(1,2)] i(3) show ?case
    by (cases "queue_run put get ops q1") (auto simp: q1 spec_put_def)
next
  case (3 n ops)
  show ?case
  proof (cases "n \<le> length (abs q)")
    case True
    then obtain q1 where q1: "get n q = Inr (take n (abs q), q1)" "inv q1" "abs q1 = drop n (abs q)"
      "room q \<le> room q1"
      using get_step [OF 3(2)] by blast
    with 3(3) have "written ops \<le> room q1" by simp
    from 3(1) [OF q1(2) this] q1 True show ?thesis
      by (cases "queue_run put get ops q1") (auto simp: spec_get_def)
  next
    case False
    then show ?thesis using get_fails [OF 3(2)] by (simp add: spec_get_def)
  qed
qed simp

end

interpretation bq: byte_queue buffer_wf contents buffer_room writeToBuffer retrieveAsString
proof unfold_locales
  fix b b' :: buffer and n :: nat and d :: "char list"
  show "buffer_wf b \<Longrightarrow> length d \<le> buffer_room b \<Longrightarrow> \<exists>b'. writeToBuffer d b = Inr b'"
    by (rule writeToBuffer_ok)
  show "buffer_wf b \<Longrightarrow> writeToBuffer d b = Inr b' \<Longrightarrow> buffer_wf b' \<and> contents b' = contents b @ d
      \<and> buffer_room b \<le> buffer_room b' + length d"
    using writeToBuffer_Inr [of b d b'] by (auto simp: buffer_room_def)
  show "buffer_wf b \<Longrightarrow> n \<le> length (contents b) \<Longrightarrow>
      \<exists>b'. retrieveAsString n b = Inr (take n (contents b), b')"
    by (rule retrieveAsString_ok)
  show "buffer_wf b \<Longrightarrow> length (contents b) < n \<Longrightarrow> retrieveAsString n b = Inl Assert_failed"
    by (rule retrieveAsString_fails)
  assume wf: "buffer_wf b" and r: "retrieveAsString n b = Inr (d, b')"
  from r have "retrieve n b = Inr b'"
    by (auto simp: retrieveAsString_def split: if_splits)
  with wf have "writeIndex b' \<le> writeIndex b" by (rule retrieve_writeIndex)
  with retrieveAsString_Inr [OF wf r]
  show "buffer_wf b' \<and> n \<le> length (contents b) \<and> d = take n (contents b)
      \<and> contents b' = drop n (contents b) \<and> buffer_room b \<le> buffer_room b'"
    by (auto simp: buffer_room_def)
qed

section \<open>Integers and descriptors\<close>

lemma appendInt32_be: "appendInt32 x b = writeToBuffer (be32 x) b"
  by (simp add: appendInt32_def mem32_bswap32)

lemma readInt32_get:
  "readInt32 b = bindR (retrieveAsString 4 b) (\<lambda>(d, b). Inr (bswap32 (load32 d), b))"
  by (cases "copy_out (readIndex b) 4 (buffer_vec b)"; cases "retrieve 4 b")
    (auto simp: readInt32_def peekInt32_def retrieveAsString_def)

lemma readInt8_get:
  "readInt8 b = bindR (retrieveAsString 1 b) (\<lambda>(d, b). Inr (load8 d, b))"
  by (cases "copy_out (readIndex b) 1 (buffer_vec b)"; cases "retrieve 1 b")
    (auto simp: readInt8_def peekInt8_def retrieveAsString_def)

lemma readInt16_get:
  "readInt16 b = bindR (retrieveAsString 2 b) (\<lambda>(d, b). Inr (bswap16 (load16 d), b))"
  by (cases "copy_out (readIndex b) 2 (buffer_vec b)"; cases "retrieve 2 b")
    (auto simp: readInt16_def peekInt16_def retrieveAsString_def)

lemma appendInt16_sign:
  "appendInt16 x b = writeToBuffer (if sint x < 0 then [CHR 0xFF, CHR 0xFF] else [CHR 0x00, CHR 0x00]) b"
  by (simp add: appendInt16_def mem16_ucast mem32_bswap32 be32_scast16)

lemma readFd_unfold:
  assumes "d = take (writeableBytes b + EXTRABUF) avail"
  shows "readFd (Read_bytes avail) b =
    bindR (copy_in (writeIndex b) (take (writeableBytes b) d) (buffer_vec b)) (\<lambda>v.
      if length d \<le> writeableBytes b
      then Inr (int (length d), No_error,
        b\<lparr>buffer_vec := v, writeIndex := size_plus (writeIndex b) (length d)\<rparr>)
      else bindR (writeToBuffer (drop (writeableBytes b) d) (b\<lparr>buffer_vec := v, writeIndex := length v\<rparr>))
        (\<lambda>b. Inr (int (length d), No_error, b)))"
  unfolding assms readFd_def Let_def by (simp del: take_take length_take drop_take cong: if_cong)

lemma readFd_bytes:
  assumes "buffer_wf b" "length d \<le> buffer_room b" "d = take (writeableBytes b + EXTRABUF) avail"
  shows "\<exists>b'. readFd (Read_bytes avail) b = Inr (int (length d), No_error, b') \<and> buffer_wf b'
    \<and> contents b' = contents b @ d \<and> writeIndex b' \<le> writeIndex b + length d"
proof (cases "length d \<le> writeableBytes b")
  case True
  with assms have fit: "writeIndex b + length d \<le> length (buffer_vec b)"
    by (auto simp: writeableBytes_wf buffer_wf_def)
  define b' where "b' = b\<lparr>buffer_vec := take (writeIndex b) (buffer_vec b) @ d
      @ drop (writeIndex b + length d) (buffer_vec b), writeIndex := writeIndex b + length d\<rparr>"
  have "contents b' = contents b @ d"
    unfolding b'_def using assms(1) fit by (intro contents_append) (auto simp: buffer_wf_def)
  moreover have "buffer_wf b'" using assms(1) fit by (auto simp: b'_def buffer_wf_def)
  moreover have "readFd (Read_bytes avail) b = Inr (int (length d), No_error, b')"
    using True fit assms(1) by (auto simp: readFd_unfold [OF assms(3)] copy_in_def b'_def buffer_wf_def MAX_SIZE_def)
  ultimately show ?thesis by (auto simp: b'_def)
next
  case False
  define k where "k = length (buffer_vec b) - writeIndex b"
  have k: "writeableBytes b = k" "k < length d" "writeIndex b + k = length (buffer_vec b)"
    using False assms(1) by (auto simp: k_def writeableBytes_wf buffer_wf_def)
  define b1 where "b1 = b\<lparr>buffer_vec := take (writeIndex b) (buffer_vec b) @ take k d
      @ drop (writeIndex b + length (take k d)) (buffer_vec b),
      writeIndex := writeIndex b + length (take k d)\<rparr>"
  have len: "length (take k d) = k" using k(2) by simp
  have c1: "contents b1 = contents b @ take k d"
    unfolding b1_def using assms(1) k(3) len by (intro contents_append) (auto simp: buffer_wf_def)
  have wf1: "buffer_wf b1" using assms(1) k len by (auto simp: b1_def buffer_wf_def)
  have "length (drop k d) \<le> buffer_room b1"
    using assms(2) k len by (auto simp: b1_def buffer_room_def)
  then obtain b2 where b2: "writeToBuffer (drop k d) b1 = Inr b2"
    using bq.put_ok [OF wf1] by blast
  with writeToBuffer_Inr [OF wf1 b2] have "buffer_wf b2" "contents b2 = contents b1 @ drop k d"
    "writeIndex b2 \<le> writeIndex b1 + length (drop k d)"
    by auto
  moreover have "readFd (Read_bytes avail) b = Inr (int (length d), No_error, b2)"
    using k b2 len by (simp add: readFd_unfold [OF assms(3)] copy_in_def b1_def)
  ultimately show ?thesis using c1 k(2) len by (auto simp: b1_def)
qed

section \<open>Properties\<close>

text \<open>C6.
  \<open>Buffer\<close> is a byte queue: whatever sequence of writes and reads of given lengths runs on
  it (the vector growing, its free front being reused, the indices being reset), the reads
  return what the abstract queue of the written bytes returns, the buffer ends with the
  bytes the abstract queue ends with, and it fails exactly when a read asks for more bytes
  than are there. The hypothesis bounds the bytes written by what \<open>std::vector\<close> can hold.
\<close>

theorem buffer_refines_queue:
  assumes "buffer_wf b" and "written ops \<le> buffer_room b"
  shows "case queue_run writeToBuffer retrieveAsString ops b of
      Inl e \<Rightarrow> queue_run spec_put spec_get ops (contents b) = Inl e
    | Inr (ds, b') \<Rightarrow> buffer_wf b' \<and>
        queue_run spec_put spec_get ops (contents b) = Inr (ds, contents b')"
  using assms by (rule bq.run_refines)

theorem buffer_refines_queue_witness:
  "case queue_run writeToBuffer retrieveAsString [Put ''ab'', Get 1, Put ''c'', Get 2] Buffer_new of
      Inl e \<Rightarrow> queue_run spec_put spec_get [Put ''ab'', Get 1, Put ''c'', Get 2] (contents Buffer_new) = Inl e
    | Inr (ds, b') \<Rightarrow> buffer_wf b' \<and>
        queue_run spec_put spec_get [Put ''ab'', Get 1, Put ''c'', Get 2] (contents Buffer_new)
          = Inr (ds, contents b')"
proof (rule buffer_refines_queue)
  show "written [Put ''ab'', Get 1, Put ''c'', Get 2] \<le> buffer_room Buffer_new"
    by (simp add: buffer_room_def Buffer_new_def MAX_SIZE_def)
qed simp

text \<open>
  \<open>readFd\<close> appends exactly the bytes it took to the buffer's contents, whether they fit
  behind the write index or run over into the 64 KiB stack buffer and are appended from there,
  and reports their number.
\<close>

theorem readFd_appends:
  assumes "buffer_wf b" and "length avail \<le> buffer_room b"
  shows "\<exists>b' d. d = take (writeableBytes b + EXTRABUF) avail \<and>
    readFd (Read_bytes avail) b = Inr (int (length d), No_error, b') \<and> buffer_wf b'
    \<and> contents b' = contents b @ d"
proof -
  define d where "d = take (writeableBytes b + EXTRABUF) avail"
  have "length d \<le> buffer_room b" using assms(2) by (simp add: d_def)
  from readFd_bytes [OF assms(1) this d_def] show ?thesis by (auto simp: d_def [symmetric])
qed

theorem readFd_appends_witness:
  "\<exists>b' d. d = take (writeableBytes Buffer_new + EXTRABUF) (replicate 2000 (CHR ''x'')) \<and>
    readFd (Read_bytes (replicate 2000 (CHR ''x''))) Buffer_new = Inr (int (length d), No_error, b')
    \<and> buffer_wf b' \<and> contents b' = contents Buffer_new @ d"
proof (rule readFd_appends)
  show "length (replicate 2000 (CHR ''x'')) \<le> buffer_room Buffer_new"
    by (simp add: buffer_room_def Buffer_new_def MAX_SIZE_def)
qed simp

text \<open>
  A 32-bit integer survives the buffer: appended in network byte order behind whatever the
  buffer holds, it is what \<open>readInt32\<close> returns once the bytes before it have been taken.
\<close>

theorem int32_roundtrip:
  assumes "buffer_wf b" and "appendInt32 x b = Inr b1"
    and "retrieveAsString (length (contents b)) b1 = Inr (d, b2)"
  shows "d = contents b \<and> (\<exists>b3. readInt32 b2 = Inr (x, b3) \<and> contents b3 = [])"
proof -
  from bq.put_abs [OF assms(1)] assms(2)
  have b1: "buffer_wf b1" "contents b1 = contents b @ be32 x"
    by (auto simp: appendInt32_be)
  with bq.get_abs [OF b1(1) assms(3)] have b2: "buffer_wf b2" "d = contents b" "contents b2 = be32 x"
    by auto
  with bq.get_step [OF b2(1), of 4] show ?thesis by (auto simp: readInt32_get)
qed

theorem int32_roundtrip_witness:
  "\<exists>b1 d b2. appendInt32 7 Buffer_new = Inr b1 \<and> retrieveAsString (length (contents Buffer_new)) b1 = Inr (d, b2)
    \<and> d = contents Buffer_new \<and> (\<exists>b3. readInt32 b2 = Inr (7, b3) \<and> contents b3 = [])"
proof -
  obtain b1 where b1: "appendInt32 7 Buffer_new = Inr b1"
    using bq.put_ok [of Buffer_new "be32 7"] by (auto simp: appendInt32_be room_Buffer_new)
  then have "buffer_wf b1" using bq.put_abs [of Buffer_new "be32 7" b1] by (auto simp: appendInt32_be)
  then obtain d b2 where "retrieveAsString (length (contents Buffer_new)) b1 = Inr (d, b2)"
    using bq.get_step [of b1 0] by auto
  with b1 int32_roundtrip [OF buffer_wf_Buffer_new b1 this] show ?thesis by blast
qed

text \<open>
  \<open>appendInt16\<close> loses its argument: it byte-swaps at 32 bits and keeps the low half, so it
  writes two bytes that hold the sign only, and \<open>readInt16\<close> of a buffer it wrote returns 0
  or -1 whatever was appended.
\<close>

theorem appendInt16_loses_value:
  "appendInt16 x b = writeToBuffer (if sint x < 0 then [CHR 0xFF, CHR 0xFF] else [CHR 0x00, CHR 0x00]) b"
  by (rule appendInt16_sign)

section \<open>Memory\<close>

text \<open>
  What a connection does with its buffers: it writes, takes, and reads from the descriptor. The
  peak is the largest number of unread bytes on the way.
\<close>

datatype buffer_op = Write_op "char list" | Take_op nat | Receive_op "char list"

fun buffer_act :: "buffer_op \<Rightarrow> buffer \<Rightarrow> buffer res" where
  "buffer_act (Write_op d) b = writeToBuffer d b"
| "buffer_act (Take_op n) b = retrieve n b"
| "buffer_act (Receive_op d) b = bindR (readFd (Read_bytes d) b) (\<lambda>(_, _, b). Inr b)"

fun peak :: "buffer_op list \<Rightarrow> buffer \<Rightarrow> nat" where
  "peak [] b = length (contents b)"
| "peak (op # ops) b = max (length (contents b)) (case buffer_act op b of Inl e \<Rightarrow> 0 | Inr b \<Rightarrow> peak ops b)"

lemma peak_ge: "length (contents b) \<le> peak ops b"
  by (cases ops) auto

lemma makeSpace_memory:
  assumes "buffer_wf b" "makeSpace n b = Inr b'"
  shows "length (buffer_vec b') \<le> max (length (buffer_vec b)) (length (contents b) + 2 * n)"
proof (cases "size_plus (writeableBytes b) (prependableBytes b) < n")
  case True
  have le: "readIndex b \<le> writeIndex b" "writeIndex b \<le> length (buffer_vec b)" "length (buffer_vec b) \<le> MAX_SIZE"
    using assms(1) by (simp_all add: buffer_wf_def)
  have s: "size_plus (writeableBytes b) (prependableBytes b) = length (buffer_vec b) - writeIndex b + readIndex b"
    using le assms(1) by (simp add: writeableBytes_wf prependableBytes_def MAX_SIZE_def)
  have r: "readIndex b < n" using True s by simp
  have "length (buffer_vec b') = size_plus (writeIndex b) n"
    using assms(2) True by (auto simp: makeSpace_def vec_resize_def split: if_splits)
  moreover have "size_plus (writeIndex b) n \<le> writeIndex b + n" by (simp add: size_plus_def)
  ultimately show ?thesis using r le(1) length_contents [OF assms(1)] by linarith
next
  case False
  then have "length (buffer_vec b') = length (buffer_vec b)"
    using assms(2) by (auto simp: makeSpace_def copy_front_def Let_def split: if_splits)
  then show ?thesis by simp
qed

lemma writeToBuffer_memory:
  assumes "buffer_wf b" "writeToBuffer d b = Inr b'"
  shows "length (buffer_vec b') \<le> max (length (buffer_vec b)) (length (contents b') + length d)"
proof -
  obtain b1 where b1: "(if writeableBytes b < length d then makeSpace (length d) b else Inr b) = Inr b1"
    "length (buffer_vec b') = length (buffer_vec b1)"
    using assms(2) by (auto simp: writeToBuffer_def copy_in_def hasWritten_def split: if_splits)
  have "length (buffer_vec b1) \<le> max (length (buffer_vec b)) (length (contents b) + 2 * length d)"
    using b1(1) makeSpace_memory [OF assms(1)] by (auto split: if_splits)
  moreover have "contents b' = contents b @ d" using writeToBuffer_Inr [OF assms] by blast
  ultimately show ?thesis using b1(2) by simp
qed

lemma readFd_memory:
  assumes "buffer_wf b" "readFd (Read_bytes d) b = Inr (n, t, b')"
  shows "buffer_wf b' \<and> length (buffer_vec b') \<le> max (length (buffer_vec b)) (length (contents b') + EXTRABUF)"
proof -
  define x where "x = take (writeableBytes b + EXTRABUF) d"
  let ?k = "writeableBytes b"
  have le: "writeIndex b + ?k = length (buffer_vec b)" using assms(1) by (simp add: writeableBytes_wf buffer_wf_def)
  obtain v where v: "copy_in (writeIndex b) (take ?k x) (buffer_vec b) = Inr v"
    and r: "if length x \<le> ?k then b' = b\<lparr>buffer_vec := v, writeIndex := size_plus (writeIndex b) (length x)\<rparr>
      else writeToBuffer (drop ?k x) (b\<lparr>buffer_vec := v, writeIndex := length v\<rparr>) = Inr b'"
    using assms(2) unfolding readFd_unfold [OF x_def] by (auto split: if_splits)
  have lv: "length v = length (buffer_vec b)" using v le by (auto simp: copy_in_def split: if_splits)
  show ?thesis
  proof (cases "length x \<le> ?k")
    case True
    then show ?thesis using r lv assms(1) le by (auto simp: buffer_wf_def MAX_SIZE_def)
  next
    case False
    let ?b = "b\<lparr>buffer_vec := v, writeIndex := length v\<rparr>"
    have wf: "buffer_wf ?b" using assms(1) lv by (auto simp: buffer_wf_def)
    have w: "writeToBuffer (drop ?k x) ?b = Inr b'" using r False by simp
    have "length (drop ?k x) \<le> EXTRABUF" by (simp add: x_def)
    then show ?thesis using writeToBuffer_memory [OF wf w] writeToBuffer_Inr [OF wf w] lv by auto
  qed
qed

lemma buffer_act_memory:
  assumes "buffer_wf b" "buffer_act op b = Inr b'" "\<forall>d. op = Write_op d \<longrightarrow> length d \<le> L" "EXTRABUF \<le> L"
  shows "buffer_wf b' \<and> length (buffer_vec b') \<le> max (length (buffer_vec b)) (length (contents b') + L)"
proof (cases op)
  case (Write_op d)
  then show ?thesis using writeToBuffer_memory [OF assms(1), of d b'] writeToBuffer_Inr [OF assms(1), of d b'] assms(2,3) by auto
next
  case (Take_op n)
  have "buffer_vec b' = buffer_vec b" using assms(2) Take_op by (auto simp: retrieve_def split: if_splits)
  then show ?thesis using retrieve_Inr [OF assms(1), of n b'] assms(2) Take_op by simp
next
  case (Receive_op d)
  then obtain n t where "readFd (Read_bytes d) b = Inr (n, t, b')" using assms(2) by auto
  from readFd_memory [OF assms(1) this] assms(4) show ?thesis by auto
qed

text \<open>C21.
  The memory of a buffer. Whatever is written, received and taken, in any number of operations,
  the vector never holds more than the largest number of unread bytes on the way plus the
  longest single write (at least the 64 KiB that one \<open>readFd\<close> can add behind the vector): the
  space of bytes that were taken is used again, so the memory does not depend on how much
  traffic a connection has had. (The vector never shrinks.)
\<close>

theorem buffer_memory_bounded:
  assumes "foldR buffer_act ops Buffer_new = Inr b" "\<forall>d. Write_op d \<in> set ops \<longrightarrow> length d \<le> L" "EXTRABUF \<le> L"
  shows "length (buffer_vec b) \<le> peak ops Buffer_new + L"
proof -
  have "length (buffer_vec b) \<le> max (length (buffer_vec b0)) (peak ops b0 + L)"
    if "foldR buffer_act ops b0 = Inr b" "buffer_wf b0" for b0
    using that assms(2)
  proof (induction ops arbitrary: b0)
    case (Cons op ops)
    obtain b1 where b1: "buffer_act op b0 = Inr b1" "foldR buffer_act ops b1 = Inr b" using Cons.prems(1) by auto
    have m: "buffer_wf b1" "length (buffer_vec b1) \<le> max (length (buffer_vec b0)) (length (contents b1) + L)"
      using buffer_act_memory [OF Cons.prems(2) b1(1) _ assms(3)] Cons.prems(3) by auto
    have "length (contents b1) \<le> peak ops b1" by (rule peak_ge)
    moreover have "peak ops b1 \<le> peak (op # ops) b0" using b1(1) by simp
    ultimately show ?case using Cons.IH [OF b1(2) m(1)] m(2) Cons.prems(3) by auto
  qed simp
  from this [OF assms(1)] have "length (buffer_vec b) \<le> max (length (buffer_vec Buffer_new)) (peak ops Buffer_new + L)" by simp
  moreover have "length (buffer_vec Buffer_new) \<le> L" using assms(3) by (simp add: Buffer_new_def kInitialSize_def EXTRABUF_def)
  ultimately show ?thesis by simp
qed

lemma buffer_memory_bounded_witness:
  "\<exists>b. foldR buffer_act [Write_op ''abc'', Take_op 2, Receive_op ''de'', Take_op 3] Buffer_new = Inr b
    \<and> length (buffer_vec b) \<le> 3 + 65536"
proof -
  let ?ops = "[Write_op ''abc'', Take_op 2, Receive_op ''de'', Take_op 3]"
  obtain b where b: "foldR buffer_act ?ops Buffer_new = Inr b" "peak ?ops Buffer_new = 3"
    by (simp add: Buffer_new_def kInitialSize_def writeToBuffer_def writeableBytes_def copy_in_def hasWritten_def retrieve_def
        readableBytes_def readFd_def EXTRABUF_def contents_def Let_def)
  have "\<forall>d. Write_op d \<in> set ?ops \<longrightarrow> length d \<le> 65536" "EXTRABUF \<le> 65536" by (simp_all add: EXTRABUF_def)
  from buffer_memory_bounded [OF b(1) this] b show ?thesis by auto
qed

end
