(* ===== verification/Coder.thy ===== *)
theory Coder
  imports Buffer
begin

text \<open>
  The wire protocol: the package of \<open>src/coder/tinypb_protocol.h\<close> and the coder of
  \<open>src/coder/tinypb_coder.cpp\<close>. \<open>encode\<close> prints packages into an output buffer;
  \<open>decode\<close> scans an input buffer for a start byte whose announced length ends in an end
  byte, parses the fields of that frame one after the other and goes on until no complete
  frame is left. Integers keep the code's widths: the index computations of \<open>decode\<close> mix
  \<open>int\<close> and \<open>size_t\<close>, with the conversions written out.
\<close>

section \<open>Packages\<close>

record tinypb =
  pk_len :: "32 word"
  msg_type :: "8 word"
  msg_id_len :: "32 word"
  msg_id :: string
  method_name_len :: "32 word"
  method_name :: string
  error_code :: "32 word"
  pb_data :: string
  check_sum :: "32 word"
  parse_success :: bool

definition PB_START :: char where "PB_START = CHR 0x02"

definition PB_END :: char where "PB_END = CHR 0x03"

definition TinyPB_new :: tinypb where
  "TinyPB_new = \<lparr>pk_len = 0, msg_type = 0, msg_id_len = 0, msg_id = [], method_name_len = 0,
     method_name = [], error_code = 0, pb_data = [], check_sum = 0, parse_success = False\<rparr>"

section \<open>encode\<close>

text \<open>A package without an identifier gets a fixed one; the caller's package is changed.\<close>

definition default_id :: "tinypb \<Rightarrow> tinypb" where
  "default_id pkg = (if msg_id pkg = [] then pkg\<lparr>msg_id := ''123456789''\<rparr> else pkg)"

definition package_length :: "tinypb \<Rightarrow> nat" where
  "package_length pkg =
     3 + 4 * 5 + length (msg_id pkg) + length (method_name pkg) + length (pb_data pkg)"

definition encode_one :: "tinypb \<Rightarrow> buffer \<Rightarrow> (tinypb \<times> buffer) res" where
  "encode_one pkg b =
    (let pkg = default_id pkg; len = word_of_nat (package_length pkg) in
     bindR (appendInt8 (load8 [PB_START]) b) (\<lambda>b.
     bindR (appendInt32 len b) (\<lambda>b.
     bindR (appendInt8 (msg_type pkg) b) (\<lambda>b.
     bindR (appendInt32 (word_of_nat (length (msg_id pkg))) b) (\<lambda>b.
     bindR (writeToBuffer (msg_id pkg) b) (\<lambda>b.
     bindR (appendInt32 (word_of_nat (length (method_name pkg))) b) (\<lambda>b.
     bindR (writeToBuffer (method_name pkg) b) (\<lambda>b.
     bindR (appendInt32 (error_code pkg) b) (\<lambda>b.
     bindR (writeToBuffer (pb_data pkg) b) (\<lambda>b.
     bindR (appendInt32 (check_sum pkg) b) (\<lambda>b.
     bindR (appendInt8 (load8 [PB_END]) b) (\<lambda>b.
       Inr (pkg, b)))))))))))))"

fun encode :: "tinypb list \<Rightarrow> buffer \<Rightarrow> (tinypb list \<times> buffer) res" where
  "encode [] b = Inr ([], b)"
| "encode (m # ms) b =
     bindR (encode_one m b) (\<lambda>(m, b). bindR (encode ms b) (\<lambda>(ms, b). Inr (m # ms, b)))"

section \<open>decode\<close>

text \<open>Indexing the vector with an \<open>int\<close>: a negative index is far out of bounds.\<close>

definition buf_at :: "char list \<Rightarrow> int \<Rightarrow> char res" where
  "buf_at buf i = (if 0 \<le> i \<and> i < int (length buf) then Inr (buf ! nat i) else Inl Out_of_bounds)"

text \<open>
  What the scan finds at an index: no frame (go on with the next byte), a frame that is not
  complete yet (stop), or a complete one and the index of its last byte.
\<close>

datatype probe = No_frame | Incomplete | Frame int

definition probe_at :: "char list \<Rightarrow> int \<Rightarrow> int \<Rightarrow> probe res" where
  "probe_at buf n start_index =
    bindR (buf_at buf start_index) (\<lambda>c.
      if c = PB_START then
        if size_plus (to_size start_index) 4 < to_size n then
          bindR (copy_out (nat (start_index + 1)) 4 buf) (\<lambda>d.
          let len = sint (bswap32 (load32 d)) in
          bindR (i32_add start_index len) (\<lambda>e.
          bindR (i32_sub e 1) (\<lambda>end_index.
            if end_index \<ge> n then Inr Incomplete
            else bindR (buf_at buf end_index) (\<lambda>c.
              if c = PB_END then Inr (Frame end_index) else Inr No_frame))))
        else Inr Incomplete
      else Inr No_frame)"

text \<open>The scan's result is where it stopped and, if it found one, the end of the frame there.\<close>

function scan :: "char list \<Rightarrow> int \<Rightarrow> int \<Rightarrow> (int \<times> int option) res" where
  "scan buf n start_index =
    (if start_index < n then
       (case probe_at buf n start_index of
          Inl e \<Rightarrow> Inl e
        | Inr No_frame \<Rightarrow> scan buf n (start_index + 1)
        | Inr Incomplete \<Rightarrow> Inr (start_index, None)
        | Inr (Frame end_index) \<Rightarrow> Inr (start_index, Some end_index))
     else Inr (start_index, None))"
  by pat_completeness auto
termination
  by (relation "measure (\<lambda>(buf, n, start_index). nat (n - start_index))") auto

declare scan.simps [simp del]

text \<open>
  The pattern of the parser: a field whose index is not before the end of the frame is left at
  its initial value and the parse is marked as failed, but the following fields are still tried.
\<close>

definition field_before :: "int \<Rightarrow> int \<Rightarrow> (buffer \<Rightarrow> ('a \<times> buffer) res) \<Rightarrow> 'a \<Rightarrow> bool \<Rightarrow> buffer \<Rightarrow>
    ('a \<times> bool \<times> buffer) res" where
  "field_before index end_index rd x0 ok b =
    (if index \<ge> end_index then Inr (x0, False, b)
     else bindR (rd b) (\<lambda>(x, b). Inr (x, ok, b)))"

text \<open>An \<open>int\<close> plus a \<open>sizeof\<close>: computed in \<open>size_t\<close> and converted back.\<close>

definition add_sizeof :: "int \<Rightarrow> nat \<Rightarrow> int" where
  "add_sizeof i k = to_i32 (int (size_plus (to_size i) k))"

definition retrieve_int :: "int \<Rightarrow> buffer \<Rightarrow> (char list \<times> buffer) res" where
  "retrieve_int len b = retrieveAsString (to_size len) b"

definition parse_frame :: "int \<Rightarrow> int \<Rightarrow> buffer \<Rightarrow> (tinypb \<times> buffer) res" where
  "parse_frame start_index end_index b =
    bindR (readInt8 b) (\<lambda>(_, b).
    bindR (readInt32 b) (\<lambda>(plen, b).
    let msg_type_index = add_sizeof start_index 6 in
    bindR (field_before msg_type_index end_index readInt8 0 True b) (\<lambda>(mtype, ok, b).
    let msg_id_len_index = add_sizeof msg_type_index 4 in
    bindR (field_before msg_id_len_index end_index readInt32 0 ok b) (\<lambda>(mlen, ok, b).
    bindR (i32_add msg_id_len_index (sint mlen)) (\<lambda>msg_id_index.
    bindR (field_before msg_id_index end_index (retrieve_int (sint mlen)) [] ok b) (\<lambda>(mid, ok, b).
    let method_name_len_index = add_sizeof msg_id_index 4 in
    bindR (field_before method_name_len_index end_index readInt32 0 ok b) (\<lambda>(nlen, ok, b).
    bindR (i32_add method_name_len_index (sint nlen)) (\<lambda>method_name_index.
    bindR (field_before method_name_index end_index (retrieve_int (sint nlen)) [] ok b) (\<lambda>(name, ok, b).
    let error_code_index = add_sizeof method_name_index 4 in
    bindR (field_before error_code_index end_index readInt32 0 ok b) (\<lambda>(ecode, ok, b).
    bindR (i32_sub (sint plen) (sint mlen)) (\<lambda>d.
    bindR (i32_sub d (sint nlen)) (\<lambda>d.
    let pb_data_len = to_i32 (int (size_minus (size_minus (to_size d) (4 * 5)) 3)) in
    bindR (i32_add error_code_index pb_data_len) (\<lambda>pb_data_index.
    bindR (field_before pb_data_index end_index (retrieve_int pb_data_len) [] ok b) (\<lambda>(pb, ok, b).
    let check_sum_index = add_sizeof pb_data_index 4 in
    bindR (field_before check_sum_index (end_index + 1) readInt32 0 ok b) (\<lambda>(csum, ok, b).
    bindR (if ok then bindR (readInt8 b) (\<lambda>(_, b). Inr b)
           else retrieve (size_plus (size_minus (to_size end_index) (readIndex b)) 1) b) (\<lambda>b.
      Inr (\<lparr>pk_len = plen, msg_type = mtype, msg_id_len = mlen, msg_id = mid,
             method_name_len = nlen, method_name = name, error_code = ecode, pb_data = pb,
             check_sum = csum, parse_success = ok\<rparr>, b)))))))))))))))))"

text \<open>One round of the outer loop: the package it appends to the output, if any.\<close>

definition decode_step :: "buffer \<Rightarrow> (tinypb option \<times> buffer) res" where
  "decode_step b =
    bindR (scan (buffer_vec b) (to_i32 (int (writeIndex b))) (to_i32 (int (readIndex b))))
      (\<lambda>(start_index, found).
    bindR (retrieve (size_minus (to_size start_index) (readIndex b)) b) (\<lambda>b.
      case found of
        None \<Rightarrow> Inr (None, b)
      | Some end_index \<Rightarrow>
          bindR (parse_frame start_index end_index b) (\<lambda>(pkg, b). Inr (Some pkg, b))))"

text \<open>The outer \<open>while (true)\<close>; \<open>None\<close> would be a loop that never ends.\<close>

partial_function (option) decode :: "tinypb list \<Rightarrow> buffer \<Rightarrow> (tinypb list \<times> buffer) res option" where
  "decode out_messages b =
    (case decode_step b of
       Inl e \<Rightarrow> Some (Inl e)
     | Inr (None, b) \<Rightarrow> Some (Inr (out_messages, b))
     | Inr (Some pkg, b) \<Rightarrow> decode (out_messages @ [pkg]) b)"

section \<open>The wire format\<close>

text \<open>
  \<open>frame pkg\<close> is the byte string of a package, \<open>wire pkg\<close> the package as a receiver sees
  it, with its length fields filled in and the parse marked as successful.
\<close>

definition frame_parts :: "tinypb \<Rightarrow> char list list" where
  "frame_parts pkg = [[PB_START], be32 (word_of_nat (package_length pkg)), mem8 (msg_type pkg),
     be32 (word_of_nat (length (msg_id pkg))), msg_id pkg,
     be32 (word_of_nat (length (method_name pkg))), method_name pkg,
     be32 (error_code pkg), pb_data pkg, be32 (check_sum pkg), [PB_END]]"

definition frame :: "tinypb \<Rightarrow> char list" where
  "frame pkg = concat (frame_parts pkg)"

definition wire :: "tinypb \<Rightarrow> tinypb" where
  "wire pkg = pkg\<lparr>pk_len := word_of_nat (package_length pkg),
     msg_id_len := word_of_nat (length (msg_id pkg)),
     method_name_len := word_of_nat (length (method_name pkg)), parse_success := True\<rparr>"

lemma frame_unfold: "frame pkg = PB_START # be32 (word_of_nat (package_length pkg))
     @ mem8 (msg_type pkg) @ be32 (word_of_nat (length (msg_id pkg))) @ msg_id pkg
     @ be32 (word_of_nat (length (method_name pkg))) @ method_name pkg
     @ be32 (error_code pkg) @ pb_data pkg @ be32 (check_sum pkg) @ [PB_END]"
  by (simp add: frame_def frame_parts_def)

lemma length_frame [simp]: "length (frame pkg) = package_length pkg"
  by (simp add: frame_unfold package_length_def)

lemma package_length_ge: "23 \<le> package_length pkg"
  by (simp add: package_length_def)

lemma frame_nonempty [simp]: "frame pkg \<noteq> []"
  by (simp add: frame_unfold)

lemma frame_wire [simp]: "frame (wire pkg) = frame pkg"
  by (simp add: frame_unfold wire_def package_length_def)

lemma mem8_load8_single [simp]: "mem8 (load8 [c]) = [c]"
  by simp

lemma encode_one_puts:
  "encode_one pkg b =
     bindR (foldR writeToBuffer (frame_parts (default_id pkg)) b) (\<lambda>b. Inr (default_id pkg, b))"
  by (simp add: encode_one_def Let_def appendInt32_be appendInt8_def bindR_assoc frame_parts_def)

lemma encode_one_Inr:
  assumes "buffer_wf b" "encode_one pkg b = Inr (pkg', b')"
  shows "pkg' = default_id pkg \<and> buffer_wf b' \<and> contents b' = contents b @ frame pkg'
    \<and> buffer_room b \<le> buffer_room b' + package_length pkg'"
proof -
  from assms(2) have "foldR writeToBuffer (frame_parts (default_id pkg)) b = Inr b'"
    and "pkg' = default_id pkg"
    unfolding encode_one_puts by auto
  with bq.puts_abs [OF assms(1) this(1)] show ?thesis
    by (simp only: frame_def [symmetric] length_frame)
qed

lemma encode_one_ok:
  assumes "buffer_wf b" "package_length (default_id pkg) \<le> buffer_room b"
  shows "\<exists>b'. encode_one pkg b = Inr (default_id pkg, b')"
proof -
  have "\<exists>b'. foldR writeToBuffer (frame_parts (default_id pkg)) b = Inr b'"
    using assms by (intro bq.puts_ok) (simp_all only: frame_def [symmetric] length_frame)
  then show ?thesis unfolding encode_one_puts by auto
qed

lemma encode_Inr:
  "buffer_wf b \<Longrightarrow> encode pkgs b = Inr (pkgs', b') \<Longrightarrow>
   pkgs' = map default_id pkgs \<and> buffer_wf b' \<and> contents b' = contents b @ concat (map frame pkgs')"
proof (induction pkgs arbitrary: b pkgs')
  case (Cons m ms)
  then obtain m' b1 ms' where m: "encode_one m b = Inr (m', b1)" "encode ms b1 = Inr (ms', b')"
    "pkgs' = m' # ms'" by auto
  from encode_one_Inr [OF Cons.prems(1) m(1)] Cons.IH [OF _ m(2)] m(3) show ?case by auto
qed simp

lemma encode_ok:
  "buffer_wf b \<Longrightarrow> sum_list (map (package_length \<circ> default_id) pkgs) \<le> buffer_room b \<Longrightarrow>
   \<exists>b'. encode pkgs b = Inr (map default_id pkgs, b')"
proof (induction pkgs arbitrary: b)
  case (Cons m ms)
  then obtain b1 where b1: "encode_one m b = Inr (default_id m, b1)"
    using encode_one_ok [of b m] by auto
  from encode_one_Inr [OF Cons.prems(1) b1] Cons.prems(2)
  have "buffer_wf b1" "sum_list (map (package_length \<circ> default_id) ms) \<le> buffer_room b1"
    by (auto simp: comp_def)
  with Cons.IH b1 show ?case by fastforce
qed simp

end
