(* ===== verification/CoderParse.thy ===== *)
theory CoderParse
  imports Coder
begin

text \<open>
  Correctness of \<open>TinyPBCoder::decode\<close> (\<open>src/coder/tinypb_coder.cpp\<close>): every round makes
  progress, so the loop ends; what a round accepts is a well-formed frame (soundness); a frame
  in the buffer is accepted and a proper prefix of one is left alone (completeness). The locale
  \<open>stream_decoder\<close> is the contract of an incremental decoder; inside it, delivery is proved
  independent of how the bytes were cut into chunks, and it is interpreted on \<open>decode\<close>.
\<close>

section \<open>What a read takes from the buffer\<close>

text \<open>
  \<open>eats d b b'\<close>: going from \<open>b\<close> to \<open>b'\<close> took exactly the bytes \<open>d\<close> off the front of the
  contents. Every read of the parser is such a step, and steps compose.
\<close>

definition eats :: "char list \<Rightarrow> buffer \<Rightarrow> buffer \<Rightarrow> bool" where
  "eats d b b' \<longleftrightarrow> buffer_wf b' \<and> writeIndex b' \<le> writeIndex b \<and> contents b = d @ contents b'"

lemma eats_refl [simp]: "buffer_wf b \<Longrightarrow> eats [] b b"
  by (simp add: eats_def)

lemma eats_trans [trans]: "eats d a b \<Longrightarrow> eats d' b c \<Longrightarrow> eats (d @ d') a c"
  by (auto simp: eats_def)

lemma eats_wf: "eats d b b' \<Longrightarrow> buffer_wf b'"
  by (simp add: eats_def)

lemma eats_index: "eats d b b' \<Longrightarrow> writeIndex b' \<le> writeIndex b"
  by (simp add: eats_def)

lemma eats_contents: "eats d b b' \<Longrightarrow> contents b = d @ contents b'"
  by (simp add: eats_def)

lemma retrieve_eats:
  "buffer_wf b \<Longrightarrow> retrieve n b = Inr b' \<Longrightarrow>
   n \<le> length (contents b) \<and> eats (take n (contents b)) b b'"
  unfolding eats_def using retrieve_Inr [of b n b'] retrieve_writeIndex [of b n b'] by simp

lemma retrieveAsString_eats:
  assumes "buffer_wf b" "retrieveAsString n b = Inr (d, b')"
  shows "length d = n \<and> eats d b b'"
proof -
  from assms(2) have "retrieve n b = Inr b'"
    by (auto simp: retrieveAsString_def split: if_splits)
  from retrieve_eats [OF assms(1) this] retrieveAsString_Inr [OF assms] show ?thesis by auto
qed

lemma readInt8_eats: "buffer_wf b \<Longrightarrow> readInt8 b = Inr (x, b') \<Longrightarrow> eats (mem8 x) b b'"
  unfolding readInt8_get by (auto dest!: retrieveAsString_eats [rotated])

lemma readInt32_eats: "buffer_wf b \<Longrightarrow> readInt32 b = Inr (x, b') \<Longrightarrow> eats (be32 x) b b'"
  unfolding readInt32_get by (auto dest!: retrieveAsString_eats [rotated] simp: be32_bswap32_load32)

text \<open>A read of a negative length would ask for almost \<open>2^64\<close> bytes and fails its assertion.\<close>

lemma retrieve_int_eats:
  assumes "buffer_wf b" "retrieve_int n b = Inr (d, b')" "- 2147483648 \<le> n" "n \<le> 2147483647"
  shows "0 \<le> n \<and> int (length d) = n \<and> eats d b b'"
proof -
  from retrieveAsString_eats [OF assms(1)] assms(2)
  have d: "length d = to_size n" "eats d b b'" by (auto simp: retrieve_int_def)
  have "length d \<le> length (contents b)" using eats_contents [OF d(2)] by simp
  also have "\<dots> \<le> MAX_SIZE"
    using assms(1) by (auto simp: length_contents buffer_wf_def)
  finally have "0 \<le> n"
    using d(1) to_size_neg [of n] assms(3) by (cases "n < 0") (auto simp: MAX_SIZE_def)
  with d assms(4) show ?thesis by simp
qed

lemma field_before_cases:
  assumes "field_before i e rd x0 ok b = Inr (x, ok', b')"
  shows "(e \<le> i \<and> x = x0 \<and> \<not> ok' \<and> b' = b) \<or> (i < e \<and> rd b = Inr (x, b') \<and> ok' = ok)"
  using assms by (auto simp: field_before_def split: if_splits)

lemma field_before_eats:
  assumes "field_before i e rd x0 ok b = Inr (x, ok', b')" "buffer_wf b"
    and "rd b = Inr (x, b') \<Longrightarrow> \<exists>d. eats d b b'"
  shows "\<exists>d. eats d b b'"
  using field_before_cases [OF assms(1)] assms(2,3) eats_refl by blast

section \<open>Progress and termination of decode\<close>

lemma parse_frameE:
  assumes "parse_frame s e b = Inr (pkg, b')"
  obtains x plen mtype mlen mid nlen name ecode pb csum midx nidx d1 d2 pidx
      ok1 ok2 ok3 ok4 ok5 ok6 ok7 ok8 b0 b1 b2 b3 b4 b5 b6 b7 b8 b9
  where "readInt8 b = Inr (x, b0)" "readInt32 b0 = Inr (plen, b1)"
    "field_before (add_sizeof s 6) e readInt8 0 True b1 = Inr (mtype, ok1, b2)"
    "field_before (add_sizeof (add_sizeof s 6) 4) e readInt32 0 ok1 b2 = Inr (mlen, ok2, b3)"
    "i32_add (add_sizeof (add_sizeof s 6) 4) (sint mlen) = Inr midx"
    "field_before midx e (retrieve_int (sint mlen)) [] ok2 b3 = Inr (mid, ok3, b4)"
    "field_before (add_sizeof midx 4) e readInt32 0 ok3 b4 = Inr (nlen, ok4, b5)"
    "i32_add (add_sizeof midx 4) (sint nlen) = Inr nidx"
    "field_before nidx e (retrieve_int (sint nlen)) [] ok4 b5 = Inr (name, ok5, b6)"
    "field_before (add_sizeof nidx 4) e readInt32 0 ok5 b6 = Inr (ecode, ok6, b7)"
    "i32_sub (sint plen) (sint mlen) = Inr d1" "i32_sub d1 (sint nlen) = Inr d2"
    "i32_add (add_sizeof nidx 4) (to_i32 (int (size_minus (size_minus (to_size d2) (4 * 5)) 3))) = Inr pidx"
    "field_before pidx e (retrieve_int (to_i32 (int (size_minus (size_minus (to_size d2) (4 * 5)) 3)))) [] ok6 b7
       = Inr (pb, ok7, b8)"
    "field_before (add_sizeof pidx 4) (e + 1) readInt32 0 ok7 b8 = Inr (csum, ok8, b9)"
    "(if ok8 then bindR (readInt8 b9) (\<lambda>(_, b). Inr b)
      else retrieve (size_plus (size_minus (to_size e) (readIndex b9)) 1) b9) = Inr b'"
    "pkg = \<lparr>pk_len = plen, msg_type = mtype, msg_id_len = mlen, msg_id = mid,
       method_name_len = nlen, method_name = name, error_code = ecode, pb_data = pb,
       check_sum = csum, parse_success = ok8\<rparr>"
  using assms unfolding parse_frame_def Let_def
  by (simp only: bindR_Inr_iff split_paired_Ex prod.case sum.inject prod.inject)
    (elim exE conjE, hypsubst, rule that; (assumption | rule refl))

lemma readInt8_some: "buffer_wf b \<Longrightarrow> readInt8 b = Inr (x, b') \<Longrightarrow> \<exists>d. eats d b b'"
  using readInt8_eats by blast

lemma readInt32_some: "buffer_wf b \<Longrightarrow> readInt32 b = Inr (x, b') \<Longrightarrow> \<exists>d. eats d b b'"
  using readInt32_eats by blast

lemma retrieve_int_some: "buffer_wf b \<Longrightarrow> retrieve_int n b = Inr (d, b') \<Longrightarrow> \<exists>d. eats d b b'"
  unfolding retrieve_int_def using retrieveAsString_eats by blast

lemma eats_Ex_trans: "\<exists>d. eats d a b \<Longrightarrow> \<exists>d. eats d b c \<Longrightarrow> \<exists>d. eats d a c"
  using eats_trans by blast

lemma parse_frame_progress:
  assumes "buffer_wf b" "parse_frame s e b = Inr (pkg, b')"
  shows "\<exists>d. d \<noteq> [] \<and> eats d b b'"
  using assms(2)
proof (cases rule: parse_frameE)
  case (1 x plen mtype mlen mid nlen name ecode pb csum midx nidx d1 d2 pidx
      ok1 ok2 ok3 ok4 ok5 ok6 ok7 ok8 b0 b1 b2 b3 b4 b5 b6 b7 b8 b9)
  note wf = eats_wf
  have e0: "eats (mem8 x) b b0" using assms(1) 1(1) by (rule readInt8_eats)
  have e1: "\<exists>d. eats d b0 b1" using 1(2) readInt32_some eats_wf e0 by blast
  have e2: "\<exists>d. eats d b1 b2" using field_before_eats [OF 1(3)] readInt8_some e1 eats_wf by blast
  have e3: "\<exists>d. eats d b2 b3" using field_before_eats [OF 1(4)] readInt32_some e2 eats_wf by blast
  have e4: "\<exists>d. eats d b3 b4" using field_before_eats [OF 1(6)] retrieve_int_some e3 eats_wf by blast
  have e5: "\<exists>d. eats d b4 b5" using field_before_eats [OF 1(7)] readInt32_some e4 eats_wf by blast
  have e6: "\<exists>d. eats d b5 b6" using field_before_eats [OF 1(9)] retrieve_int_some e5 eats_wf by blast
  have e7: "\<exists>d. eats d b6 b7" using field_before_eats [OF 1(10)] readInt32_some e6 eats_wf by blast
  have e8: "\<exists>d. eats d b7 b8" using field_before_eats [OF 1(14)] retrieve_int_some e7 eats_wf by blast
  have e9: "\<exists>d. eats d b8 b9" using field_before_eats [OF 1(15)] readInt32_some e8 eats_wf by blast
  have "\<exists>d. eats d b9 b'"
    using 1(16) e9 eats_wf readInt8_some retrieve_eats by (auto split: if_splits) blast+
  with e1 e2 e3 e4 e5 e6 e7 e8 e9 obtain d where "eats d b0 b'"
    using eats_Ex_trans by metis
  with e0 have "eats (mem8 x @ d) b b'" by (rule eats_trans)
  moreover have "mem8 x @ d \<noteq> []" by (metis append_is_Nil_conv length_mem(3) list.size(3) zero_neq_one)
  ultimately show ?thesis by blast
qed

lemma decode_step_progress:
  assumes "buffer_wf b" "decode_step b = Inr (found, b')"
  shows "buffer_wf b' \<and> writeIndex b' \<le> writeIndex b \<and>
    (found \<noteq> None \<longrightarrow> length (contents b') < length (contents b))"
proof -
  from assms(2) obtain st fnd b1 where b1: "retrieve (size_minus (to_size st) (readIndex b)) b = Inr b1"
    and f: "(case fnd of None \<Rightarrow> Inr (None, b1)
      | Some end_index \<Rightarrow> bindR (parse_frame st end_index b1) (\<lambda>(pkg, b). Inr (Some pkg, b))) = Inr (found, b')"
    by (auto simp: decode_step_def)
  from retrieve_eats [OF assms(1) b1] obtain d where d: "eats d b b1" by blast
  show ?thesis
  proof (cases fnd)
    case None
    with f d show ?thesis by (auto simp: eats_def)
  next
    case (Some e)
    with f obtain pkg where "parse_frame st e b1 = Inr (pkg, b')" by auto
    with parse_frame_progress [OF eats_wf [OF d]] obtain d' where "d' \<noteq> []" "eats d' b1 b'" by blast
    with d show ?thesis by (auto simp: eats_def)
  qed
qed

text \<open>
  Loop invariant reasoning for \<open>decode\<close>: each round that found a package leaves fewer bytes,
  so the loop ends, and whatever relation the rounds build up holds of the result.
\<close>

lemma decode_returns:
  "buffer_wf b \<Longrightarrow> \<exists>r. decode out b = Some r"
proof (induction "length (contents b)" arbitrary: b out rule: less_induct)
  case less
  show ?case
  proof (cases "decode_step b")
    case (Inl e)
    then show ?thesis by (simp add: decode.simps [of out b])
  next
    case (Inr fb)
    then obtain found b' where fb: "decode_step b = Inr (found, b')" by (cases fb) auto
    from decode_step_progress [OF less.prems fb] less.hyps fb show ?thesis
      by (cases found) (auto simp: decode.simps [of out b])
  qed
qed

lemma decode_induct [consumes 2, case_names stop round]:
  assumes "buffer_wf b" "decode out b = Some (Inr (msgs, b'))"
    and stop: "\<And>out b b'. buffer_wf b \<Longrightarrow> decode_step b = Inr (None, b') \<Longrightarrow> P out b out b'"
    and round: "\<And>out b pkg b1 msgs b'. buffer_wf b \<Longrightarrow> decode_step b = Inr (Some pkg, b1) \<Longrightarrow>
      buffer_wf b1 \<Longrightarrow> writeIndex b1 \<le> writeIndex b \<Longrightarrow> P (out @ [pkg]) b1 msgs b' \<Longrightarrow> P out b msgs b'"
  shows "P out b msgs b'"
  using assms(1,2)
proof (induction "length (contents b)" arbitrary: b out rule: less_induct)
  case less
  from less.prems(2) obtain found b1 where fb: "decode_step b = Inr (found, b1)"
    by (cases "decode_step b") (auto simp: decode.simps [of out b])
  note prog = decode_step_progress [OF less.prems(1) fb]
  show ?case
  proof (cases found)
    case None
    with fb less.prems stop show ?thesis by (auto simp: decode.simps [of out b])
  next
    case (Some pkg)
    with fb less.prems have "decode (out @ [pkg]) b1 = Some (Inr (msgs, b'))"
      by (simp add: decode.simps [of out b])
    with less.hyps prog Some have "P (out @ [pkg]) b1 msgs b'" by simp
    with round [OF less.prems(1)] fb Some prog show ?thesis by simp
  qed
qed

section \<open>Soundness: what the decoder accepts is a frame\<close>

definition DECODE_MAX :: nat where "DECODE_MAX = 2147483583"

lemma be32_inj: "be32 x = be32 y \<Longrightarrow> x = y"
  by (metis bswap32_load32_be32)

lemma to_i32_mod: "\<exists>k. to_i32 x = x + 4294967296 * k"
  unfolding to_i32_def
  by (rule exI [of _ "- ((x + 2147483648) div 4294967296)"])
    (simp add: minus_mult_div_eq_mod [symmetric])

lemma add_sizeof_mod:
  assumes "- 2147483648 \<le> i" "i \<le> 2147483647" "k \<le> 16"
  shows "\<exists>m. add_sizeof i k = i + int k + 4294967296 * m"
proof -
  have "\<exists>j. int (size_plus (to_size i) k) = i + int k + 4294967296 * j"
  proof (cases "i < 0")
    case True
    have t: "to_size i = nat (18446744073709551616 + i)"
      using True assms by (intro to_size_neg) auto
    show ?thesis
    proof (cases "i + int k < 0")
      case True
      then show ?thesis using assms
        by (intro exI [of _ 4294967296]) (simp add: t size_plus_def nat_add_distrib [symmetric])
    next
      case False
      have "to_size i + k = 18446744073709551616 + nat (i + int k)"
        using False True assms by (simp add: t)
      then have "size_plus (to_size i) k = nat (i + int k)"
        using assms by (simp add: size_plus_def)
      then show ?thesis using False by (intro exI [of _ 0]) simp
    qed
  next
    case False
    then show ?thesis using assms by (intro exI [of _ 0]) simp
  qed
  then obtain j where "int (size_plus (to_size i) k) = i + int k + 4294967296 * j" by blast
  moreover obtain m where "add_sizeof i k = int (size_plus (to_size i) k) + 4294967296 * m"
    unfolding add_sizeof_def using to_i32_mod by blast
  ultimately show ?thesis by (intro exI [of _ "j + m"]) simp
qed

lemma add_sizeof_id [simp]:
  "0 \<le> i \<Longrightarrow> i + int k \<le> 2147483647 \<Longrightarrow> add_sizeof i k = i + int k"
  by (simp add: add_sizeof_def)

lemma data_len_mod:
  assumes "- 2147483648 \<le> D" "D \<le> 2147483647"
  shows "\<exists>k. to_i32 (int (size_minus (size_minus (to_size D) (4 * 5)) 3)) = D - 23 + 4294967296 * k"
proof -
  have "\<exists>j. int (size_minus (size_minus (to_size D) (4 * 5)) 3) = D - 23 + 4294967296 * j"
  proof (cases "D < 0")
    case True
    then have t: "to_size D = nat (18446744073709551616 + D)"
      using assms by (intro to_size_neg) auto
    then have "23 \<le> to_size D" using assms by simp
    then have "size_minus (size_minus (to_size D) (4 * 5)) 3 = to_size D - 23"
      by (simp add: size_minus_def)
    then show ?thesis using assms True by (intro exI [of _ 4294967296]) (simp add: t)
  next
    case False
    then show ?thesis using assms
      by (cases "23 \<le> D"; cases "20 \<le> D")
        (auto simp: size_minus_def intro: exI [of _ 0] exI [of _ 4294967296])
  qed
  with to_i32_mod show ?thesis by (metis (no_types, opaque_lifting) add.assoc distrib_left)
qed

lemma wf_contents_le: "buffer_wf b \<Longrightarrow> length (contents b) \<le> writeIndex b"
  by (simp add: length_contents)

lemma word_of_nat_sint: "int n = sint (w :: 32 word) \<Longrightarrow> word_of_nat n = w"
  by (metis of_int_of_nat_eq of_int_sint scast_id)

lemma mem8_single: "\<exists>c. mem8 x = [c]"
  by (metis length_mem(3) length_Suc_conv length_0_conv One_nat_def)

text \<open>
  The arithmetic heart: if the parser gets to the end, the lengths are not negative and leave
  room for the fixed fields, so every index was before the end and no field was skipped.
\<close>

lemma parse_frame_lengths:
  assumes wf: "buffer_wf b3" "buffer_wf b5" "buffer_wf b7"
    and max: "writeIndex b7 \<le> DECODE_MAX"
    and s: "0 \<le> s" "s + 4 \<le> int DECODE_MAX" "0 \<le> e" "e \<le> int DECODE_MAX" "e = s + sint plen - 1"
    and f2: "field_before (s + 10) e readInt32 0 ok1 b2 = Inr (mlen, ok2, b3)"
    and a1: "i32_add (s + 10) (sint mlen) = Inr midx"
    and f3: "field_before midx e (retrieve_int (sint mlen)) [] ok2 b3 = Inr (mid, ok3, b4)"
    and f4: "field_before (add_sizeof midx 4) e readInt32 0 ok3 b4 = Inr (nlen, ok4, b5)"
    and a2: "i32_add (add_sizeof midx 4) (sint nlen) = Inr nidx"
    and f5: "field_before nidx e (retrieve_int (sint nlen)) [] ok4 b5 = Inr (name, ok5, b6)"
    and d: "i32_sub (sint plen) (sint mlen) = Inr d1" "i32_sub d1 (sint nlen) = Inr d2"
    and pl: "pl = to_i32 (int (size_minus (size_minus (to_size d2) (4 * 5)) 3))"
    and a3: "i32_add (add_sizeof nidx 4) pl = Inr pidx"
    and f7: "field_before pidx e (retrieve_int pl) [] ok6 b7 = Inr (pb, ok7, b8)"
  shows "0 \<le> sint mlen \<and> 0 \<le> sint nlen \<and> pidx = e - 4
    \<and> pl = sint plen - sint mlen - sint nlen - 23 \<and> 0 \<le> pl"
proof -
  have mlen: "0 \<le> sint mlen"
    using field_before_cases [OF f2] field_before_cases [OF f3]
      retrieve_int_eats [OF wf(1), of "sint mlen"] sint32_range [of mlen] a1 by force
  have nlen: "0 \<le> sint nlen"
    using field_before_cases [OF f4] field_before_cases [OF f5]
      retrieve_int_eats [OF wf(2), of "sint nlen"] sint32_range [of nlen] a2 by force
  have dd: "d2 = sint plen - sint mlen - sint nlen" "- 2147483648 \<le> d2" "d2 \<le> 2147483647"
    using d by auto
  obtain k1 where k1: "pl = d2 - 23 + 4294967296 * k1"
    using data_len_mod [OF dd(2,3)] pl by blast
  have plr: "- 2147483648 \<le> pl" "pl \<le> 2147483647"
    using to_i32_range pl by (auto simp: INT_MIN_def INT_MAX_def)
  have midx: "midx = s + 10 + sint mlen" "- 2147483648 \<le> midx" "midx \<le> 2147483647"
    using a1 by auto
  obtain k2 where k2: "add_sizeof midx 4 = midx + 4 + 4294967296 * k2"
    using add_sizeof_mod [OF midx(2,3), of 4] by auto
  have nidx: "nidx = add_sizeof midx 4 + sint nlen" "- 2147483648 \<le> nidx" "nidx \<le> 2147483647"
    using a2 by auto
  obtain k3 where k3: "add_sizeof nidx 4 = nidx + 4 + 4294967296 * k3"
    using add_sizeof_mod [OF nidx(2,3), of 4] by auto
  have pidx: "pidx = add_sizeof nidx 4 + pl" "- 2147483648 \<le> pidx" "pidx \<le> 2147483647"
    using a3 by auto
  have sum: "pidx = e - 4 + 4294967296 * (k1 + k2 + k3)"
    using pidx(1) k1 k2 k3 nidx(1) midx(1) dd(1) s(5) by (simp add: algebra_simps)
  have "k1 + k2 + k3 = 0"
  proof -
    define K where "K = k1 + k2 + k3"
    have "pidx = e - 4 + 4294967296 * K" using sum by (simp add: K_def)
    then have "K < 1" "- 1 < K" using pidx(2,3) s(3,4) by (simp_all add: DECODE_MAX_def)
    then show ?thesis by (simp add: K_def)
  qed
  with sum have p: "pidx = e - 4" by simp
  with field_before_cases [OF f7] have "retrieve_int pl b7 = Inr (pb, b8)" by auto
  from retrieve_int_eats [OF wf(3) this plr] have "0 \<le> pl" "int (length pb) = pl" "eats pb b7 b8"
    by auto
  with eats_contents [of pb b7 b8] wf_contents_le [OF wf(3)] max
  have pl: "0 \<le> pl" "pl \<le> 2147483583" by (auto simp: DECODE_MAX_def)
  then have "k1 = 0" using k1 dd by linarith
  with k1 dd mlen nlen p pl show ?thesis by simp
qed

text \<open>What the reads of the fields behind the length take from the buffer.\<close>

lemma fields_read:
  assumes "buffer_wf b1" "readInt8 b1 = Inr (mtype, b2)" "readInt32 b2 = Inr (mlen, b3)"
    "retrieve_int (sint mlen) b3 = Inr (mid, b4)" "readInt32 b4 = Inr (nlen, b5)"
    "retrieve_int (sint nlen) b5 = Inr (name, b6)" "readInt32 b6 = Inr (ecode, b7)"
    "retrieve_int pl b7 = Inr (pb, b8)" "- 2147483648 \<le> pl" "pl \<le> 2147483647" "readInt32 b8 = Inr (csum, b9)"
  shows "eats (mem8 mtype @ be32 mlen @ mid @ be32 nlen @ name @ be32 ecode @ pb @ be32 csum) b1 b9
    \<and> int (length mid) = sint mlen \<and> int (length name) = sint nlen \<and> int (length pb) = pl"
proof -
  have h2: "eats (mem8 mtype) b1 b2" using assms(1,2) by (rule readInt8_eats)
  have h3: "eats (be32 mlen) b2 b3" using eats_wf [OF h2] assms(3) by (rule readInt32_eats)
  have h4: "eats mid b3 b4" "int (length mid) = sint mlen"
    using retrieve_int_eats [OF eats_wf [OF h3] assms(4)] sint32_range [of mlen] by auto
  have h5: "eats (be32 nlen) b4 b5" using eats_wf [OF h4(1)] assms(5) by (rule readInt32_eats)
  have h6: "eats name b5 b6" "int (length name) = sint nlen"
    using retrieve_int_eats [OF eats_wf [OF h5] assms(6)] sint32_range [of nlen] by auto
  have h7: "eats (be32 ecode) b6 b7" using eats_wf [OF h6(1)] assms(7) by (rule readInt32_eats)
  have h8: "eats pb b7 b8" "int (length pb) = pl" using retrieve_int_eats [OF eats_wf [OF h7] assms(8-10)] by auto
  have h9: "eats (be32 csum) b8 b9" using eats_wf [OF h8(1)] assms(11) by (rule readInt32_eats)
  note h2 also note h3 also note h4(1) also note h5 also note h6(1) also note h7 also note h8(1) also note h9
  finally show ?thesis using h4(2) h6(2) h8(2) by simp
qed

text \<open>A parse that ends successfully has read every field: no index had reached the end.\<close>

lemma parse_frame_reads:
  assumes wf: "buffer_wf b" and max: "writeIndex b \<le> DECODE_MAX"
    and s: "0 \<le> s" "s + 4 < int (writeIndex b)"
    and e: "0 \<le> e" "e < int (writeIndex b)" "e = s + sint len - 1"
    and hd: "contents b = PB_START # be32 len @ rest"
    and p: "parse_frame s e b = Inr (pkg, b')"
  obtains mtype mlen mid nlen name ecode pb csum y b1 b2 b3 b4 b5 b6 b7 b8 b9 where
    "eats (PB_START # be32 len) b b1"
    "readInt8 b1 = Inr (mtype, b2)" "readInt32 b2 = Inr (mlen, b3)" "retrieve_int (sint mlen) b3 = Inr (mid, b4)"
    "readInt32 b4 = Inr (nlen, b5)" "retrieve_int (sint nlen) b5 = Inr (name, b6)" "readInt32 b6 = Inr (ecode, b7)"
    "retrieve_int (sint len - sint mlen - sint nlen - 23) b7 = Inr (pb, b8)"
    "- 2147483648 \<le> sint len - sint mlen - sint nlen - 23" "sint len - sint mlen - sint nlen - 23 \<le> 2147483647"
    "readInt32 b8 = Inr (csum, b9)" "readInt8 b9 = Inr (y, b')"
    "pkg = \<lparr>pk_len = len, msg_type = mtype, msg_id_len = mlen, msg_id = mid, method_name_len = nlen, method_name = name,
       error_code = ecode, pb_data = pb, check_sum = csum, parse_success = True\<rparr>"
  using p
proof (cases rule: parse_frameE)
  case (1 x plen mtype mlen mid nlen name ecode pb csum midx nidx d1 d2 pidx
      ok1 ok2 ok3 ok4 ok5 ok6 ok7 ok8 b0 b1 b2 b3 b4 b5 b6 b7 b8 b9)
  have e0: "eats (mem8 x) b b0" using wf 1(1) by (rule readInt8_eats)
  have e1: "eats (be32 plen) b0 b1" using eats_wf [OF e0] 1(2) by (rule readInt32_eats)
  obtain x' where x': "mem8 x = [x']" using mem8_single by blast
  have "be32 plen = be32 len" "x' = PB_START"
    using eats_contents [OF e0] eats_contents [OF e1] hd x'
    by (auto simp: append_eq_append_conv)
  then have plen: "plen = len" and x: "mem8 x = [PB_START]" using be32_inj x' by auto
  have e2: "\<exists>d. eats d b1 b2" using field_before_eats [OF 1(3)] readInt8_some e1 eats_wf by blast
  have e3: "\<exists>d. eats d b2 b3" using field_before_eats [OF 1(4)] readInt32_some e2 eats_wf by blast
  have e4: "\<exists>d. eats d b3 b4" using field_before_eats [OF 1(6)] retrieve_int_some e3 eats_wf by blast
  have e5: "\<exists>d. eats d b4 b5" using field_before_eats [OF 1(7)] readInt32_some e4 eats_wf by blast
  have e6: "\<exists>d. eats d b5 b6" using field_before_eats [OF 1(9)] retrieve_int_some e5 eats_wf by blast
  have e7: "\<exists>d. eats d b6 b7" using field_before_eats [OF 1(10)] readInt32_some e6 eats_wf by blast
  have wf3: "buffer_wf b3" and wf5: "buffer_wf b5" and wf7: "buffer_wf b7" and wf1: "buffer_wf b1"
    using e1 e3 e5 e7 eats_wf by blast+
  have "\<exists>d. eats d b b7" using e0 e1 e2 e3 e4 e5 e6 e7 eats_Ex_trans by metis
  then have max7: "writeIndex b7 \<le> DECODE_MAX" using max eats_index le_trans by blast
  have i: "add_sizeof s 6 = s + 6" "add_sizeof (s + 6) 4 = s + 10"
    using s max by (simp_all add: DECODE_MAX_def)
  note f = 1(3-10) [unfolded i]
  have sb: "s + 4 \<le> int DECODE_MAX" "e \<le> int DECODE_MAX" using s e max by linarith+
  have L: "0 \<le> sint mlen \<and> 0 \<le> sint nlen \<and> pidx = e - 4
      \<and> to_i32 (int (size_minus (size_minus (to_size d2) (4 * 5)) 3)) = sint plen - sint mlen - sint nlen - 23
      \<and> 0 \<le> to_i32 (int (size_minus (size_minus (to_size d2) (4 * 5)) 3))"
    using parse_frame_lengths [OF wf3 wf5 wf7 max7 s(1) sb(1) e(1) sb(2) e(3) [folded plen] f(2,3,4,5,6,7)
        1(11,12) refl 1(13,14)] by blast
  define pl where "pl = sint plen - sint mlen - sint nlen - 23"
  with L have L': "0 \<le> sint mlen" "0 \<le> sint nlen" "pidx = e - 4" "0 \<le> pl"
      "to_i32 (int (size_minus (size_minus (to_size d2) (4 * 5)) 3)) = pl" by auto
  have eb: "e \<le> 2147483583" using sb(2) by (simp add: DECODE_MAX_def)
  \<comment> \<open>so no index reached the end, and every field was read\<close>
  have midx: "midx = s + 10 + sint mlen" using f(3) by auto
  have i4: "add_sizeof midx 4 = midx + 4"
    using midx L'(1,2,4) s(1) e(3) eb by (simp add: pl_def plen)
  have nidx: "nidx = midx + 4 + sint nlen" using f(6) i4 by auto
  have i6: "add_sizeof nidx 4 = nidx + 4"
    using midx nidx L'(1,2,4) s(1) e(3) eb by (simp add: pl_def plen)
  have i8: "add_sizeof pidx 4 = e"
    using L' s(1) e(3) eb by (simp add: pl_def plen)
  have lt: "s + 6 < e" "s + 10 < e" "midx < e" "midx + 4 < e" "nidx < e" "nidx + 4 < e" "pidx < e"
    using midx nidx L' s(1) e(3) by (simp_all add: pl_def plen)
  have g1: "readInt8 b1 = Inr (mtype, b2)" "ok1" using field_before_cases [OF f(1)] lt by auto
  have g2: "readInt32 b2 = Inr (mlen, b3)" "ok2" using field_before_cases [OF f(2)] lt g1 by auto
  have g3: "retrieve_int (sint mlen) b3 = Inr (mid, b4)" "ok3"
    using field_before_cases [OF f(4)] lt g2 by auto
  have g4: "readInt32 b4 = Inr (nlen, b5)" "ok4" using field_before_cases [OF f(5)] lt g3 i4 by auto
  have g5: "retrieve_int (sint nlen) b5 = Inr (name, b6)" "ok5"
    using field_before_cases [OF f(7)] lt g4 by auto
  have g6: "readInt32 b6 = Inr (ecode, b7)" "ok6" using field_before_cases [OF f(8)] lt g5 i6 by auto
  have g7: "retrieve_int pl b7 = Inr (pb, b8)" "ok7"
    using field_before_cases [OF 1(14)] lt g6 L' by auto
  have g8: "readInt32 b8 = Inr (csum, b9)" "ok8"
    using field_before_cases [OF 1(15)] i8 g7 by auto
  have plr: "- 2147483648 \<le> pl" "pl \<le> 2147483647"
    using L'(1,2,4) sint32_range [of plen] by (auto simp: pl_def)
  obtain y where y: "readInt8 b9 = Inr (y, b')" using 1(16) g8(2) by auto
  have h: "eats (PB_START # be32 len) b b1" using eats_trans [OF e0 e1] x plen by simp
  have "pkg = \<lparr>pk_len = len, msg_type = mtype, msg_id_len = mlen, msg_id = mid, method_name_len = nlen, method_name = name,
       error_code = ecode, pb_data = pb, check_sum = csum, parse_success = True\<rparr>" using 1(17) plen g8(2) by simp
  then show thesis
    by (rule that [OF h g1(1) g2(1) g3(1) g4(1) g5(1) g6(1) g7(1) [unfolded pl_def plen] plr [unfolded pl_def plen] g8(1) y])
qed

lemma parse_frame_sound:
  assumes wf: "buffer_wf b" and max: "writeIndex b \<le> DECODE_MAX"
    and s: "0 \<le> s" "s + 4 < int (writeIndex b)"
    and e: "0 \<le> e" "e < int (writeIndex b)" "e = s + sint len - 1"
    and hd: "contents b = PB_START # be32 len @ rest"
    and last: "s \<le> e \<Longrightarrow> contents b ! nat (e - s) = PB_END"
    and p: "parse_frame s e b = Inr (pkg, b')"
  shows "contents b = frame pkg @ contents b' \<and> wire pkg = pkg \<and> pk_len pkg = len"
  using parse_frame_reads [OF wf max s e hd p]
proof cases
  case (1 mtype mlen mid nlen name ecode pb csum y b1 b2 b3 b4 b5 b6 b7 b8 b9)
  note h = fields_read [OF eats_wf [OF 1(1)] 1(2-11)]
  then have l: "int (length mid) = sint mlen" "int (length name) = sint nlen"
    "int (length pb) = sint len - sint mlen - sint nlen - 23" by simp_all
  have h10: "eats (mem8 y) b9 b'" using eats_wf [OF conjunct1 [OF h]] 1(12) by (rule readInt8_eats)
  define pre where "pre = [PB_START] @ be32 len @ mem8 mtype @ be32 mlen @ mid @ be32 nlen @ name
      @ be32 ecode @ pb @ be32 csum"
  have c: "contents b = pre @ mem8 y @ contents b'"
    using eats_contents [OF 1(1)] eats_contents [OF conjunct1 [OF h]] eats_contents [OF h10] by (simp add: pre_def)
  have lens: "int (23 + length mid + length name + length pb) = sint len" using l by simp
  have "int (length pre) = e - s" using lens e(3) by (simp add: pre_def)
  then have "length pre = nat (e - s)" "s \<le> e" by auto
  moreover obtain y' where y': "mem8 y = [y']" using mem8_single by blast
  ultimately have "mem8 y = [PB_END]" using last c by (simp add: nth_append)
  moreover have "package_length pkg = 23 + length mid + length name + length pb"
    by (simp add: 1(13) package_length_def)
  ultimately show ?thesis
    using c lens word_of_nat_sint [OF lens] word_of_nat_sint [OF l(1)] word_of_nat_sint [OF l(2)]
    by (simp add: frame_unfold wire_def pre_def 1(13))
qed

subsection \<open>The scan\<close>

lemma scan_result:
  "scan buf n s0 = Inr (s, found) \<Longrightarrow> s0 \<le> s \<and> s \<le> max s0 n \<and>
     (\<forall>e. found = Some e \<longrightarrow> s < n \<and> probe_at buf n s = Inr (Frame e))"
proof (induction buf n s0 rule: scan.induct)
  case (1 buf n s0)
  show ?case
  proof (cases "s0 < n")
    case True
    then show ?thesis
      using 1 by (cases "probe_at buf n s0") (auto simp: scan.simps [of buf n s0] split: probe.splits)
  next
    case False
    with 1 show ?thesis by (simp add: scan.simps [of buf n s0])
  qed
qed

lemma probe_at_Frame:
  assumes "probe_at buf n s = Inr (Frame e)" "0 \<le> s" "s < n" "n \<le> int DECODE_MAX"
    "n \<le> int (length buf)"
  obtains len where "buf ! nat s = PB_START" "s + 4 < n" "be32 len = take 4 (drop (nat s + 1) buf)"
    "e = s + sint len - 1" "e < n" "0 \<le> e" "buf ! nat e = PB_END"
proof -
  from assms(1) have "buf ! nat s = PB_START"
    and lt: "size_plus (to_size s) 4 < to_size n"
    by (auto simp: probe_at_def buf_at_def split: if_splits)
  moreover have "s + 4 < n"
    using lt assms(2-4) by (simp add: DECODE_MAX_def)
  moreover define d where "d = take 4 (drop (nat (s + 1)) buf)"
  have "length d = 4" using assms(2,5) \<open>s + 4 < n\<close> by (simp add: d_def)
  moreover have "nat (s + 1) = nat s + 1" using assms(2) by simp
  ultimately show ?thesis
    using assms(1) that [of "bswap32 (load32 d)"]
    by (auto simp: probe_at_def buf_at_def copy_out_def d_def be32_bswap32_load32 split: if_splits)
qed

lemma contents_nth:
  "buffer_wf b \<Longrightarrow> i < length (contents b) \<Longrightarrow> contents b ! i = buffer_vec b ! (readIndex b + i)"
  by (auto simp: contents_def buffer_wf_def)

lemma contents_take_drop:
  assumes "buffer_wf b" "i + k \<le> length (contents b)"
  shows "take k (drop i (contents b)) = take k (drop (readIndex b + i) (buffer_vec b))"
proof -
  have "i + k \<le> writeIndex b - readIndex b" using assms by (simp add: length_contents)
  then show ?thesis by (simp add: contents_def drop_take min_def add.commute)
qed

lemma decode_step_sound:
  assumes wf: "buffer_wf b" and max: "writeIndex b \<le> DECODE_MAX"
    and step: "decode_step b = Inr (found, b')"
  shows "case found of None \<Rightarrow> (\<exists>gap. contents b = gap @ contents b')
    | Some pkg \<Rightarrow> wire pkg = pkg \<and> (\<exists>gap. contents b = gap @ frame pkg @ contents b')"
proof -
  let ?r = "int (readIndex b)" and ?n = "int (writeIndex b)"
  have ri: "?r \<le> ?n" "?n \<le> 2147483583" "?n \<le> int (length (buffer_vec b))"
    using wf max by (auto simp: buffer_wf_def DECODE_MAX_def)
  then have conv: "to_i32 ?n = ?n" "to_i32 ?r = ?r" by simp_all
  from step obtain st fnd b1 where scan: "scan (buffer_vec b) ?n ?r = Inr (st, fnd)"
    and b1: "retrieve (size_minus (to_size st) (readIndex b)) b = Inr b1"
    and f: "(case fnd of None \<Rightarrow> Inr (None, b1)
      | Some end_index \<Rightarrow> bindR (parse_frame st end_index b1) (\<lambda>(pkg, b). Inr (Some pkg, b))) = Inr (found, b')"
    by (auto simp: decode_step_def conv)
  note eat1 = retrieve_eats [OF wf b1]
  then obtain gap where gap: "contents b = gap @ contents b1" using eats_contents by blast
  show ?thesis
  proof (cases fnd)
    case None
    with f gap show ?thesis by auto
  next
    case (Some e)
    with scan_result [OF scan] have st: "?r \<le> st" "st < ?n"
      and pr: "probe_at (buffer_vec b) ?n st = Inr (Frame e)" by auto
    have st0: "0 \<le> st" using st by linarith
    have nmax: "?n \<le> int DECODE_MAX" using max by simp
    obtain len where len: "buffer_vec b ! nat st = PB_START" "st + 4 < ?n"
      "be32 len = take 4 (drop (nat st + 1) (buffer_vec b))" "e = st + sint len - 1" "e < ?n"
      "0 \<le> e" "buffer_vec b ! nat e = PB_END"
      using probe_at_Frame [OF pr st0 st(2) nmax ri(3)] by blast
    define k where "k = nat (st - ?r)"
    have k: "size_minus (to_size st) (readIndex b) = k" "nat st = readIndex b + k"
      using st ri st0 by (auto simp: k_def nat_diff_distrib)
    have lc: "length (contents b) = writeIndex b - readIndex b" using wf by (rule length_contents)
    have kl: "k + 5 \<le> length (contents b)" using len(2) st k(2) lc st0 by linarith
    have "b1 = b\<lparr>readIndex := readIndex b + k\<rparr>"
      using b1 kl unfolding k(1) retrieve_wf [OF wf] by auto
    then have w1: "writeIndex b1 = writeIndex b" by simp
    have c1: "contents b1 = drop k (contents b)"
      using b1 retrieve_Inr [OF wf, of k b1] unfolding k(1) by simp
    have hd: "contents b1 = PB_START # be32 len @ drop 5 (contents b1)"
    proof -
      have "contents b1 ! 0 = PB_START" "take 4 (drop 1 (contents b1)) = be32 len"
        using kl len(1,3) k(2) contents_nth [OF wf, of k] contents_take_drop [OF wf, of "Suc k" 4]
        by (simp_all add: c1)
      moreover have "contents b1 = contents b1 ! 0 # take 4 (drop 1 (contents b1)) @ drop 5 (contents b1)"
        using kl by (simp add: c1 Cons_nth_drop_Suc [symmetric])
      ultimately show ?thesis by metis
    qed
    have last: "contents b1 ! nat (e - st) = PB_END" if "st \<le> e"
    proof -
      have "k + nat (e - st) < length (contents b)"
        using that len(5) k(2) lc st0 st by linarith
      moreover have "readIndex b + (k + nat (e - st)) = nat e" using that k(2) st0 by linarith
      ultimately show ?thesis using contents_nth [OF wf] len(7) by (simp add: c1)
    qed
    from Some f obtain pkg where pkg: "parse_frame st e b1 = Inr (pkg, b')" "found = Some pkg" by auto
    have "contents b1 = frame pkg @ contents b' \<and> wire pkg = pkg \<and> pk_len pkg = len"
      using parse_frame_sound [OF _ _ st0 _ len(6) _ len(4) hd last pkg(1)] eats_wf eat1 max len(2,5) w1
      by auto
    with pkg(2) gap show ?thesis by auto
  qed
qed


section \<open>Completeness: every frame is accepted\<close>

lemma retrieveAsString_forward:
  assumes "buffer_wf b" "contents b = d @ rest"
  shows "\<exists>b'. retrieveAsString (length d) b = Inr (d, b') \<and> eats d b b'"
proof -
  from retrieveAsString_ok [OF assms(1), of "length d"] assms(2)
  obtain b' where "retrieveAsString (length d) b = Inr (d, b')" by auto
  with retrieveAsString_eats [OF assms(1) this] show ?thesis by blast
qed

lemma readInt32_forward:
  assumes "buffer_wf b" "contents b = be32 x @ rest"
  shows "\<exists>b'. readInt32 b = Inr (x, b') \<and> eats (be32 x) b b'"
  using retrieveAsString_forward [OF assms] by (auto simp: readInt32_get)

lemma readInt8_forward:
  assumes "buffer_wf b" "contents b = mem8 x @ rest"
  shows "\<exists>b'. readInt8 b = Inr (x, b') \<and> eats (mem8 x) b b'"
  using retrieveAsString_forward [OF assms] by (auto simp: readInt8_get)

lemma retrieve_int_forward:
  assumes "buffer_wf b" "contents b = d @ rest" "n = int (length d)" "length d \<le> DECODE_MAX"
  shows "\<exists>b'. retrieve_int n b = Inr (d, b') \<and> eats d b b'"
  using retrieveAsString_forward [OF assms(1,2)] assms(3,4)
  by (simp add: retrieve_int_def DECODE_MAX_def)

lemma eats_rest: "eats d b b' \<Longrightarrow> contents b = d @ rest \<Longrightarrow> contents b' = rest"
  by (simp add: eats_def)

lemma sint_word_of_nat32: "n \<le> 2147483647 \<Longrightarrow> sint (word_of_nat n :: 32 word) = int n"
  by (simp add: signed_of_nat signed_take_bit_int_eq_self)

text \<open>The reads of a frame, field by field.\<close>

lemma frame_reads:
  assumes wf: "buffer_wf b" and c: "contents b = frame pkg @ rest" and max: "package_length pkg \<le> DECODE_MAX + 1"
  obtains b0 b1 b2 b3 b4 b5 b6 b7 b8 b9 b' where
    "readInt8 b = Inr (load8 [PB_START], b0)" "readInt32 b0 = Inr (word_of_nat (package_length pkg), b1)"
    "readInt8 b1 = Inr (msg_type pkg, b2)" "readInt32 b2 = Inr (word_of_nat (length (msg_id pkg)), b3)"
    "retrieve_int (int (length (msg_id pkg))) b3 = Inr (msg_id pkg, b4)"
    "readInt32 b4 = Inr (word_of_nat (length (method_name pkg)), b5)"
    "retrieve_int (int (length (method_name pkg))) b5 = Inr (method_name pkg, b6)"
    "readInt32 b6 = Inr (error_code pkg, b7)" "retrieve_int (int (length (pb_data pkg))) b7 = Inr (pb_data pkg, b8)"
    "readInt32 b8 = Inr (check_sum pkg, b9)" "readInt8 b9 = Inr (load8 [PB_END], b')" "eats (frame pkg) b b'"
proof -
  note small = max [unfolded package_length_def]
  let ?r9 = "be32 (check_sum pkg) @ [PB_END] @ rest"
  let ?r7 = "be32 (error_code pkg) @ pb_data pkg @ ?r9"
  let ?r5 = "be32 (word_of_nat (length (method_name pkg))) @ method_name pkg @ ?r7"
  let ?r3 = "be32 (word_of_nat (length (msg_id pkg))) @ msg_id pkg @ ?r5"
  have c0: "contents b = mem8 (load8 [PB_START]) @ be32 (word_of_nat (package_length pkg)) @ mem8 (msg_type pkg) @ ?r3"
    by (simp add: c frame_unfold)
  obtain b0 where b0: "readInt8 b = Inr (load8 [PB_START], b0)" "eats [PB_START] b b0"
    using readInt8_forward [OF wf c0] by auto
  have c1: "contents b0 = be32 (word_of_nat (package_length pkg)) @ mem8 (msg_type pkg) @ ?r3" using b0(2) c0 by (simp add: eats_def)
  obtain b1 where b1: "readInt32 b0 = Inr (word_of_nat (package_length pkg), b1)" "eats (be32 (word_of_nat (package_length pkg))) b0 b1"
    using readInt32_forward [OF eats_wf [OF b0(2)] c1] by blast
  note c2 = eats_rest [OF b1(2) c1]
  obtain b2 where b2: "readInt8 b1 = Inr (msg_type pkg, b2)" "eats (mem8 (msg_type pkg)) b1 b2"
    using readInt8_forward [OF eats_wf [OF b1(2)] c2] by blast
  note c3 = eats_rest [OF b2(2) c2]
  obtain b3 where b3: "readInt32 b2 = Inr (word_of_nat (length (msg_id pkg)), b3)" "eats (be32 (word_of_nat (length (msg_id pkg)))) b2 b3"
    using readInt32_forward [OF eats_wf [OF b2(2)] c3] by blast
  note c4 = eats_rest [OF b3(2) c3]
  obtain b4 where b4: "retrieve_int (int (length (msg_id pkg))) b3 = Inr (msg_id pkg, b4)" "eats (msg_id pkg) b3 b4"
    using retrieve_int_forward [OF eats_wf [OF b3(2)] c4 refl] small by auto
  note c5 = eats_rest [OF b4(2) c4]
  obtain b5 where b5: "readInt32 b4 = Inr (word_of_nat (length (method_name pkg)), b5)"
      "eats (be32 (word_of_nat (length (method_name pkg)))) b4 b5"
    using readInt32_forward [OF eats_wf [OF b4(2)] c5] by blast
  note c6 = eats_rest [OF b5(2) c5]
  obtain b6 where b6: "retrieve_int (int (length (method_name pkg))) b5 = Inr (method_name pkg, b6)" "eats (method_name pkg) b5 b6"
    using retrieve_int_forward [OF eats_wf [OF b5(2)] c6 refl] small by auto
  note c7 = eats_rest [OF b6(2) c6]
  obtain b7 where b7: "readInt32 b6 = Inr (error_code pkg, b7)" "eats (be32 (error_code pkg)) b6 b7"
    using readInt32_forward [OF eats_wf [OF b6(2)] c7] by blast
  note c8 = eats_rest [OF b7(2) c7]
  obtain b8 where b8: "retrieve_int (int (length (pb_data pkg))) b7 = Inr (pb_data pkg, b8)" "eats (pb_data pkg) b7 b8"
    using retrieve_int_forward [OF eats_wf [OF b7(2)] c8 refl] small by auto
  note c9 = eats_rest [OF b8(2) c8]
  obtain b9 where b9: "readInt32 b8 = Inr (check_sum pkg, b9)" "eats (be32 (check_sum pkg)) b8 b9"
    using readInt32_forward [OF eats_wf [OF b8(2)] c9] by blast
  have c10: "contents b9 = mem8 (load8 [PB_END]) @ rest" using eats_rest [OF b9(2) c9] by simp
  obtain b' where b': "readInt8 b9 = Inr (load8 [PB_END], b')" "eats [PB_END] b9 b'"
    using readInt8_forward [OF eats_wf [OF b9(2)] c10] by auto
  note b0(2) also note b1(2) also note b2(2) also note b3(2) also note b4(2) also note b5(2) also note b6(2) also note b7(2)
    also note b8(2) also note b9(2) also note b'(2)
  finally have "eats (frame pkg) b b'" by (simp add: frame_unfold)
  then show thesis by (rule that [OF b0(1) b1(1) b2(1) b3(1) b4(1) b5(1) b6(1) b7(1) b8(1) b9(1) b'(1)])
qed

text \<open>The positions \<open>decode\<close> computes for fields of lengths \<open>m\<close>, \<open>n\<close> and \<open>d\<close> are those of the fields, and nothing overflows.\<close>

lemma frame_positions:
  fixes m n d :: nat
  assumes "0 \<le> s" "e = s + int (23 + m + n + d) - 1" "e \<le> 2147483583"
  shows "add_sizeof s 6 = s + 6" "add_sizeof (s + 6) 4 = s + 10" "add_sizeof (s + 10 + int m) 4 = s + 14 + int m"
    "add_sizeof (s + 14 + int m + int n) 4 = s + 18 + int m + int n" "add_sizeof (s + 18 + int m + int n + int d) 4 = e"
    "i32_add (s + 10) (int m) = Inr (s + 10 + int m)" "i32_add (s + 14 + int m) (int n) = Inr (s + 14 + int m + int n)"
    "i32_sub (int (23 + m + n + d)) (int m) = Inr (23 + int n + int d)" "i32_sub (23 + int n + int d) (int n) = Inr (23 + int d)"
    "i32_add (s + 18 + int m + int n) (int d) = Inr (s + 18 + int m + int n + int d)"
    "to_i32 (int (size_minus (size_minus (to_size (23 + int d)) 20) 3)) = int d"
    "\<not> e \<le> s + 6" "\<not> e \<le> s + 10" "\<not> e \<le> s + 10 + int m" "\<not> e \<le> s + 14 + int m" "\<not> e \<le> s + 14 + int m + int n"
    "\<not> e \<le> s + 18 + int m + int n" "\<not> e \<le> s + 18 + int m + int n + int d"
    "sint (word_of_nat (23 + m + n + d) :: 32 word) = int (23 + m + n + d)" "sint (word_of_nat m :: 32 word) = int m"
    "sint (word_of_nat n :: 32 word) = int n"
proof -
  show "sint (word_of_nat (23 + m + n + d) :: 32 word) = int (23 + m + n + d)" "sint (word_of_nat m :: 32 word) = int m"
    "sint (word_of_nat n :: 32 word) = int n"
    by (rule sint_word_of_nat32, use assms in linarith)+
  have "to_size (23 + int d) = 23 + d" using assms by (simp add: nat_add_distrib)
  then show "to_i32 (int (size_minus (size_minus (to_size (23 + int d)) 20) 3)) = int d" using assms by simp
qed (use assms in simp_all)

lemma parse_frame_complete:
  assumes wf: "buffer_wf b" and c: "contents b = frame pkg @ rest"
    and s: "0 \<le> s" and e: "e = s + int (package_length pkg) - 1" "e \<le> int DECODE_MAX"
  shows "\<exists>b'. parse_frame s e b = Inr (wire pkg, b') \<and> eats (frame pkg) b b'"
proof -
  have P: "package_length pkg = 23 + length (msg_id pkg) + length (method_name pkg) + length (pb_data pkg)"
    by (simp add: package_length_def)
  have eb: "e = s + int (23 + length (msg_id pkg) + length (method_name pkg) + length (pb_data pkg)) - 1" "e \<le> 2147483583"
    using e P by (simp_all add: DECODE_MAX_def)
  note pos = frame_positions [OF s eb]
  have "package_length pkg \<le> DECODE_MAX + 1" using s e by linarith
  from frame_reads [OF wf c this] obtain b0 b1 b2 b3 b4 b5 b6 b7 b8 b9 b' where r:
    "readInt8 b = Inr (load8 [PB_START], b0)" "readInt32 b0 = Inr (word_of_nat (package_length pkg), b1)"
    "readInt8 b1 = Inr (msg_type pkg, b2)" "readInt32 b2 = Inr (word_of_nat (length (msg_id pkg)), b3)"
    "retrieve_int (int (length (msg_id pkg))) b3 = Inr (msg_id pkg, b4)"
    "readInt32 b4 = Inr (word_of_nat (length (method_name pkg)), b5)"
    "retrieve_int (int (length (method_name pkg))) b5 = Inr (method_name pkg, b6)"
    "readInt32 b6 = Inr (error_code pkg, b7)" "retrieve_int (int (length (pb_data pkg))) b7 = Inr (pb_data pkg, b8)"
    "readInt32 b8 = Inr (check_sum pkg, b9)" "readInt8 b9 = Inr (load8 [PB_END], b')" and eat: "eats (frame pkg) b b'"
    by metis
  have "parse_frame s e b = Inr (wire pkg, b')"
    by (simp add: parse_frame_def Let_def r pos P field_before_def wire_def del: bindR_Inr_iff of_nat_add)
  with eat show ?thesis by blast
qed

section \<open>Rounds of the decoder on frames\<close>

lemma probe_at_start:
  assumes wf: "buffer_wf b" and max: "writeIndex b \<le> DECODE_MAX"
    and c: "contents b = PB_START # be32 len @ X"
    and len: "1 \<le> sint len" "int (readIndex b) + sint len \<le> 2147483647"
  shows "probe_at (buffer_vec b) (int (writeIndex b)) (int (readIndex b)) =
    Inr (if int (length (contents b)) < sint len then Incomplete
         else if contents b ! nat (sint len - 1) = PB_END
         then Frame (int (readIndex b) + sint len - 1) else No_frame)"
proof -
  let ?r = "readIndex b" and ?w = "writeIndex b" and ?buf = "buffer_vec b"
  have lc: "length (contents b) = ?w - ?r" "?r \<le> ?w" "?w \<le> length ?buf" "?w \<le> 2147483583"
    using wf max by (auto simp: length_contents buffer_wf_def DECODE_MAX_def)
  have l5: "5 \<le> length (contents b)" by (simp add: c)
  have at: "buf_at ?buf (int ?r) = Inr PB_START"
    using contents_nth [OF wf, of 0] c lc l5 by (simp add: buf_at_def)
  have cp: "copy_out (nat (int ?r + 1)) 4 ?buf = Inr (be32 len)"
    using contents_take_drop [OF wf, of 1 4] l5 lc c by (simp add: copy_out_def nat_add_distrib)
  have sz: "size_plus (to_size (int ?r)) 4 < to_size (int ?w)"
    using l5 lc by simp
  have ar: "i32_add (int ?r) (sint len) = Inr (int ?r + sint len)"
    "i32_sub (int ?r + sint len) 1 = Inr (int ?r + sint len - 1)"
    using len by simp_all
  show ?thesis
  proof (cases "int (length (contents b)) < sint len")
    case True
    then have "int ?w \<le> int ?r + sint len - 1" using lc by linarith
    with True show ?thesis
      by (simp add: probe_at_def at sz cp ar del: bindR_Inr_iff)
  next
    case False
    then have lt: "\<not> int ?w \<le> int ?r + sint len - 1" using lc by linarith
    define i where "i = nat (sint len - 1)"
    have i: "i < length (contents b)" "int ?r + sint len - 1 = int (?r + i)"
      using False len by (auto simp: i_def)
    have "buf_at ?buf (int (?r + i)) = Inr (contents b ! i)"
      using contents_nth [OF wf i(1)] i(1) lc by (simp add: buf_at_def nat_int_add)
    with False lt show ?thesis
      by (simp add: probe_at_def at sz cp ar i_def [symmetric] i(2) del: bindR_Inr_iff of_nat_add)
  qed
qed

lemma probe_at_short:
  assumes wf: "buffer_wf b" and max: "writeIndex b \<le> DECODE_MAX"
    and c: "contents b = PB_START # X" "length X < 4"
  shows "probe_at (buffer_vec b) (int (writeIndex b)) (int (readIndex b)) = Inr Incomplete"
proof -
  let ?r = "readIndex b" and ?w = "writeIndex b" and ?buf = "buffer_vec b"
  have lc: "length (contents b) = ?w - ?r" "?r \<le> ?w" "?w \<le> length ?buf" "?w \<le> 2147483583"
    using wf max by (auto simp: length_contents buffer_wf_def DECODE_MAX_def)
  have "buf_at ?buf (int ?r) = Inr PB_START"
    using contents_nth [OF wf, of 0] c lc by (simp add: buf_at_def)
  moreover have "\<not> ?r + 4 < ?w"
    using lc(1) c by simp
  ultimately show ?thesis using lc(2,4) by (simp add: probe_at_def)
qed

lemma decode_step_at_start:
  assumes wf: "buffer_wf b" and max: "writeIndex b \<le> DECODE_MAX" and ne: "contents b \<noteq> []"
  shows "probe_at (buffer_vec b) (int (writeIndex b)) (int (readIndex b)) = Inr (Frame e) \<Longrightarrow>
      decode_step b = bindR (parse_frame (int (readIndex b)) e b) (\<lambda>(pkg, b). Inr (Some pkg, b))"
    and "probe_at (buffer_vec b) (int (writeIndex b)) (int (readIndex b)) = Inr Incomplete \<Longrightarrow>
      decode_step b = Inr (None, b)"
proof -
  have lc: "readIndex b < writeIndex b" "writeIndex b \<le> 2147483583"
    using wf max ne by (auto simp: length_contents buffer_wf_def DECODE_MAX_def contents_def)
  then have conv: "to_i32 (int (writeIndex b)) = int (writeIndex b)"
    "to_i32 (int (readIndex b)) = int (readIndex b)" by simp_all
  have r0: "retrieve (size_minus (to_size (int (readIndex b))) (readIndex b)) b = Inr b"
    using lc ne by (simp add: retrieve_wf [OF wf])
  show "probe_at (buffer_vec b) (int (writeIndex b)) (int (readIndex b)) = Inr (Frame e) \<Longrightarrow>
      decode_step b = bindR (parse_frame (int (readIndex b)) e b) (\<lambda>(pkg, b). Inr (Some pkg, b))"
    "probe_at (buffer_vec b) (int (writeIndex b)) (int (readIndex b)) = Inr Incomplete \<Longrightarrow>
      decode_step b = Inr (None, b)"
    using lc(1) by (simp_all add: decode_step_def conv scan.simps [of "buffer_vec b"] r0)
qed

lemma decode_step_frame:
  assumes wf: "buffer_wf b" and max: "writeIndex b \<le> DECODE_MAX"
    and c: "contents b = frame pkg @ rest"
  shows "\<exists>b'. decode_step b = Inr (Some (wire pkg), b') \<and> eats (frame pkg) b b'"
proof -
  let ?P = "package_length pkg"
  have "?P \<le> length (contents b)" by (simp add: c)
  then have P: "readIndex b + ?P \<le> writeIndex b" "writeIndex b \<le> 2147483583"
    using length_contents [OF wf] wf max by (auto simp: buffer_wf_def DECODE_MAX_def)
  then have sP: "sint (word_of_nat ?P :: 32 word) = int ?P" by (intro sint_word_of_nat32) simp
  obtain X where X: "contents b = PB_START # be32 (word_of_nat ?P) @ X"
    by (simp add: c frame_unfold)
  have "List.last (frame pkg) = PB_END" by (simp add: frame_unfold)
  then have "frame pkg ! (?P - 1) = PB_END" by (simp add: last_conv_nth)
  then have endc: "contents b ! nat (int ?P - 1) = PB_END"
    using package_length_ge [of pkg] by (simp add: c nth_append nat_diff_distrib)
  have "probe_at (buffer_vec b) (int (writeIndex b)) (int (readIndex b))
      = Inr (Frame (int (readIndex b) + int ?P - 1))"
    using probe_at_start [OF wf max X] endc P package_length_ge [of pkg] by (simp add: sP c)
  moreover obtain b' where "parse_frame (int (readIndex b)) (int (readIndex b) + int ?P - 1) b
      = Inr (wire pkg, b')" "eats (frame pkg) b b'"
    using parse_frame_complete [OF wf c, of "int (readIndex b)"] P by (auto simp: DECODE_MAX_def)
  ultimately show ?thesis using decode_step_at_start(1) [OF wf max] c by auto
qed

lemma decode_step_empty:
  assumes wf: "buffer_wf b" and max: "writeIndex b \<le> DECODE_MAX" and c: "contents b = []"
  shows "\<exists>b'. decode_step b = Inr (None, b') \<and> eats [] b b'"
proof -
  have e: "readIndex b = writeIndex b" "writeIndex b \<le> 2147483583"
    using length_contents [OF wf] wf max c by (auto simp: buffer_wf_def DECODE_MAX_def)
  obtain b' where "retrieve 0 b = Inr b'" using retrieve_ok [OF wf, of 0] by auto
  with retrieve_eats [OF wf this] e show ?thesis
    by (auto simp: decode_step_def scan.simps [of "buffer_vec b"])
qed

lemma decode_step_partial:
  assumes wf: "buffer_wf b" and max: "writeIndex b \<le> DECODE_MAX"
    and c: "contents b @ d' = frame pkg" "d' \<noteq> []"
    and P: "int (readIndex b) + int (package_length pkg) \<le> 2147483647"
  shows "\<exists>b'. decode_step b = Inr (None, b') \<and> eats [] b b'"
proof (cases "contents b = []")
  case True
  with decode_step_empty [OF wf max] show ?thesis by blast
next
  case ne: False
  have lP: "length (contents b) < package_length pkg"
    using c length_frame [of pkg] by (metis length_append length_greater_0_conv less_add_same_cancel1)
  obtain Y where Y: "frame pkg = PB_START # be32 (word_of_nat (package_length pkg)) @ Y"
    by (simp add: frame_unfold)
  obtain X where X: "contents b = PB_START # X" "X @ d' = be32 (word_of_nat (package_length pkg)) @ Y"
    using ne c(1) Y by (cases "contents b") auto
  have "probe_at (buffer_vec b) (int (writeIndex b)) (int (readIndex b)) = Inr Incomplete"
  proof (cases "length X < 4")
    case True
    with X show ?thesis using probe_at_short [OF wf max] by blast
  next
    case False
    then obtain X' where "X = be32 (word_of_nat (package_length pkg)) @ X'"
      using X(2) by (metis append_eq_append_conv_if append_take_drop_id length_be32 linorder_not_less)
    moreover have "sint (word_of_nat (package_length pkg) :: 32 word) = int (package_length pkg)"
      using P by (intro sint_word_of_nat32) simp
    ultimately show ?thesis
      using probe_at_start [OF wf max, of "word_of_nat (package_length pkg)" X'] X(1) P lP
        package_length_ge [of pkg] by simp
  qed
  with decode_step_at_start(2) [OF wf max ne] wf show ?thesis by auto
qed

section \<open>Streams of frames\<close>

text \<open>
  \<open>stream s ms s'\<close>: the bytes \<open>s\<close> are the frames of \<open>ms\<close>, each possibly behind bytes that
  belong to no frame, and then (behind such bytes) \<open>s'\<close>. It is the abstract parser of the
  protocol: \<open>decode\<close> accepts nothing else.
\<close>

inductive stream :: "char list \<Rightarrow> tinypb list \<Rightarrow> char list \<Rightarrow> bool" where
  stream_end: "stream (gap @ s) [] s"
| stream_frame: "wire m = m \<Longrightarrow> stream s ms s' \<Longrightarrow> stream (gap @ frame m @ s) (m # ms) s'"

inductive_cases stream_ConsE: "stream s (m # ms) s'"

lemma stream_parsed: "stream s ms s' \<Longrightarrow> m \<in> set ms \<Longrightarrow> parse_success m"
proof (induction rule: stream.induct)
  case (stream_frame m' s ms s' gap)
  then show ?case by (metis set_ConsD tinypb.select_convs(10) tinypb.surjective tinypb.update_convs(10) wire_def)
qed simp

lemma decode_stream:
  assumes "buffer_wf b" "decode out b = Some (Inr (msgs, b'))" "writeIndex b \<le> DECODE_MAX"
  shows "\<exists>ms. msgs = out @ ms \<and> stream (contents b) ms (contents b') \<and> buffer_wf b'"
  using assms
proof (induction rule: decode_induct)
  case (stop out b b')
  with decode_step_sound [OF stop(1) stop(3) stop(2)] decode_step_progress [OF stop(1,2)] show ?case
    using stream_end by force
next
  case (round out b pkg b1 msgs b')
  from decode_step_sound [OF round(1) round(6) round(2)]
  obtain gap where "wire pkg = pkg" "contents b = gap @ frame pkg @ contents b1" by auto
  moreover from round obtain ms where "msgs = (out @ [pkg]) @ ms" "stream (contents b1) ms (contents b')"
    "buffer_wf b'" by auto
  ultimately show ?case using stream_frame by force
qed

lemma decode_frames:
  assumes "buffer_wf b" "writeIndex b \<le> DECODE_MAX" "contents b = concat (map frame pkgs) @ p"
    and "p @ q = frame pkg" "q \<noteq> []" "writeIndex b + package_length pkg \<le> 2147483647"
  shows "\<exists>b'. decode out b = Some (Inr (out @ map wire pkgs, b')) \<and> eats (concat (map frame pkgs)) b b'"
  using assms
proof (induction pkgs arbitrary: b out)
  case Nil
  have "readIndex b \<le> writeIndex b" using Nil(1) by (simp add: buffer_wf_def)
  then have "int (readIndex b) + int (package_length pkg) \<le> 2147483647" using Nil(6) by linarith
  with decode_step_partial [OF Nil(1,2)] Nil(3-5)
  obtain b' where "decode_step b = Inr (None, b')" "eats [] b b'" by auto
  then show ?case by (auto simp: decode.simps [of out b])
next
  case (Cons m ms)
  from decode_step_frame [OF Cons.prems(1,2), of m "concat (map frame ms) @ p"] Cons.prems(3)
  obtain b1 where b1: "decode_step b = Inr (Some (wire m), b1)" "eats (frame m) b b1" by auto
  have w1: "writeIndex b1 \<le> writeIndex b" using eats_index [OF b1(2)] .
  have c1: "contents b1 = concat (map frame ms) @ p"
    using eats_rest [OF b1(2)] Cons.prems(3) by simp
  obtain b' where b': "decode (out @ [wire m]) b1 = Some (Inr ((out @ [wire m]) @ map wire ms, b'))"
    "eats (concat (map frame ms)) b1 b'"
    using Cons.IH [OF eats_wf [OF b1(2)] _ c1 Cons.prems(4,5), of "out @ [wire m]"] w1 Cons.prems(2,6)
    by auto
  then show ?case using b1 eats_trans [OF b1(2) b'(2)] by (simp add: decode.simps [of out b])
qed

section \<open>The contract of an incremental decoder\<close>

text \<open>
  A client feeds chunks of bytes as they arrive and decodes after each (\<open>receive\<close>). The locale
  states what it needs of the decoder behind \<open>AbstractCoder\<close>: whole messages are taken in
  order, a proper prefix of one is kept.
\<close>

fun receive :: "(char list \<Rightarrow> 'q \<Rightarrow> 'q res) \<Rightarrow> ('m list \<Rightarrow> 'q \<Rightarrow> ('m list \<times> 'q) res option) \<Rightarrow>
    char list list \<Rightarrow> 'm list \<Rightarrow> 'q \<Rightarrow> ('m list \<times> 'q) res option" where
  "receive put dec [] out q = Some (Inr (out, q))"
| "receive put dec (d # ds) out q =
     (case put d q of
        Inl e \<Rightarrow> Some (Inl e)
      | Inr q \<Rightarrow>
          (case dec out q of
             None \<Rightarrow> None
           | Some (Inl e) \<Rightarrow> Some (Inl e)
           | Some (Inr (out, q)) \<Rightarrow> receive put dec ds out q))"

locale stream_decoder =
  fixes inv :: "'q \<Rightarrow> bool"
    and abs :: "'q \<Rightarrow> char list"
    and pos :: "'q \<Rightarrow> nat"
    and put :: "char list \<Rightarrow> 'q \<Rightarrow> 'q res"
    and dec :: "'m list \<Rightarrow> 'q \<Rightarrow> ('m list \<times> 'q) res option"
    and image :: "'m \<Rightarrow> char list"
    and seen :: "'m \<Rightarrow> 'm"
    and limit :: nat
  assumes image_nonempty: "image m \<noteq> []"
    and put_step: "inv q \<Longrightarrow> pos q + length d \<le> limit \<Longrightarrow>
      \<exists>q'. put d q = Inr q' \<and> inv q' \<and> abs q' = abs q @ d \<and> pos q' \<le> pos q + length d"
    and dec_partial: "inv q \<Longrightarrow> abs q = concat (map image ms) @ p \<Longrightarrow> p @ r = image m \<Longrightarrow> r \<noteq> [] \<Longrightarrow>
      pos q + length (image m) \<le> limit \<Longrightarrow>
      \<exists>q'. dec out q = Some (Inr (out @ map seen ms, q')) \<and> inv q' \<and> abs q' = p \<and> pos q' \<le> pos q"
    and dec_whole: "inv q \<Longrightarrow> abs q = concat (map image ms) \<Longrightarrow> pos q \<le> limit \<Longrightarrow>
      \<exists>q'. dec out q = Some (Inr (out @ map seen ms, q')) \<and> inv q' \<and> abs q' = [] \<and> pos q' \<le> pos q"
begin

text \<open>Where a cut through a sequence of images falls: behind whole ones, inside at most one.\<close>

lemma cut:
  "s @ t = concat (map image ms) \<Longrightarrow>
   \<exists>ms1 ms2 p. ms = ms1 @ ms2 \<and> s = concat (map image ms1) @ p \<and> p @ t = concat (map image ms2) \<and>
     (ms2 = [] \<and> p = [] \<or> (\<exists>m ms3 r. ms2 = m # ms3 \<and> p @ r = image m \<and> r \<noteq> []))"
proof (induction ms arbitrary: s)
  case (Cons m ms)
  show ?case
  proof (cases "length (image m) \<le> length s")
    case True
    define s' where "s' = drop (length (image m)) s"
    have "image m = take (length (image m)) s"
      using True Cons.prems by (simp add: append_eq_append_conv_if split: if_splits)
    then have s1: "s = image m @ s'" unfolding s'_def by (metis append_take_drop_id)
    with Cons.prems have s': "s = image m @ s'" "s' @ t = concat (map image ms)" by simp_all
    from Cons.IH [OF s'(2)] obtain ms1 ms2 p where "ms = ms1 @ ms2" "s' = concat (map image ms1) @ p"
      "p @ t = concat (map image ms2)"
      "ms2 = [] \<and> p = [] \<or> (\<exists>m ms3 r. ms2 = m # ms3 \<and> p @ r = image m \<and> r \<noteq> [])" by blast
    then show ?thesis using s'(1) by (intro exI [of _ "m # ms1"] exI [of _ ms2] exI [of _ p]) auto
  next
    case False
    then have "s = take (length s) (image m)"
      using Cons.prems by (simp add: append_eq_append_conv_if split: if_splits)
    then have "s @ drop (length s) (image m) = image m" by (metis append_take_drop_id)
    moreover have "drop (length s) (image m) \<noteq> []" using False by simp
    ultimately obtain r where "s @ r = image m" "r \<noteq> []" by blast
    then show ?thesis using Cons.prems
      by (intro exI [of _ "[]"] exI [of _ "m # ms"] exI [of _ s]) auto
  qed
qed simp

lemma dec_cut:
  assumes "inv q" "abs q @ t = concat (map image ms)" "pos q + length (concat (map image ms)) \<le> limit"
  shows "\<exists>ms1 ms2 q'. ms = ms1 @ ms2 \<and> dec out q = Some (Inr (out @ map seen ms1, q')) \<and> inv q'
    \<and> abs q' @ t = concat (map image ms2) \<and> pos q' \<le> pos q
    \<and> (ms2 = [] \<and> abs q' = [] \<or> ms2 \<noteq> [] \<and> length (abs q') < length (image (hd ms2)))"
proof -
  from cut [OF assms(2)] obtain ms1 ms2 p where c: "ms = ms1 @ ms2" "abs q = concat (map image ms1) @ p"
    "p @ t = concat (map image ms2)"
    "ms2 = [] \<and> p = [] \<or> (\<exists>m ms3 r. ms2 = m # ms3 \<and> p @ r = image m \<and> r \<noteq> [])" by blast
  from c(4) show ?thesis
  proof
    assume "ms2 = [] \<and> p = []"
    with c dec_whole [OF assms(1), of ms1 out] assms(3) show ?thesis
      by (intro exI [of _ ms1] exI [of _ ms2]) auto
  next
    assume "\<exists>m ms3 r. ms2 = m # ms3 \<and> p @ r = image m \<and> r \<noteq> []"
    then obtain m ms3 r where m: "ms2 = m # ms3" "p @ r = image m" "r \<noteq> []" by blast
    then have "length (image m) \<le> length (concat (map image ms))" using c(1) by simp
    then have "pos q + length (image m) \<le> limit" using assms(3) by simp
    from dec_partial [OF assms(1) c(2) m(2,3) this, of out] obtain q' where q': "dec out q = Some (Inr (out @ map seen ms1, q'))"
      "inv q'" "abs q' = p" "pos q' \<le> pos q" by blast
    have "length p < length (image m)" using m(2,3) by (metis append_Nil2 length_append less_add_same_cancel1 length_greater_0_conv)
    with q' m(1) c(1,3) show ?thesis by (intro exI [of _ ms1] exI [of _ ms2] exI [of _ q']) simp
  qed
qed

theorem chunked:
  "inv q \<Longrightarrow> abs q @ concat ds = concat (map image ms) \<Longrightarrow>
   pos q + length (concat ds) + length (concat (map image ms)) \<le> limit \<Longrightarrow>
   ds \<noteq> [] \<Longrightarrow>
   \<exists>q'. receive put dec ds out q = Some (Inr (out @ map seen ms, q')) \<and> inv q' \<and> abs q' = []"
proof (induction ds arbitrary: q ms out)
  case (Cons d ds)
  obtain q1 where q1: "put d q = Inr q1" "inv q1" "abs q1 = abs q @ d" "pos q1 \<le> pos q + length d"
    using put_step [OF Cons.prems(1), of d] Cons.prems(3) by auto
  have a1: "abs q1 @ concat ds = concat (map image ms)" using q1(3) Cons.prems(2) by simp
  have "pos q1 + length (concat (map image ms)) \<le> limit" using q1(4) Cons.prems(3) by simp
  from dec_cut [OF q1(2) a1 this, of out] obtain ms1 ms2 q2 where q2: "ms = ms1 @ ms2"
    "dec out q1 = Some (Inr (out @ map seen ms1, q2))" "inv q2"
    "abs q2 @ concat ds = concat (map image ms2)" "pos q2 \<le> pos q1" by blast
  show ?case
  proof (cases "ds = []")
    case True
    from dec_whole [OF q1(2), of ms out] a1 Cons.prems(3) q1(4) True q1(1) show ?thesis by auto
  next
    case False
    have "pos q2 + length (concat ds) + length (concat (map image ms2)) \<le> limit"
      using q2(1,5) q1(4) Cons.prems(3) by simp
    from Cons.IH [OF q2(3,4) this False, of "out @ map seen ms1"] q1(1) q2(1,2) show ?thesis by auto
  qed
qed simp

end

lemma decode_whole:
  assumes "buffer_wf b" "writeIndex b \<le> DECODE_MAX" "contents b = concat (map frame pkgs)"
  shows "\<exists>b'. decode out b = Some (Inr (out @ map wire pkgs, b')) \<and> eats (concat (map frame pkgs)) b b'"
  by (rule decode_frames [OF assms(1,2), of _ "[]" "frame TinyPB_new" TinyPB_new])
    (use assms(2,3) in \<open>auto simp: package_length_def TinyPB_new_def DECODE_MAX_def\<close>)

lemma writeToBuffer_step:
  assumes "buffer_wf b" "writeIndex b + length d \<le> DECODE_MAX"
  shows "\<exists>b'. writeToBuffer d b = Inr b' \<and> buffer_wf b' \<and> contents b' = contents b @ d
    \<and> writeIndex b' \<le> writeIndex b + length d"
proof -
  have "length d \<le> buffer_room b"
    using assms(2) by (simp add: buffer_room_def DECODE_MAX_def MAX_SIZE_def)
  from writeToBuffer_ok [OF assms(1) this] obtain b' where "writeToBuffer d b = Inr b'" by blast
  with writeToBuffer_Inr [OF assms(1) this] show ?thesis by blast
qed

lemma decode_partial_step:
  assumes "buffer_wf b" "contents b = concat (map frame ms) @ p" "p @ r = frame m" "r \<noteq> []"
    "writeIndex b + length (frame m) \<le> DECODE_MAX"
  shows "\<exists>b'. decode out b = Some (Inr (out @ map wire ms, b')) \<and> buffer_wf b' \<and> contents b' = p
    \<and> writeIndex b' \<le> writeIndex b"
proof -
  have "writeIndex b \<le> DECODE_MAX" "writeIndex b + package_length m \<le> 2147483647"
    using assms(5) by (simp_all add: DECODE_MAX_def)
  from decode_frames [OF assms(1) this(1) assms(2-4) this(2), of out] assms(2) show ?thesis
    by (auto simp: eats_def)
qed

interpretation sd: stream_decoder buffer_wf contents writeIndex writeToBuffer decode frame wire DECODE_MAX
proof unfold_locales
  fix q :: buffer and d p r :: "char list" and ms out :: "tinypb list" and m :: tinypb
  show "frame m \<noteq> []" by simp
  show "buffer_wf q \<Longrightarrow> writeIndex q + length d \<le> DECODE_MAX \<Longrightarrow>
    \<exists>q'. writeToBuffer d q = Inr q' \<and> buffer_wf q' \<and> contents q' = contents q @ d
      \<and> writeIndex q' \<le> writeIndex q + length d"
    by (rule writeToBuffer_step)
  show "buffer_wf q \<Longrightarrow> contents q = concat (map frame ms) @ p \<Longrightarrow> p @ r = frame m \<Longrightarrow> r \<noteq> [] \<Longrightarrow>
    writeIndex q + length (frame m) \<le> DECODE_MAX \<Longrightarrow>
    \<exists>q'. decode out q = Some (Inr (out @ map wire ms, q')) \<and> buffer_wf q' \<and> contents q' = p
      \<and> writeIndex q' \<le> writeIndex q"
    by (rule decode_partial_step)
  show "buffer_wf q \<Longrightarrow> contents q = concat (map frame ms) \<Longrightarrow> writeIndex q \<le> DECODE_MAX \<Longrightarrow>
    \<exists>q'. decode out q = Some (Inr (out @ map wire ms, q')) \<and> buffer_wf q' \<and> contents q' = []
      \<and> writeIndex q' \<le> writeIndex q"
    using decode_whole [of q ms out] by (auto simp: eats_def)
qed

section \<open>Malformed frames\<close>

lemma decode_step_malformed:
  assumes wf: "buffer_wf b" and max: "writeIndex b \<le> DECODE_MAX"
    and c: "contents b = PB_START # be32 len @ X"
    and len: "1 \<le> sint len" "sint len \<le> int (length (contents b))"
    and last: "contents b ! nat (sint len - 1) = PB_END"
    and bad: "\<And>pkg rest. int (package_length pkg) = sint len \<Longrightarrow> contents b \<noteq> frame pkg @ rest"
  shows "\<exists>e. decode_step b = Inl e"
proof (rule ccontr)
  assume "\<not> (\<exists>e. decode_step b = Inl e)"
  then obtain found b' where step: "decode_step b = Inr (found, b')"
    by (metis old.sum.exhaust surj_pair)
  let ?r = "int (readIndex b)"
  have lc: "length (contents b) = writeIndex b - readIndex b" "readIndex b \<le> writeIndex b"
    "writeIndex b \<le> 2147483583"
    using wf max by (auto simp: length_contents buffer_wf_def DECODE_MAX_def)
  have rl: "?r + sint len \<le> 2147483647" using len(2) lc by linarith
  have pr: "probe_at (buffer_vec b) (int (writeIndex b)) ?r = Inr (Frame (?r + sint len - 1))"
    using probe_at_start [OF wf max c len(1) rl] len(2) last by simp
  have "decode_step b = bindR (parse_frame ?r (?r + sint len - 1) b) (\<lambda>(pkg, b). Inr (Some pkg, b))"
    using decode_step_at_start(1) [OF wf max _ pr] c by simp
  with step obtain pkg where pkg: "parse_frame ?r (?r + sint len - 1) b = Inr (pkg, b')" by auto
  have l5: "5 \<le> length (contents b)" by (simp add: c)
  have "contents b = frame pkg @ contents b' \<and> wire pkg = pkg \<and> pk_len pkg = len"
  proof (rule parse_frame_sound [OF wf max _ _ _ _ refl c _ pkg])
    show "?r + 4 < int (writeIndex b)" using l5 lc by linarith
    show "0 \<le> ?r + sint len - 1" using len(1) by linarith
    show "?r + sint len - 1 < int (writeIndex b)" using len(2) lc by linarith
    have "?r + sint len - 1 - ?r = sint len - 1" by simp
    then show "contents b ! nat (?r + sint len - 1 - ?r) = PB_END" using last by (simp only:)
  qed simp
  then have f: "contents b = frame pkg @ contents b'" and w: "wire pkg = pkg" "pk_len pkg = len"
    by auto
  have "pk_len (wire pkg) = word_of_nat (package_length pkg)" by (simp add: wire_def)
  then have "word_of_nat (package_length pkg) = len" unfolding w by (rule sym)
  moreover have "package_length pkg \<le> 2147483647"
  proof -
    have "package_length pkg \<le> length (contents b)" using f by simp
    then show ?thesis using lc by linarith
  qed
  ultimately have "int (package_length pkg) = sint len"
    using sint_word_of_nat32 [of "package_length pkg"] by metis
  with bad f show False by blast
qed

section \<open>Properties\<close>

text \<open>
  \<open>encode\<close> writes exactly the wire format: behind what the buffer held come the frames of the
  packages in order, each with an identifier put in where there was none, and the caller's
  packages change in that respect only. It succeeds whenever the vector can hold the frames.
\<close>

theorem encode_writes_frames:
  assumes "buffer_wf b" and "sum_list (map (package_length \<circ> default_id) pkgs) \<le> buffer_room b"
  shows "\<exists>b'. encode pkgs b = Inr (map default_id pkgs, b') \<and> buffer_wf b'
    \<and> contents b' = contents b @ concat (map frame (map default_id pkgs))"
  using encode_ok [OF assms] encode_Inr [OF assms(1)] by blast

theorem encode_writes_frames_witness:
  "\<exists>b'. encode [TinyPB_new, TinyPB_new] Buffer_new = Inr (map default_id [TinyPB_new, TinyPB_new], b')
    \<and> buffer_wf b' \<and> contents b' = contents Buffer_new
        @ concat (map frame (map default_id [TinyPB_new, TinyPB_new]))"
  by (rule encode_writes_frames)
    (simp_all add: package_length_def default_id_def TinyPB_new_def)

text \<open>C22.
  \<open>decode\<close> always returns: its outer loop ends on every buffer, whatever bytes a peer sent,
  with packages or with a fault.
\<close>

theorem decode_terminates:
  assumes "buffer_wf b"
  shows "\<exists>r. decode out b = Some r"
  using decode_returns [OF assms] .

theorem decode_terminates_witness: "\<exists>r. decode [] Buffer_new = Some r"
  by (rule decode_terminates) simp



text \<open>C17.
  Delivery does not depend on how TCP cuts the stream: the frames of any packages, arriving in
  any chunks (each written to the input buffer and decoded as far as it goes), come out as
  exactly these packages in order, with their length fields filled in, and nothing is left over.
\<close>

theorem chunked_delivery:
  assumes "buffer_wf b" and "contents b = []" and "ds \<noteq> []"
    and "concat ds = concat (map frame pkgs)"
    and "writeIndex b + 2 * length (concat ds) \<le> DECODE_MAX"
  shows "\<exists>b'. receive writeToBuffer decode ds [] b = Some (Inr (map wire pkgs, b')) \<and> contents b' = []"
  using sd.chunked [OF assms(1), of ds pkgs "[]"] assms(2-5) by auto

theorem chunked_delivery_witness:
  "\<exists>b'. receive writeToBuffer decode [take 7 (frame TinyPB_new), drop 7 (frame TinyPB_new) @ frame TinyPB_new] [] Buffer_new
     = Some (Inr (map wire [TinyPB_new, TinyPB_new], b')) \<and> contents b' = []"
proof (rule chunked_delivery)
  have "concat [take 7 (frame TinyPB_new), drop 7 (frame TinyPB_new) @ frame TinyPB_new]
      = frame TinyPB_new @ frame TinyPB_new" by (simp add: append_assoc [symmetric] del: append_assoc)
  then show "concat [take 7 (frame TinyPB_new), drop 7 (frame TinyPB_new) @ frame TinyPB_new]
      = concat (map frame [TinyPB_new, TinyPB_new])"
    and "writeIndex Buffer_new + 2 * length (concat [take 7 (frame TinyPB_new),
      drop 7 (frame TinyPB_new) @ frame TinyPB_new]) \<le> DECODE_MAX"
    by (simp_all only: length_append length_frame) (simp_all add: Buffer_new_def package_length_def
        TinyPB_new_def DECODE_MAX_def)
qed simp_all

text \<open>C3.
  Encoding and decoding are inverse end to end: what \<open>encode\<close> writes into an empty output
  buffer, cut into any chunks on the way, is decoded by the peer to the same packages, with the
  default identifier where the sender gave none.
\<close>

theorem encode_decode_roundtrip:
  assumes "buffer_wf ob" and "contents ob = []" and "encode pkgs ob = Inr (pkgs', ob')"
    and "buffer_wf b" and "contents b = []" and "ds \<noteq> []" and "concat ds = contents ob'"
    and "writeIndex b + 2 * length (contents ob') \<le> DECODE_MAX"
  shows "\<exists>b'. receive writeToBuffer decode ds [] b = Some (Inr (map (wire \<circ> default_id) pkgs, b'))
    \<and> contents b' = []"
proof -
  from encode_Inr [OF assms(1,3)] assms(2)
  have "contents ob' = concat (map frame (map default_id pkgs))" by simp
  with sd.chunked [OF assms(4), of ds "map default_id pkgs" "[]"] assms(5-8) show ?thesis by auto
qed

theorem encode_decode_roundtrip_witness:
  "\<exists>ob' b'. encode [TinyPB_new] Buffer_new = Inr ([default_id TinyPB_new], ob')
    \<and> receive writeToBuffer decode [contents ob'] [] Buffer_new
        = Some (Inr ([(wire \<circ> default_id) TinyPB_new], b')) \<and> contents b' = []"
proof -
  have len: "package_length (default_id TinyPB_new) = 32"
    by (simp add: package_length_def default_id_def TinyPB_new_def)
  have "\<exists>b'. encode [TinyPB_new] Buffer_new = Inr (map default_id [TinyPB_new], b')"
    by (rule encode_ok) (simp_all add: len)
  then obtain ob' where ob': "encode [TinyPB_new] Buffer_new = Inr ([default_id TinyPB_new], ob')"
    by (simp only: list.map) blast
  have "contents ob' = frame (default_id TinyPB_new)"
    using encode_Inr [OF buffer_wf_Buffer_new ob'] by (simp del: encode.simps)
  then have "writeIndex Buffer_new + 2 * length (contents ob') \<le> DECODE_MAX"
    by (simp add: len Buffer_new_def DECODE_MAX_def)
  from encode_decode_roundtrip [OF buffer_wf_Buffer_new contents_Buffer_new ob' buffer_wf_Buffer_new
      contents_Buffer_new _ _ this, of "[contents ob']"] ob' show ?thesis
    by (auto simp del: encode.simps receive.simps)
qed

text \<open>C26.
  A delimited frame that is not well formed stops the process: if the announced length is inside
  the buffer and ends in an end byte, but the bytes are not the frame of any package of that
  length (a length below 23, an inner length that does not fit), the parse never reaches its
  recovery code: every such frame runs into a failed assertion, an overflow or an access outside
  the buffer, so any peer can stop the server with six bytes.
\<close>

theorem malformed_frame_stops:
  assumes "buffer_wf b" and "writeIndex b \<le> DECODE_MAX"
    and "contents b = PB_START # be32 len @ X"
    and "1 \<le> sint len" and "sint len \<le> int (length (contents b))"
    and "contents b ! nat (sint len - 1) = PB_END"
    and "\<And>pkg rest. int (package_length pkg) = sint len \<Longrightarrow> contents b \<noteq> frame pkg @ rest"
  shows "\<exists>e. decode out b = Some (Inl e)"
  using decode_step_malformed [OF assms] by (auto simp: decode.simps [of out b])

theorem malformed_frame_stops_witness:
  "\<exists>b e. contents b = PB_START # be32 6 @ [PB_END] \<and> decode [] b = Some (Inl e)"
proof -
  have "writeIndex Buffer_new + length (PB_START # be32 6 @ [PB_END]) \<le> DECODE_MAX"
    by (simp add: Buffer_new_def DECODE_MAX_def)
  from writeToBuffer_step [OF buffer_wf_Buffer_new this] obtain b
    where b: "buffer_wf b" "contents b = PB_START # be32 6 @ [PB_END]"
      "writeIndex b \<le> writeIndex Buffer_new + length (PB_START # be32 6 @ [PB_END])" by auto
  have "writeIndex b \<le> DECODE_MAX" using b(3) by (simp add: Buffer_new_def DECODE_MAX_def)
  moreover have "contents b ! nat (sint (6 :: 32 word) - 1) = PB_END" by (simp add: b(2) nth_append)
  moreover have "int (package_length pkg) \<noteq> sint (6 :: 32 word)" for pkg
    using package_length_ge [of pkg] by simp
  ultimately have "\<exists>e. decode [] b = Some (Inl e)"
    by (intro malformed_frame_stops [OF b(1) _ b(2)]) (auto simp: b(2))
  with b(2) show ?thesis by blast
qed

text \<open>
  A frame that announces a negative length makes the decoder read in front of the buffer: the
  length is not checked before it is used as an index.
\<close>

theorem negative_length_out_of_bounds:
  assumes "buffer_wf b" and "writeIndex b \<le> DECODE_MAX"
    and "contents b = PB_START # be32 len @ X"
    and "- 2147483647 \<le> sint len" and "sint len \<le> - int (readIndex b)"
  shows "decode out b = Some (Inl Out_of_bounds)"
proof -
  let ?r = "readIndex b" and ?w = "writeIndex b" and ?buf = "buffer_vec b"
  have lc: "length (contents b) = ?w - ?r" "?r \<le> ?w" "?w \<le> length ?buf" "?w \<le> 2147483583"
    using assms(1,2) by (auto simp: length_contents buffer_wf_def DECODE_MAX_def)
  have l5: "5 \<le> length (contents b)" by (simp add: assms(3))
  have lt: "?r + 4 < ?w" using l5 lc by linarith
  have at: "buf_at ?buf (int ?r) = Inr PB_START" "buf_at ?buf (int ?r + sint len - 1) = Inl Out_of_bounds"
    using contents_nth [OF assms(1), of 0] assms(3,5) lc l5 by (simp_all add: buf_at_def)
  have cp: "copy_out (nat (int ?r + 1)) 4 ?buf = Inr (be32 len)"
    using contents_take_drop [OF assms(1), of 1 4] l5 lc assms(3) by (simp add: copy_out_def nat_add_distrib)
  have ar: "i32_add (int ?r) (sint len) = Inr (int ?r + sint len)"
    "i32_sub (int ?r + sint len) 1 = Inr (int ?r + sint len - 1)"
    using assms(4,5) by simp_all
  have nw: "\<not> int ?w < int ?r + sint len" using assms(5) by linarith
  have sz: "size_plus (to_size (int ?r)) 4 < to_size (int ?w)" using lt lc by simp
  have "probe_at ?buf (int ?w) (int ?r) = Inl Out_of_bounds"
    by (simp add: probe_at_def at cp ar nw sz del: bindR_Inr_iff bindR_Inl_iff)
  then have "decode_step b = Inl Out_of_bounds"
    using lt lc(4) by (simp add: decode_step_def scan.simps [of ?buf] del: bindR_Inl_iff)
  then show ?thesis by (simp add: decode.simps [of out b])
qed

theorem negative_length_out_of_bounds_witness:
  "\<exists>b. contents b = PB_START # be32 (- 100) @ [] \<and> decode [] b = Some (Inl Out_of_bounds)"
proof -
  define b where "b = \<lparr>buffer_vec = PB_START # be32 (- 100), readIndex = 0, writeIndex = 5\<rparr>"
  have "buffer_wf b" "writeIndex b \<le> DECODE_MAX" and c: "contents b = PB_START # be32 (- 100) @ []"
    by (simp_all add: b_def buffer_wf_def MAX_SIZE_def DECODE_MAX_def contents_def)
  from negative_length_out_of_bounds [OF this, of "[]"] show ?thesis using c by (auto simp: b_def)
qed

end
