(* ===== verification/Connection.thy ===== *)
theory Connection
  imports Sockets CoderParse
begin

text \<open>
  A connection, \<open>src/net/Connection.cpp\<close>, on both sides. The kernel's answers to the reads
  and writes of one readable or writable event are a stream of answers, so a loop that
  never ends is the value \<open>None\<close>. The callbacks of the owner for closing, errors and
  completed sends are recorded in \<open>c_told\<close>; the message callback and the callbacks of
  requests and replies are functions on the connection (arguments), run where the code
  runs them, with the mutex it holds there. \<open>c_sent\<close> collects the bytes the kernel took.
\<close>

section \<open>State\<close>

datatype conn_type = ConnectionByServer | ConnectionByClient

datatype conn_cb = On_message | On_close | On_error | On_write

datatype owner_call = Closed | Errored | Send_finished

record ('d, 'k, 'u) conn =
  c_sock :: socket
  c_channel :: "conn_cb channel"
  c_kernel :: 'k
  inputbuffer :: buffer
  outputbuffer :: buffer
  disConnect :: bool
  closeCB :: bool
  errorCB :: bool
  messageCB :: bool
  sendCB :: bool
  lastTime :: "int option"
  c_type :: conn_type
  write_dones :: "(tinypb \<times> 'd) list"
  read_dones :: "string \<rightharpoonup> 'd"
  write_locked :: bool
  read_locked :: bool
  c_told :: "owner_call list"
  c_sent :: "char list"
  c_env :: 'u

text \<open>The constructor: four callbacks and the edge-triggered flag; \<open>lastTime_\<close> is not set.\<close>

definition Connection_new :: "socket \<Rightarrow> conn_type \<Rightarrow> 'k \<Rightarrow> 'u \<Rightarrow> ('d, 'k, 'u) conn" where
  "Connection_new sock type k u = \<lparr>c_sock = sock,
    c_channel = useET (setWritecallback On_write (setErrorcallback On_error
      (setClosecallback On_close (setReadcallback On_message (Channel_new (sk_fd sock)))))),
    c_kernel = k, inputbuffer = Buffer_new, outputbuffer = Buffer_new, disConnect = False,
    closeCB = False, errorCB = False, messageCB = False, sendCB = False, lastTime = None,
    c_type = type, write_dones = [], read_dones = Map.empty, write_locked = False,
    read_locked = False, c_told = [], c_sent = [], c_env = u\<rparr>"

text \<open>The owner's callbacks; a flag says that there is one.\<close>

definition conn_setClosecallback :: "('d, 'k, 'u) conn \<Rightarrow> ('d, 'k, 'u) conn" where
  [simp]: "conn_setClosecallback c = c\<lparr>closeCB := True\<rparr>"

definition seterrorCallback :: "('d, 'k, 'u) conn \<Rightarrow> ('d, 'k, 'u) conn" where
  [simp]: "seterrorCallback c = c\<lparr>errorCB := True\<rparr>"

definition setMessageCallback :: "('d, 'k, 'u) conn \<Rightarrow> ('d, 'k, 'u) conn" where
  [simp]: "setMessageCallback c = c\<lparr>messageCB := True\<rparr>"

definition setsendCallback :: "('d, 'k, 'u) conn \<Rightarrow> ('d, 'k, 'u) conn" where
  [simp]: "setsendCallback c = c\<lparr>sendCB := True\<rparr>"

definition on_channel :: "(conn_cb channel \<times> 'k \<Rightarrow> (conn_cb channel \<times> 'k) res)
    \<Rightarrow> ('d, 'k, 'u) conn \<Rightarrow> ('d, 'k, 'u) conn res" where
  "on_channel f c = bindR (f (c_channel c, c_kernel c)) (\<lambda>(ch, k). Inr (c\<lparr>c_channel := ch, c_kernel := k\<rparr>))"

definition conn_enableReading :: "'k epoll_ctl \<Rightarrow> ('d, 'k, 'u) conn \<Rightarrow> ('d, 'k, 'u) conn res" where
  "conn_enableReading ctl = on_channel (enableReading ctl)"

definition conn_enableWriting :: "'k epoll_ctl \<Rightarrow> ('d, 'k, 'u) conn \<Rightarrow> ('d, 'k, 'u) conn res" where
  "conn_enableWriting ctl = on_channel (enableWriting ctl)"

definition conn_disableReading :: "'k epoll_ctl \<Rightarrow> ('d, 'k, 'u) conn \<Rightarrow> ('d, 'k, 'u) conn res" where
  "conn_disableReading ctl = on_channel (disableReading ctl)"

definition conn_disableWriting :: "'k epoll_ctl \<Rightarrow> ('d, 'k, 'u) conn \<Rightarrow> ('d, 'k, 'u) conn res" where
  "conn_disableWriting ctl = on_channel (disableWriting ctl)"

definition conn_closeCallback :: "'k epoll_ctl \<Rightarrow> ('d, 'k, 'u) conn \<Rightarrow> ('d, 'k, 'u) conn res" where
  "conn_closeCallback ctl c = bindR (on_channel (removeChannel ctl) (c\<lparr>disConnect := True\<rparr>))
    (\<lambda>c. Inr (if closeCB c then c\<lparr>c_told := c_told c @ [Closed]\<rparr> else c))"

text \<open>The destructor takes the channel out of the kernel's set.\<close>

definition Connection_delete :: "'k epoll_ctl \<Rightarrow> ('d, 'k, 'u) conn \<Rightarrow> ('d, 'k, 'u) conn res" where
  "Connection_delete ctl = on_channel (removeChannel ctl)"

definition conn_errorCallback :: "'k epoll_ctl \<Rightarrow> ('d, 'k, 'u) conn \<Rightarrow> ('d, 'k, 'u) conn res" where
  "conn_errorCallback ctl c = bindR (on_channel (removeChannel ctl) (c\<lparr>disConnect := True\<rparr>))
    (\<lambda>c. Inr (if errorCB c then c\<lparr>c_told := c_told c @ [Errored]\<rparr> else c))"

section \<open>Pending requests and replies\<close>

definition pushSendMessage :: "tinypb \<Rightarrow> 'd \<Rightarrow> ('d, 'k, 'u) conn \<Rightarrow> ('d, 'k, 'u) conn res" where
  "pushSendMessage m d c = (if write_locked c then Inl Deadlock
    else Inr (c\<lparr>write_dones := write_dones c @ [(m, d)]\<rparr>))"

text \<open>\<open>map::insert\<close> keeps an entry that is there already.\<close>

definition pushReadMessage :: "string \<Rightarrow> 'd \<Rightarrow> ('d, 'k, 'u) conn \<Rightarrow> ('d, 'k, 'u) conn res" where
  "pushReadMessage i d c = (if read_locked c then Inl Deadlock
    else Inr (if read_dones c i = None then c\<lparr>read_dones := (read_dones c)(i \<mapsto> d)\<rparr> else c))"

definition popReadMessage :: "string \<Rightarrow> ('d, 'k, 'u) conn \<Rightarrow> ('d, 'k, 'u) conn res" where
  "popReadMessage i c = (if read_locked c then Inl Deadlock
    else Inr (c\<lparr>read_dones := (read_dones c)(i := None)\<rparr>))"

section \<open>Receiving\<close>

type_synonym ('d, 'k, 'u) done_exec = "'d \<Rightarrow> tinypb \<Rightarrow> ('d, 'k, 'u) conn \<Rightarrow> ('d, 'k, 'u) conn res"

type_synonym ('d, 'k, 'u) msg_exec = "tinypb list \<Rightarrow> ('d, 'k, 'u) conn \<Rightarrow> ('d, 'k, 'u) conn res"

definition reply_step :: "('d, 'k, 'u) done_exec \<Rightarrow> tinypb \<Rightarrow> ('d, 'k, 'u) conn \<Rightarrow> ('d, 'k, 'u) conn res" where
  "reply_step exec pkg c = (if read_locked c then Inl Deadlock
    else (case read_dones c (msg_id pkg) of
        None \<Rightarrow> Inr c
      | Some d \<Rightarrow> bindR (exec d pkg (c\<lparr>read_locked := True\<rparr>)) (\<lambda>c.
          Inr (c\<lparr>read_dones := (read_dones c)(msg_id pkg := None), read_locked := False\<rparr>))))"

definition parseMsg :: "('d, 'k, 'u) msg_exec \<Rightarrow> ('d, 'k, 'u) done_exec \<Rightarrow> ('d, 'k, 'u) conn
    \<Rightarrow> ('d, 'k, 'u) conn res option" where
  "parseMsg onMsg exec c = (case decode [] (inputbuffer c) of
      None \<Rightarrow> None
    | Some (Inl e) \<Rightarrow> Some (Inl e)
    | Some (Inr (pkgs, b)) \<Rightarrow>
        (let c = c\<lparr>inputbuffer := b\<rparr> in
         if c_type c = ConnectionByServer then
           Some (if messageCB c then onMsg pkgs c else Inl Bad_function_call)
         else Some (foldR (reply_step exec) pkgs c)))"

text \<open>
  One round of the reading loop, given one answer to \<open>readv\<close>: \<open>Inl\<close> of the end of the handler
  or \<open>Inr\<close> of the connection for the next round. \<open>EWOULDBLOCK\<close> is \<open>EAGAIN\<close>.
\<close>

definition read_round :: "'k epoll_ctl \<Rightarrow> ('d, 'k, 'u) msg_exec \<Rightarrow> ('d, 'k, 'u) done_exec \<Rightarrow> int
    \<Rightarrow> read_answer \<Rightarrow> ('d, 'k, 'u) conn \<Rightarrow> ('d, 'k, 'u) conn res option + ('d, 'k, 'u) conn" where
  "read_round ctl onMsg exec now a c = (case readFd a (inputbuffer c) of
      Inl e \<Rightarrow> Inl (Some (Inl e))
    | Inr (nread, errorTag, b) \<Rightarrow>
        (let c = c\<lparr>inputbuffer := b\<rparr> in
         if nread = 0 then Inl (Some (conn_closeCallback ctl (c\<lparr>disConnect := True\<rparr>)))
         else if nread < 0 then
           (if errorTag = EINTR then Inr c
            else if errorTag = EAGAIN then Inl (parseMsg onMsg exec (c\<lparr>lastTime := Some now\<rparr>))
            else Inr c)
         else Inr c))"

text \<open>The loop \<open>while (1)\<close>, from the \<open>i\<close>-th answer on.\<close>

partial_function (option) onMessage_loop :: "'k epoll_ctl \<Rightarrow> ('d, 'k, 'u) msg_exec
    \<Rightarrow> ('d, 'k, 'u) done_exec \<Rightarrow> int \<Rightarrow> (nat \<Rightarrow> read_answer) \<Rightarrow> nat \<Rightarrow> ('d, 'k, 'u) conn
    \<Rightarrow> ('d, 'k, 'u) conn res option" where
  "onMessage_loop ctl onMsg exec now ans i c = (case read_round ctl onMsg exec now (ans i) c of
      Inl r \<Rightarrow> r
    | Inr c \<Rightarrow> onMessage_loop ctl onMsg exec now ans (Suc i) c)"

definition onMessage :: "'k epoll_ctl \<Rightarrow> ('d, 'k, 'u) msg_exec \<Rightarrow> ('d, 'k, 'u) done_exec \<Rightarrow> int
    \<Rightarrow> (nat \<Rightarrow> read_answer) \<Rightarrow> ('d, 'k, 'u) conn \<Rightarrow> ('d, 'k, 'u) conn res option" where
  "onMessage ctl onMsg exec now ans c = onMessage_loop ctl onMsg exec now ans 0 c"

section \<open>Sending\<close>

definition regSend :: "'k epoll_ctl \<Rightarrow> tinypb list \<Rightarrow> ('d, 'k, 'u) conn \<Rightarrow> ('d, 'k, 'u) conn res" where
  "regSend ctl pkgs c = (if disConnect c then Inr c
    else bindR (encode pkgs (outputbuffer c)) (\<lambda>(_, b). conn_enableWriting ctl (c\<lparr>outputbuffer := b\<rparr>)))"

text \<open>
  \<open>send\<close>, called by thread \<open>me\<close>: the connection lives in the environment of its loop, a task
  of the loop is the list of packages of a \<open>regSend\<close>.
\<close>

definition regSend_task :: "'k epoll_ctl \<Rightarrow> tinypb list
    \<Rightarrow> ('cb, tinypb list, ('d, 'k, 'u) conn) el \<Rightarrow> ('cb, tinypb list, ('d, 'k, 'u) conn) el res" where
  "regSend_task ctl pkgs l = bindR (regSend ctl pkgs (el_env l)) (\<lambda>c. Inr (l\<lparr>el_env := c\<rparr>))"

definition Connection_send :: "'k epoll_ctl \<Rightarrow> int \<Rightarrow> tinypb list
    \<Rightarrow> ('cb, tinypb list, ('d, 'k, 'u) conn) el \<Rightarrow> ('cb, tinypb list, ('d, 'k, 'u) conn) el res" where
  "Connection_send ctl me pkgs l = (if disConnect (el_env l) then Inr l
    else runInLoop me (regSend_task ctl) pkgs l)"

text \<open>One round of the writing loop, given one answer to \<open>write\<close>.\<close>

definition write_round :: "'k epoll_ctl \<Rightarrow> write_answer \<Rightarrow> ('d, 'k, 'u) conn
    \<Rightarrow> ('d, 'k, 'u) conn res + ('d, 'k, 'u) conn" where
  "write_round ctl a c = (case writeFd a (outputbuffer c) of
      Inl e \<Rightarrow> Inl (Inl e)
    | Inr (writen, errorTag, b) \<Rightarrow>
        (let c = c\<lparr>c_sent := c_sent c @ take (nat writen) (contents (outputbuffer c)), outputbuffer := b\<rparr> in
         if readableBytes b = 0 then
           Inl (bindR (conn_disableWriting ctl c) (\<lambda>c.
             Inr (if sendCB c then c\<lparr>c_told := c_told c @ [Send_finished]\<rparr> else c)))
         else if writen < 0 \<and> errorTag = EAGAIN then Inl (Inr c)
         else Inr c))"

partial_function (option) write_loop :: "'k epoll_ctl \<Rightarrow> (nat \<Rightarrow> write_answer) \<Rightarrow> nat
    \<Rightarrow> ('d, 'k, 'u) conn \<Rightarrow> ('d, 'k, 'u) conn res option" where
  "write_loop ctl ans i c = (case write_round ctl (ans i) c of
      Inl r \<Rightarrow> Some r
    | Inr c \<Rightarrow> write_loop ctl ans (Suc i) c)"

text \<open>The client's part of \<open>sendMessage\<close>: every pending request's callback, then the packages.\<close>

definition flush_requests :: "('d, 'k, 'u) done_exec \<Rightarrow> ('d, 'k, 'u) conn \<Rightarrow> ('d, 'k, 'u) conn res" where
  "flush_requests exec c = (if write_locked c then Inl Deadlock
    else bindR (foldR (\<lambda>(m, d) c. exec d m c) (write_dones c) (c\<lparr>write_locked := True\<rparr>)) (\<lambda>c1.
      bindR (encode (map fst (write_dones c)) (outputbuffer c1)) (\<lambda>(_, b).
      Inr (c1\<lparr>write_dones := [], write_locked := False, outputbuffer := b\<rparr>))))"

definition sendMessage :: "'k epoll_ctl \<Rightarrow> ('d, 'k, 'u) done_exec \<Rightarrow> (nat \<Rightarrow> write_answer)
    \<Rightarrow> ('d, 'k, 'u) conn \<Rightarrow> ('d, 'k, 'u) conn res option" where
  "sendMessage ctl exec ans c = (if disConnect c then Some (Inr c)
    else (case (if c_type c = ConnectionByClient then flush_requests exec c else Inr c) of
        Inl e \<Rightarrow> Some (Inl e)
      | Inr c \<Rightarrow> write_loop ctl ans 0 c))"

section \<open>Time-out\<close>

definition timeout :: "int \<Rightarrow> int \<Rightarrow> ('d, 'k, 'u) conn \<Rightarrow> bool res" where
  "timeout now timeval c = (case lastTime c of
      None \<Rightarrow> Inl Uninitialised
    | Some t \<Rightarrow> Inr (now - t > timeval))"

definition conn_isWriting :: "('d, 'k, 'u) conn \<Rightarrow> bool" where
  "conn_isWriting c = channel_isWriting (c_channel c)"

definition setType :: "conn_type \<Rightarrow> ('d, 'k, 'u) conn \<Rightarrow> ('d, 'k, 'u) conn" where
  "setType t c = c\<lparr>c_type := t\<rparr>"

section \<open>Lemmas\<close>

text \<open>What a run of reads brings: interrupted calls, and chunks that fit the two buffers of \<open>readFd\<close>.\<close>

definition arrives :: "read_answer list \<Rightarrow> char list \<Rightarrow> bool" where
  "arrives as d \<longleftrightarrow> (\<forall>a \<in> set as. a = Read_error EINTR
      \<or> (\<exists>x. a = Read_bytes x \<and> x \<noteq> [] \<and> length x \<le> EXTRABUF))
    \<and> d = concat (map (\<lambda>a. case a of Read_error _ \<Rightarrow> [] | Read_bytes x \<Rightarrow> x) as)"

lemma arrives_Cons:
  "arrives (a # as) d \<longleftrightarrow> (\<exists>x d'. d = x @ d' \<and> arrives as d'
    \<and> (a = Read_error EINTR \<and> x = [] \<or> a = Read_bytes x \<and> x \<noteq> [] \<and> length x \<le> EXTRABUF))"
  by (auto simp: arrives_def)

lemma arrives_Nil [simp]: "arrives [] d \<longleftrightarrow> d = []"
  by (simp add: arrives_def)

text \<open>The loop over them: the input buffer grows by the bytes, nothing else changes.\<close>

lemma onMessage_loop_reads:
  assumes "arrives as d" "\<And>j. j < length as \<Longrightarrow> ans (i + j) = as ! j"
    "buffer_wf (inputbuffer c)" "length d \<le> buffer_room (inputbuffer c)"
  shows "\<exists>b. onMessage_loop ctl onMsg exec now ans i c
      = onMessage_loop ctl onMsg exec now ans (i + length as) (c\<lparr>inputbuffer := b\<rparr>)
    \<and> buffer_wf b \<and> contents b = contents (inputbuffer c) @ d
    \<and> writeIndex b \<le> writeIndex (inputbuffer c) + length d"
  using assms
proof (induction as arbitrary: i c d)
  case Nil
  then show ?case by (intro exI [of _ "inputbuffer c"]) simp
next
  case (Cons a as)
  obtain x d' where x: "d = x @ d'" "arrives as d'"
    "a = Read_error EINTR \<and> x = [] \<or> a = Read_bytes x \<and> x \<noteq> [] \<and> length x \<le> EXTRABUF"
    using Cons.prems(1) unfolding arrives_Cons by blast
  have ai: "ans i = a" using Cons.prems(2) [of 0] by simp
  have "\<exists>b. read_round ctl onMsg exec now a c = Inr (c\<lparr>inputbuffer := b\<rparr>) \<and> buffer_wf b
    \<and> contents b = contents (inputbuffer c) @ x \<and> writeIndex b \<le> writeIndex (inputbuffer c) + length x"
    using x(3)
  proof
    assume "a = Read_error EINTR \<and> x = []"
    then show ?thesis using Cons.prems(3)
      by (intro exI [of _ "inputbuffer c"]) (simp add: read_round_def readFd_def Let_def)
  next
    assume r: "a = Read_bytes x \<and> x \<noteq> [] \<and> length x \<le> EXTRABUF"
    then have "x = take (writeableBytes (inputbuffer c) + EXTRABUF) x" by simp
    moreover have "length x \<le> buffer_room (inputbuffer c)" using Cons.prems(4) x(1) by simp
    ultimately obtain b where "readFd (Read_bytes x) (inputbuffer c) = Inr (int (length x), No_error, b)"
      "buffer_wf b" "contents b = contents (inputbuffer c) @ x"
      "writeIndex b \<le> writeIndex (inputbuffer c) + length x"
      using readFd_bytes [OF Cons.prems(3)] by blast
    then show ?thesis using r by (intro exI [of _ b]) (simp add: read_round_def Let_def)
  qed
  then obtain b where b: "read_round ctl onMsg exec now a c = Inr (c\<lparr>inputbuffer := b\<rparr>)" "buffer_wf b"
    "contents b = contents (inputbuffer c) @ x" "writeIndex b \<le> writeIndex (inputbuffer c) + length x" by blast
  have "ans (Suc i + j) = as ! j" if "j < length as" for j
    using Cons.prems(2) [of "Suc j"] that by simp
  moreover have "length d' \<le> buffer_room b"
    using Cons.prems(4) b(4) x(1) by (simp add: buffer_room_def)
  ultimately obtain b' where "onMessage_loop ctl onMsg exec now ans (Suc i) (c\<lparr>inputbuffer := b\<rparr>)
      = onMessage_loop ctl onMsg exec now ans (Suc i + length as) (c\<lparr>inputbuffer := b'\<rparr>)"
    "buffer_wf b'" "contents b' = contents b @ d'" "writeIndex b' \<le> writeIndex b + length d'"
    using Cons.IH [OF x(2), of "Suc i" "c\<lparr>inputbuffer := b\<rparr>"] b(2) by auto
  moreover have "onMessage_loop ctl onMsg exec now ans i c
      = onMessage_loop ctl onMsg exec now ans (Suc i) (c\<lparr>inputbuffer := b\<rparr>)"
    using b(1) ai by (simp add: onMessage_loop.simps [of _ _ _ _ _ i])
  ultimately show ?case using b x(1) by (intro exI [of _ b']) auto
qed

section \<open>Receiving requests and replies\<close>

lemma onMessage_requests:
  assumes "c_type c = ConnectionByServer" "messageCB c" "buffer_wf (inputbuffer c)"
    "arrives as d" "contents (inputbuffer c) @ d = concat (map frame ms)"
    "writeIndex (inputbuffer c) + length d \<le> DECODE_MAX"
    "\<And>j. j < length as \<Longrightarrow> ans j = as ! j" "ans (length as) = Read_error EAGAIN"
  shows "\<exists>b. onMessage ctl onMsg exec now ans c
      = Some (onMsg (map wire ms) (c\<lparr>lastTime := Some now, inputbuffer := b\<rparr>))
    \<and> buffer_wf b \<and> contents b = []"
proof -
  have "length d \<le> buffer_room (inputbuffer c)"
    using assms(6) by (simp add: buffer_room_def DECODE_MAX_def MAX_SIZE_def)
  from onMessage_loop_reads [OF assms(4) _ assms(3) this, of ans 0] assms(7)
  obtain b where b: "onMessage ctl onMsg exec now ans c
      = onMessage_loop ctl onMsg exec now ans (length as) (c\<lparr>inputbuffer := b\<rparr>)"
    "buffer_wf b" "contents b = concat (map frame ms)" "writeIndex b \<le> DECODE_MAX"
    using assms(5,6) by (fastforce simp: onMessage_def)
  obtain b' where b': "decode [] b = Some (Inr (map wire ms, b'))" "eats (concat (map frame ms)) b b'"
    using decode_whole [OF b(2,4,3), of "[]"] by auto
  have "onMessage ctl onMsg exec now ans c
      = Some (onMsg (map wire ms) (c\<lparr>lastTime := Some now, inputbuffer := b'\<rparr>))"
    unfolding b(1) using assms(1,2,8) b'(1)
    by (subst onMessage_loop.simps) (simp add: read_round_def readFd_def Let_def parseMsg_def)
  moreover have "contents b' = []" using eats_rest [OF b'(2)] b(3) by simp
  ultimately show ?thesis using eats_wf [OF b'(2)] by blast
qed

text \<open>
  A readable server connection whose bytes so far and newly arriving bytes (in any chunks,
  with interrupted calls in between) are the frames of some packages hands exactly these
  packages, in order, to the message callback, once, when the kernel has no more; the
  input buffer is then empty and the time stamp is set. So no request is lost, split or
  repeated.
\<close>

theorem onMessage_delivers_requests:
  assumes "c_type c = ConnectionByServer" "messageCB c" "buffer_wf (inputbuffer c)"
    "arrives as d" "contents (inputbuffer c) @ d = concat (map frame ms)"
    "writeIndex (inputbuffer c) + length d \<le> DECODE_MAX"
    "\<And>j. j < length as \<Longrightarrow> ans j = as ! j" "ans (length as) = Read_error EAGAIN"
  shows "\<exists>b. onMessage ctl onMsg exec now ans c
      = Some (onMsg (map wire ms) (c\<lparr>lastTime := Some now, inputbuffer := b\<rparr>))
    \<and> buffer_wf b \<and> contents b = []"
  by (rule onMessage_requests [OF assms])

text \<open>A connection for the witnesses; its callbacks log what they get.\<close>

definition sample_conn :: "conn_type \<Rightarrow> (nat, int \<Rightarrow> 32 word option, (nat \<times> tinypb list) list) conn" where
  "sample_conn type = (Connection_new \<lparr>sk_fd = 7, sk_ip = ''1.2.3.4'', sk_port = 80, sk_opts = []\<rparr> type
    (Map.empty(7 \<mapsto> EPOLLIN OR EPOLLET)) [])\<lparr>messageCB := True, closeCB := True, sendCB := True,
    c_channel := (Channel_new 7)\<lparr>inepoll := True, events := EPOLLIN OR EPOLLET\<rparr>\<rparr>"

definition log_msgs :: "(nat, int \<Rightarrow> 32 word option, (nat \<times> tinypb list) list) msg_exec" where
  "log_msgs ms c = Inr (c\<lparr>c_env := c_env c @ [(0, ms)]\<rparr>)"

definition log_done :: "(nat, int \<Rightarrow> 32 word option, (nat \<times> tinypb list) list) done_exec" where
  "log_done d m c = Inr (c\<lparr>c_env := c_env c @ [(d, [m])]\<rparr>)"

definition sample_msg :: "string \<Rightarrow> tinypb" where
  "sample_msg i = TinyPB_new\<lparr>msg_id := i, method_name := ''Order.makeOrder''\<rparr>"

definition sample_reads :: "read_answer list \<Rightarrow> read_answer \<Rightarrow> nat \<Rightarrow> read_answer" where
  "sample_reads as a j = (if j < length as then as ! j else a)"

lemma sample_conn_simps [simp]:
  "c_type (sample_conn t) = t" "messageCB (sample_conn t)" "inputbuffer (sample_conn t) = Buffer_new"
  "outputbuffer (sample_conn t) = Buffer_new" "c_env (sample_conn t) = []" "c_sent (sample_conn t) = []"
  "read_dones (sample_conn t) = Map.empty" "write_dones (sample_conn t) = []"
  "\<not> disConnect (sample_conn t)" "\<not> read_locked (sample_conn t)" "\<not> write_locked (sample_conn t)"
  by (simp_all add: sample_conn_def Connection_new_def)

lemma writeIndex_Buffer_new [simp]: "writeIndex Buffer_new = 0"
  by (simp add: Buffer_new_def)

lemma sample_frame: "package_length (sample_msg ''1'') = 39"
  by (simp add: package_length_def sample_msg_def TinyPB_new_def)

lemma sample_arrives:
  "arrives [Read_error EINTR, Read_bytes (frame (sample_msg ''1''))] (frame (sample_msg ''1''))"
  using sample_frame by (simp add: arrives_def EXTRABUF_def)

lemma onMessage_delivers_requests_witness:
  "\<exists>c. onMessage map_ctl log_msgs log_done 5
      (sample_reads [Read_error EINTR, Read_bytes (frame (sample_msg ''1''))] (Read_error EAGAIN))
      (sample_conn ConnectionByServer) = Some (Inr c)
    \<and> c_env c = [(0, [wire (sample_msg ''1'')])] \<and> contents (inputbuffer c) = []"
proof -
  let ?as = "[Read_error EINTR, Read_bytes (frame (sample_msg ''1''))]"
  have "\<exists>b. onMessage map_ctl log_msgs log_done 5 (sample_reads ?as (Read_error EAGAIN))
      (sample_conn ConnectionByServer)
    = Some (log_msgs (map wire [sample_msg ''1''])
        ((sample_conn ConnectionByServer)\<lparr>lastTime := Some 5, inputbuffer := b\<rparr>))
    \<and> buffer_wf b \<and> contents b = []"
    by (rule onMessage_delivers_requests [OF _ _ _ sample_arrives])
      (simp_all add: sample_frame DECODE_MAX_def sample_reads_def)
  then show ?thesis by (auto simp: log_msgs_def)
qed

text \<open>C39.
  If the peer closes in the same readable event in which its last bytes arrive, these bytes
  are never parsed: the end of the stream ends the reading loop before the parser runs.
  The close callback runs with the unparsed frames still in the input buffer, whatever
  the message callback is.
\<close>

theorem eof_discards_requests:
  assumes "buffer_wf (inputbuffer c)" "arrives as d" "length d \<le> buffer_room (inputbuffer c)"
    "\<And>j. j < length as \<Longrightarrow> ans j = as ! j" "ans (length as) = Read_bytes []"
  shows "\<exists>b. onMessage ctl onMsg exec now ans c
      = Some (conn_closeCallback ctl (c\<lparr>inputbuffer := b, disConnect := True\<rparr>))
    \<and> contents b = contents (inputbuffer c) @ d"
proof -
  from onMessage_loop_reads [OF assms(2) _ assms(1,3), of ans 0] assms(4)
  obtain b where b: "onMessage ctl onMsg exec now ans c
      = onMessage_loop ctl onMsg exec now ans (length as) (c\<lparr>inputbuffer := b\<rparr>)"
    "buffer_wf b" "contents b = contents (inputbuffer c) @ d"
    by (fastforce simp: onMessage_def)
  obtain b' where b': "readFd (Read_bytes []) b = Inr (0, No_error, b')" "contents b' = contents b"
    using readFd_bytes [OF b(2), of "[]" "[]"] by auto
  have "onMessage ctl onMsg exec now ans c
      = Some (conn_closeCallback ctl (c\<lparr>inputbuffer := b', disConnect := True\<rparr>))"
    unfolding b(1) using assms(5) b'(1)
    by (subst onMessage_loop.simps) (simp add: read_round_def Let_def)
  then show ?thesis using b(3) b'(2) by auto
qed

lemma eof_discards_requests_witness:
  "\<exists>b. onMessage map_ctl log_msgs log_done 5
      (sample_reads [Read_error EINTR, Read_bytes (frame (sample_msg ''1''))] (Read_bytes []))
      (sample_conn ConnectionByServer)
    = Some (conn_closeCallback map_ctl
        ((sample_conn ConnectionByServer)\<lparr>inputbuffer := b, disConnect := True\<rparr>))
    \<and> contents b = contents (inputbuffer (sample_conn ConnectionByServer)) @ frame (sample_msg ''1'')"
  by (rule eof_discards_requests [OF _ sample_arrives])
    (simp_all add: sample_frame sample_reads_def MAX_SIZE_def)

section \<open>Matching replies to requests\<close>

text \<open>The replies of a batch that have a callback waiting: the first of each identifier.\<close>

fun matches :: "tinypb list \<Rightarrow> (string \<rightharpoonup> 'd) \<Rightarrow> ('d \<times> tinypb) list" where
  "matches [] m = []"
| "matches (p # ps) m = (case m (msg_id p) of
      None \<Rightarrow> matches ps m
    | Some d \<Rightarrow> (d, p) # matches ps (m(msg_id p := None)))"

lemma matches_sound:
  "(d, p) \<in> set (matches ps m) \<Longrightarrow> p \<in> set ps \<and> m (msg_id p) = Some d"
  by (induction ps m rule: matches.induct) (auto split: option.splits if_splits)

lemma matches_distinct: "distinct (map (\<lambda>(d, p). msg_id p) (matches ps m))"
proof (induction ps m rule: matches.induct)
  case (2 p ps m)
  show ?case
  proof (cases "m (msg_id p)")
    case None
    then show ?thesis using 2(1) by simp
  next
    case (Some d)
    have "msg_id p \<noteq> msg_id q" if "(d, q) \<in> set (matches ps (m(msg_id p := None)))" for d q
      using matches_sound [OF that] by auto
    then show ?thesis using 2(2) [OF Some] by (auto simp: Some simp del: fun_upd_apply)
  qed
qed simp

lemma matches_complete:
  "p \<in> set ps \<Longrightarrow> m (msg_id p) = Some d \<Longrightarrow> \<exists>q. (d, q) \<in> set (matches ps m) \<and> msg_id q = msg_id p"
  by (induction ps m rule: matches.induct) (force split: option.splits if_splits)+

text \<open>Running one callback the way \<open>parseMsg\<close> does: under the mutex, then the entry is erased.\<close>

definition run_done :: "('d, 'k, 'u) done_exec \<Rightarrow> 'd \<times> tinypb \<Rightarrow> ('d, 'k, 'u) conn \<Rightarrow> ('d, 'k, 'u) conn res" where
  "run_done exec = (\<lambda>(d, p) c. bindR (exec d p (c\<lparr>read_locked := True\<rparr>)) (\<lambda>c.
    Inr (c\<lparr>read_dones := (read_dones c)(msg_id p := None), read_locked := False\<rparr>)))"

definition keeps_read :: "('d, 'k, 'u) done_exec \<Rightarrow> bool" where
  "keeps_read exec \<longleftrightarrow> (\<forall>d p c c'. exec d p c = Inr c' \<longrightarrow>
    read_dones c' = read_dones c \<and> read_locked c' = read_locked c)"

lemma reply_steps:
  assumes "keeps_read exec" "\<not> read_locked c"
  shows "foldR (reply_step exec) pkgs c = foldR (run_done exec) (matches pkgs (read_dones c)) c
    \<and> (\<forall>c'. foldR (reply_step exec) pkgs c = Inr c' \<longrightarrow> \<not> read_locked c'
        \<and> read_dones c' = (\<lambda>i. if i \<in> msg_id ` set pkgs then None else read_dones c i))"
  using assms(2)
proof (induction pkgs arbitrary: c)
  case (Cons p pkgs)
  show ?case
  proof (cases "read_dones c (msg_id p)")
    case None
    then have s: "reply_step exec p c = Inr c" using Cons.prems by (simp add: reply_step_def)
    then show ?thesis using Cons.IH [OF Cons.prems] None by (auto simp: fun_eq_iff)
  next
    case (Some d)
    have s: "reply_step exec p c = run_done exec (d, p) c"
      using Some Cons.prems by (simp add: reply_step_def run_done_def)
    show ?thesis
    proof (cases "run_done exec (d, p) c")
      case (Inl e)
      then show ?thesis using s Some by simp
    next
      case (Inr c1)
      then have c1: "read_dones c1 = (read_dones c)(msg_id p := None)" "\<not> read_locked c1"
        using assms(1) by (auto simp: run_done_def keeps_read_def)
      have e1: "foldR (reply_step exec) (p # pkgs) c = foldR (reply_step exec) pkgs c1" using s Inr by simp
      have e2: "foldR (run_done exec) (matches (p # pkgs) (read_dones c)) c
          = foldR (run_done exec) (matches pkgs (read_dones c1)) c1"
        unfolding c1(1) using Inr Some by simp
      have e3: "(\<lambda>i. if i \<in> msg_id ` set pkgs then None else read_dones c1 i)
          = (\<lambda>i. if i \<in> msg_id ` set (p # pkgs) then None else read_dones c i)"
        unfolding c1(1) by (rule ext) simp
      show ?thesis unfolding e1 e2 e3 [symmetric] by (rule Cons.IH [OF c1(2)])
    qed
  qed
qed simp

text \<open>
  Replies find their requests. A client connection that has received some frames runs, in
  the order of the replies, the callback registered under a reply's identifier, at most
  once per identifier even if the reply is repeated; replies without a callback are
  dropped; afterwards no identifier of the batch is registered, and all other
  registrations are untouched. (The callbacks themselves do not touch the table, which
  they cannot lock.)
\<close>

theorem replies_matched:
  assumes "keeps_read exec" "\<not> read_locked c" "c_type c = ConnectionByClient"
    "buffer_wf (inputbuffer c)" "writeIndex (inputbuffer c) \<le> DECODE_MAX"
    "contents (inputbuffer c) = concat (map frame ms)"
  shows "\<exists>b cs. parseMsg onMsg exec c = Some (foldR (run_done exec) cs (c\<lparr>inputbuffer := b\<rparr>))
    \<and> cs = matches (map wire ms) (read_dones c) \<and> distinct (map (\<lambda>(d, p). msg_id p) cs)
    \<and> (\<forall>d p. (d, p) \<in> set cs \<longrightarrow> p \<in> set (map wire ms) \<and> read_dones c (msg_id p) = Some d)
    \<and> (\<forall>c'. parseMsg onMsg exec c = Some (Inr c') \<longrightarrow>
        read_dones c' = (\<lambda>i. if i \<in> msg_id ` set ms then None else read_dones c i))"
proof -
  obtain b where b: "decode [] (inputbuffer c) = Some (Inr (map wire ms, b))"
    using decode_whole [OF assms(4-6), of "[]"] by auto
  let ?c = "c\<lparr>inputbuffer := b\<rparr>"
  have p: "parseMsg onMsg exec c = Some (foldR (reply_step exec) (map wire ms) ?c)"
    using b assms(3) by (simp add: parseMsg_def Let_def)
  have nl: "\<not> read_locked ?c" and rd: "read_dones ?c = read_dones c" using assms(2) by simp_all
  note rs = reply_steps [OF assms(1) nl, of "map wire ms", unfolded rd]
  have r: "foldR (reply_step exec) (map wire ms) ?c
      = foldR (run_done exec) (matches (map wire ms) (read_dones c)) ?c"
    "foldR (reply_step exec) (map wire ms) ?c = Inr c' \<Longrightarrow>
      read_dones c' = (\<lambda>i. if i \<in> msg_id ` set (map wire ms) then None else read_dones c i)" for c'
    using rs by blast+
  have i: "msg_id ` set (map wire ms) = msg_id ` set ms"
    by (simp add: image_image wire_def)
  show ?thesis
  proof (rule exI [of _ b], rule exI, intro conjI)
    show "parseMsg onMsg exec c = Some (foldR (run_done exec) (matches (map wire ms) (read_dones c)) ?c)"
      unfolding p r(1) ..
    show "\<forall>d p. (d, p) \<in> set (matches (map wire ms) (read_dones c)) \<longrightarrow>
        p \<in> set (map wire ms) \<and> read_dones c (msg_id p) = Some d"
      using matches_sound by metis
    show "\<forall>c'. parseMsg onMsg exec c = Some (Inr c') \<longrightarrow>
        read_dones c' = (\<lambda>i. if i \<in> msg_id ` set ms then None else read_dones c i)"
      using r(2) unfolding p i by simp
  qed (rule refl, rule matches_distinct)
qed

lemma log_done_keeps [simp]: "keeps_read log_done"
  by (simp add: keeps_read_def log_done_def)

lemma replies_matched_witness:
  "\<exists>c. parseMsg log_msgs log_done ((sample_conn ConnectionByClient)\<lparr>read_dones := [''1'' \<mapsto> 4, ''2'' \<mapsto> 9],
        inputbuffer := \<lparr>buffer_vec = frame (sample_msg ''1'') @ frame (sample_msg ''1''),
          readIndex = 0, writeIndex = 78\<rparr>\<rparr>) = Some (Inr c)
    \<and> c_env c = [(4, [wire (sample_msg ''1'')])] \<and> read_dones c = [''2'' \<mapsto> 9]"
proof -
  let ?ms = "[sample_msg ''1'', sample_msg ''1'']"
  let ?b = "\<lparr>buffer_vec = frame (sample_msg ''1'') @ frame (sample_msg ''1''), readIndex = 0, writeIndex = 78\<rparr>"
  let ?c = "(sample_conn ConnectionByClient)\<lparr>read_dones := [''1'' \<mapsto> 4, ''2'' \<mapsto> 9], inputbuffer := ?b\<rparr>"
  have i: "msg_id (sample_msg ''1'') = ''1''" "msg_id (wire (sample_msg ''1'')) = ''1''"
    by (simp_all add: sample_msg_def wire_def)
  have "\<exists>b cs. parseMsg log_msgs log_done ?c = Some (foldR (run_done log_done) cs (?c\<lparr>inputbuffer := b\<rparr>))
    \<and> cs = matches (map wire ?ms) (read_dones ?c) \<and> distinct (map (\<lambda>(d, p). msg_id p) cs)
    \<and> (\<forall>d p. (d, p) \<in> set cs \<longrightarrow> p \<in> set (map wire ?ms) \<and> read_dones ?c (msg_id p) = Some d)
    \<and> (\<forall>c'. parseMsg log_msgs log_done ?c = Some (Inr c') \<longrightarrow>
        read_dones c' = (\<lambda>i. if i \<in> msg_id ` set ?ms then None else read_dones ?c i))"
    by (rule replies_matched)
      (simp_all add: sample_frame DECODE_MAX_def buffer_wf_def MAX_SIZE_def contents_def)
  then show ?thesis by (auto simp: i run_done_def log_done_def fun_eq_iff)
qed

section \<open>Sending\<close>

text \<open>
  The writing loop on answers that take \<open>ns\<close> bytes one after the other, then (if bytes are
  left) refuse.
\<close>

definition takes :: "(nat \<Rightarrow> write_answer) \<Rightarrow> nat \<Rightarrow> nat list \<Rightarrow> char list \<Rightarrow> bool" where
  "takes ans i ns d \<longleftrightarrow> (\<forall>n \<in> set ns. 0 < n) \<and> sum_list ns \<le> length d
    \<and> (\<forall>j < length ns. ans (i + j) = Written (ns ! j))
    \<and> (sum_list ns < length d \<longrightarrow> ans (i + length ns) = Write_error EAGAIN)"

lemma takes_Cons:
  "takes ans i (n # ns) d \<longleftrightarrow> 0 < n \<and> n \<le> length d \<and> ans i = Written n \<and> takes ans (Suc i) ns (drop n d)"
  by (auto simp: takes_def less_Suc_eq_0_disj nth_Cons')

definition told_sent :: "('d, 'k, 'u) conn \<Rightarrow> ('d, 'k, 'u) conn" where
  "told_sent c = (if sendCB c then c\<lparr>c_told := c_told c @ [Send_finished]\<rparr> else c)"

lemma write_loop_takes:
  assumes "buffer_wf (outputbuffer c)" "contents (outputbuffer c) = d" "d \<noteq> []" "takes ans i ns d"
  shows "\<exists>b. buffer_wf b \<and> contents b = drop (sum_list ns) d
    \<and> write_loop ctl ans i c = Some (if sum_list ns = length d
      then bindR (conn_disableWriting ctl (c\<lparr>c_sent := c_sent c @ take (sum_list ns) d, outputbuffer := b\<rparr>))
        (\<lambda>c. Inr (told_sent c))
      else Inr (c\<lparr>c_sent := c_sent c @ take (sum_list ns) d, outputbuffer := b\<rparr>))"
  using assms
proof (induction ns arbitrary: i c d)
  case Nil
  then have a: "ans i = Write_error EAGAIN" by (simp add: takes_def)
  have "readableBytes (outputbuffer c) \<noteq> 0"
    using Nil.prems by (simp add: readableBytes_wf)
  then have "write_loop ctl ans i c = Some (Inr (c\<lparr>c_sent := c_sent c, outputbuffer := outputbuffer c\<rparr>))"
    by (subst write_loop.simps) (simp add: a write_round_def writeFd_def Let_def)
  then show ?case using Nil.prems by (intro exI [of _ "outputbuffer c"]) auto
next
  case (Cons n ns)
  have n: "0 < n" "n \<le> length d" "ans i = Written n" "takes ans (Suc i) ns (drop n d)"
    using Cons.prems(4) unfolding takes_Cons by auto
  obtain b where "retrieve n (outputbuffer c) = Inr b"
    using retrieve_ok [OF Cons.prems(1)] n(2) Cons.prems(2) by blast
  then have b: "writeFd (Written n) (outputbuffer c) = Inr (int n, No_error, b)" "buffer_wf b"
    "contents b = drop n d"
    using retrieve_Inr [OF Cons.prems(1)] Cons.prems(2) by (auto simp: writeFd_def)
  let ?c = "c\<lparr>c_sent := c_sent c @ take n d, outputbuffer := b\<rparr>"
  show ?case
  proof (cases "drop n d = []")
    case True
    then have "n = length d" "ns = []"
      using n by (auto simp: takes_def) (metis gr_zeroI length_greater_0_conv less_nat_zero_code list.set_sel(1) member_le_sum_list not_less)
    moreover have "readableBytes b = 0" using b(2,3) True by (simp add: readableBytes_wf)
    ultimately show ?thesis using b Cons.prems(2) n(3)
      by (intro exI [of _ b], subst write_loop.simps) (simp add: write_round_def Let_def told_sent_def)
  next
    case False
    have "readableBytes b \<noteq> 0" using b(2,3) False by (simp add: readableBytes_wf)
    then have step: "write_loop ctl ans i c = write_loop ctl ans (Suc i) ?c"
      using b(1) Cons.prems(2) n(3) by (subst write_loop.simps) (simp add: write_round_def Let_def)
    obtain b' where "buffer_wf b'" "contents b' = drop (sum_list ns) (drop n d)"
      "write_loop ctl ans (Suc i) ?c = Some (if sum_list ns = length (drop n d)
        then bindR (conn_disableWriting ctl (?c\<lparr>c_sent := c_sent ?c @ take (sum_list ns) (drop n d), outputbuffer := b'\<rparr>))
          (\<lambda>c. Inr (told_sent c))
        else Inr (?c\<lparr>c_sent := c_sent ?c @ take (sum_list ns) (drop n d), outputbuffer := b'\<rparr>))"
      using Cons.IH [of ?c "drop n d" "Suc i"] b(2,3) False n(4) by auto
    moreover have "take (n + sum_list ns) d = take n d @ take (sum_list ns) (drop n d)"
      by (rule take_add)
    moreover have "sum_list ns = length (drop n d) \<longleftrightarrow> n + sum_list ns = length d" using n(2) by auto
    ultimately show ?thesis unfolding step by (intro exI [of _ b']) (simp add: add.commute)
  qed
qed

text \<open>
  A writable connection hands its output buffer to the kernel in order, without loss or
  repetition, however few bytes the kernel takes at a time: with the pieces the kernel
  took the loop ends, the bytes sent are a prefix of the buffer and the rest stays in it.
  When everything is sent, writing is disabled and the owner is told; when the kernel
  refuses more, the connection waits for the next event.
\<close>

theorem sendMessage_writes:
  assumes "\<not> disConnect c" "(if c_type c = ConnectionByClient then flush_requests exec c else Inr c) = Inr c0"
    "buffer_wf (outputbuffer c0)" "contents (outputbuffer c0) = d" "d \<noteq> []" "takes ans 0 ns d"
  shows "\<exists>b. contents b = drop (sum_list ns) d \<and> sendMessage ctl exec ans c = Some (
      if sum_list ns = length d
      then bindR (conn_disableWriting ctl (c0\<lparr>c_sent := c_sent c0 @ d, outputbuffer := b\<rparr>)) (\<lambda>c. Inr (told_sent c))
      else Inr (c0\<lparr>c_sent := c_sent c0 @ take (sum_list ns) d, outputbuffer := b\<rparr>))"
proof -
  have "sendMessage ctl exec ans c = write_loop ctl ans 0 c0"
    using assms(1,2) by (simp add: sendMessage_def del: if_split)
  then show ?thesis using write_loop_takes [OF assms(3-6), of ctl] by (auto cong: if_cong)
qed

lemma sendMessage_writes_witness:
  "\<exists>c. sendMessage map_ctl log_done (\<lambda>i. if i = 0 then Written 2 else Written 1)
      ((sample_conn ConnectionByServer)\<lparr>outputbuffer := \<lparr>buffer_vec = ''abc'', readIndex = 0, writeIndex = 3\<rparr>\<rparr>)
      = Some (Inr c) \<and> c_sent c = ''abc'' \<and> c_told c = [Send_finished]"
proof -
  let ?c = "(sample_conn ConnectionByServer)\<lparr>outputbuffer := \<lparr>buffer_vec = ''abc'', readIndex = 0, writeIndex = 3\<rparr>\<rparr>"
  have "\<exists>b. contents b = drop (sum_list [2, 1]) ''abc''
    \<and> sendMessage map_ctl log_done (\<lambda>i. if i = 0 then Written 2 else Written 1) ?c = Some (
      if sum_list [2, 1] = length ''abc''
      then bindR (conn_disableWriting map_ctl (?c\<lparr>c_sent := c_sent ?c @ ''abc'', outputbuffer := b\<rparr>)) (\<lambda>c. Inr (told_sent c))
      else Inr (?c\<lparr>c_sent := c_sent ?c @ take (sum_list [2, 1]) ''abc'', outputbuffer := b\<rparr>))"
    by (rule sendMessage_writes [where c0 = ?c])
      (simp_all add: buffer_wf_def MAX_SIZE_def contents_def takes_def less_Suc_eq numeral_2_eq_2)
  then show ?thesis
    by (auto simp: conn_disableWriting_def on_channel_def disableWriting_def setChannel_def sample_conn_def
        Connection_new_def Channel_new_def useET_def told_sent_def)
qed

text \<open>
  A write error other than \<open>EAGAIN\<close> that persists (a reset connection, say) makes
  \<open>sendMessage\<close> spin: the loop has no other exit while bytes are left, so the event loop's
  thread never returns from the handler.
\<close>

theorem sendMessage_spins:
  assumes "\<not> disConnect c" "c_type c = ConnectionByServer" "buffer_wf (outputbuffer c)"
    "contents (outputbuffer c) \<noteq> []" "e \<noteq> EAGAIN"
  shows "sendMessage ctl exec (\<lambda>_. Write_error e) c = None"
proof -
  have none: "r = None" if w: "write_loop ctl ans i c' = r" "ans = (\<lambda>_. Write_error e)"
    "outputbuffer c' = outputbuffer c" for r ans i c'
  proof (rule ccontr)
    assume "r \<noteq> None"
    then obtain x where "write_loop ctl ans i c' = Some x" using w(1) by auto
    then have "ans = (\<lambda>_. Write_error e) \<longrightarrow> outputbuffer c' = outputbuffer c \<longrightarrow> False"
    proof (rule write_loop.raw_induct [where P = "\<lambda>ctl ans i c' x. ans = (\<lambda>_. Write_error e) \<longrightarrow>
        outputbuffer c' = outputbuffer c \<longrightarrow> False", rotated], intro impI)
      fix loop ctl ans i c' x
      assume IH: "\<And>ctl ans i c' x. loop ctl ans i c' = Some x \<Longrightarrow> ans = (\<lambda>_. Write_error e) \<longrightarrow>
          outputbuffer c' = outputbuffer c \<longrightarrow> False"
        and s: "(case write_round ctl (ans i) c' of Inl r \<Rightarrow> Some r | Inr c \<Rightarrow> loop ctl ans (Suc i) c) = Some x"
        and a: "ans = (\<lambda>_. Write_error e)" "outputbuffer c' = outputbuffer c"
      have "readableBytes (outputbuffer c) \<noteq> 0" using assms by (simp add: readableBytes_wf)
      then have "write_round ctl (ans i) c' = Inr (c'\<lparr>c_sent := c_sent c', outputbuffer := outputbuffer c\<rparr>)"
        using a assms(5) by (simp add: write_round_def writeFd_def Let_def)
      then have "loop ctl ans (Suc i) (c'\<lparr>c_sent := c_sent c', outputbuffer := outputbuffer c\<rparr>) = Some x"
        using s by simp
      from IH [OF this] a show False by simp
    qed
    then show False using w by simp
  qed
  from none [OF refl refl refl] show ?thesis using assms(1,2) by (simp add: sendMessage_def)
qed

lemma sendMessage_spins_witness:
  "sendMessage map_ctl log_done (\<lambda>_. Write_error (Other_errno 104))
    ((sample_conn ConnectionByServer)\<lparr>outputbuffer := \<lparr>buffer_vec = ''abc'', readIndex = 0, writeIndex = 3\<rparr>\<rparr>) = None"
  by (rule sendMessage_spins) (simp_all add: buffer_wf_def MAX_SIZE_def contents_def)

end
