(* ===== verification/Strings.thy ===== *)
theory Strings
  imports Prelude Complex_Main
begin

text \<open>
  The string services of the C++ library the code uses: \<open>std::to_string\<close> on integers and
  on \<open>double\<close>, \<open>std::stoi\<close>, \<open>std::stod\<close>, and the loop over \<open>std::getline\<close> with a separator
  that keeps the non-empty parts (three copies of it are in RpcServerList.cpp). A
  \<open>double\<close> is modelled by a real number: rounding to 53 bits is not modelled, nor are
  infinities and NaN, so the spellings of these (and hexadecimal floats) are rejected
  by \<open>stod\<close> like any other text that is no number.
\<close>

section \<open>Decimal digits\<close>

definition is_digit :: "char \<Rightarrow> bool" where
  "is_digit c \<longleftrightarrow> 48 \<le> (of_char c :: nat) \<and> (of_char c :: nat) \<le> 57"

definition digit_val :: "char \<Rightarrow> nat" where "digit_val c = of_char c - 48"

definition digit_char :: "nat \<Rightarrow> char" where "digit_char d = char_of (48 + d)"

definition dec_val :: "string \<Rightarrow> nat" where
  "dec_val s = foldl (\<lambda>n c. 10 * n + digit_val c) 0 s"

fun nat_str :: "nat \<Rightarrow> string" where
  "nat_str n = (if n < 10 then [digit_char n]
    else nat_str (n div 10) @ [digit_char (n mod 10)])"

declare nat_str.simps [simp del]

definition to_string :: "int \<Rightarrow> string" where
  "to_string i = (if i < 0 then CHR ''-'' # nat_str (nat (- i)) else nat_str (nat i))"

lemma of_char_digit_char [simp]: "d < 10 \<Longrightarrow> (of_char (digit_char d) :: nat) = 48 + d"
  by (simp add: digit_char_def)

lemma is_digit_digit_char [simp]: "d < 10 \<Longrightarrow> is_digit (digit_char d)"
  by (simp add: is_digit_def)

lemma digit_val_digit_char [simp]: "d < 10 \<Longrightarrow> digit_val (digit_char d) = d"
  by (simp add: digit_val_def)

lemma digit_char_digit_val [simp]:
  assumes "is_digit c"
  shows "digit_char (digit_val c) = c"
proof -
  have "(48::nat) \<le> of_char c"
    using assms by (simp add: is_digit_def)
  then show ?thesis
    by (simp add: digit_char_def digit_val_def)
qed

lemma digit_chars [simp]:
  "digit_char 0 = CHR ''0''" "digit_char (Suc 0) = CHR ''1''" "digit_char 1 = CHR ''1''"
  "digit_char 2 = CHR ''2''" "digit_char 3 = CHR ''3''" "digit_char 4 = CHR ''4''"
  "digit_char 5 = CHR ''5''" "digit_char 6 = CHR ''6''" "digit_char 7 = CHR ''7''"
  "digit_char 8 = CHR ''8''" "digit_char 9 = CHR ''9''"
  by code_simp+

lemma digit_val_less: "is_digit c \<Longrightarrow> digit_val c < 10"
  by (auto simp: is_digit_def digit_val_def)

lemma digit_val_inj: "is_digit c \<Longrightarrow> is_digit d \<Longrightarrow> digit_val c = digit_val d \<longleftrightarrow> c = d"
  by (metis digit_char_digit_val)

lemma dec_val_Nil [simp]: "dec_val [] = 0"
  by (simp add: dec_val_def)

lemma dec_val_snoc [simp]: "dec_val (s @ [c]) = 10 * dec_val s + digit_val c"
  by (simp add: dec_val_def)

lemma dec_val_append: "dec_val (s @ t) = dec_val s * 10 ^ length t + dec_val t"
proof (induction t rule: rev_induct)
  case (snoc c t)
  have "dec_val (s @ t @ [c]) = 10 * dec_val (s @ t) + digit_val c"
    by (simp flip: append_assoc)
  then show ?case using snoc by (simp add: algebra_simps)
qed simp

lemma dec_val_Cons: "dec_val (c # t) = digit_val c * 10 ^ length t + dec_val t"
  using dec_val_append [of "[c]" t] by (simp add: dec_val_def)

lemma dec_val_less: "\<forall>c\<in>set s. is_digit c \<Longrightarrow> dec_val s < 10 ^ length s"
proof (induction s rule: rev_induct)
  case (snoc c s)
  have "digit_val c < 10" "dec_val s < 10 ^ length s"
    using snoc by (auto intro: digit_val_less)
  then show ?case by simp
qed simp

lemma dec_val_replicate_0 [simp]: "dec_val (replicate n (CHR ''0'')) = 0"
  by (induction n) (auto simp: dec_val_Cons digit_val_def)

lemma dec_val_replicate_9: "dec_val (replicate n (CHR ''9'')) = 10 ^ n - 1"
proof (induction n)
  case (Suc n)
  have "1 \<le> (10::nat) ^ n" by simp
  then show ?case using Suc by (simp add: dec_val_Cons digit_val_def)
qed simp

lemma nat_str_digits: "\<forall>c\<in>set (nat_str n). is_digit c"
  by (induction n rule: nat_str.induct) (subst nat_str.simps, auto)

lemma nat_str_not_Nil [simp]: "nat_str n \<noteq> []"
  by (subst nat_str.simps) simp

lemma dec_val_nat_str [simp]: "dec_val (nat_str n) = n"
proof (induction n rule: nat_str.induct)
  case (1 n)
  show ?case
  proof (cases "n < 10")
    case True
    then show ?thesis by (simp add: nat_str.simps dec_val_Cons)
  next
    case False
    then show ?thesis using 1 by (subst nat_str.simps) simp
  qed
qed

lemma nat_str_inj: "nat_str m = nat_str n \<longleftrightarrow> m = n"
  by (metis dec_val_nat_str)

lemma not_in_nat_str: "\<not> is_digit c \<Longrightarrow> c \<notin> set (nat_str n)"
  using nat_str_digits by blast

lemma not_in_to_string: "\<not> is_digit c \<Longrightarrow> c \<noteq> CHR ''-'' \<Longrightarrow> c \<notin> set (to_string i)"
  by (auto simp: to_string_def not_in_nat_str)

lemma to_string_not_Nil [simp]: "to_string i \<noteq> []"
  by (simp add: to_string_def)

section \<open>Integers and doubles from text\<close>

definition is_space :: "char \<Rightarrow> bool" where
  "is_space c \<longleftrightarrow> c = CHR '' '' \<or> (9 \<le> (of_char c :: nat) \<and> (of_char c :: nat) \<le> 13)"

fun take_sign :: "string \<Rightarrow> bool \<times> string" where
  "take_sign [] = (False, [])"
| "take_sign (c # s) = (if c = CHR ''-'' then (True, s)
    else if c = CHR ''+'' then (False, s) else (False, c # s))"

definition stoi :: "string \<Rightarrow> int res" where
  "stoi s = (let (neg, t) = take_sign (dropWhile is_space s); ds = takeWhile is_digit t;
      v = (if neg then - int (dec_val ds) else int (dec_val ds))
    in if ds = [] then Inl Invalid_argument
       else if v < INT_MIN \<or> INT_MAX < v then Inl Out_of_range
       else Inr v)"

text \<open>The exponent part of a decimal float: \<open>0\<close> when there is none.\<close>

definition exponent :: "string \<Rightarrow> int" where
  "exponent s = (case s of [] \<Rightarrow> 0
    | c # t \<Rightarrow> if c = CHR ''e'' \<or> c = CHR ''E''
        then let (neg, u) = take_sign t; ds = takeWhile is_digit u
             in if neg then - int (dec_val ds) else int (dec_val ds)
        else 0)"

definition scale10 :: "real \<Rightarrow> int \<Rightarrow> real" where
  "scale10 x e = (if 0 \<le> e then x * 10 ^ nat e else x / 10 ^ nat (- e))"

definition stod :: "string \<Rightarrow> real res" where
  "stod s = (let (neg, t) = take_sign (dropWhile is_space s);
      ip = takeWhile is_digit t; r1 = dropWhile is_digit t;
      (fp, r2) = (case r1 of [] \<Rightarrow> ([], [])
        | c # u \<Rightarrow> if c = CHR ''.'' then (takeWhile is_digit u, dropWhile is_digit u)
                   else ([], c # u));
      m = scale10 (real (dec_val (ip @ fp))) (exponent r2 - int (length fp))
    in if ip = [] \<and> fp = [] then Inl Invalid_argument
       else if 2 ^ 1024 \<le> m then Inl Out_of_range
       else Inr (if neg then - m else m))"

text \<open>
  \<open>std::to_string(double)\<close> prints with \<open>"%f"\<close>: six decimals, a tie going to the even
  last digit.
\<close>

definition round_even :: "real \<Rightarrow> int" where
  "round_even x = (let f = \<lfloor>x\<rfloor>; d = x - of_int f in
    if d < 1 / 2 then f else if 1 / 2 < d then f + 1 else if even f then f else f + 1)"

fun pad0 :: "nat \<Rightarrow> string \<Rightarrow> string" where
  "pad0 n s = replicate (n - length s) (CHR ''0'') @ s"

definition to_string_double :: "real \<Rightarrow> string" where
  "to_string_double x = (let m = nat (round_even (\<bar>x\<bar> * 1000000)) in
    (if x < 0 then [CHR ''-''] else []) @ nat_str (m div 1000000) @ [CHR ''.'']
      @ pad0 6 (nat_str (m mod 1000000)))"

section \<open>Splitting at a separator\<close>

text \<open>
  The loop \<open>while (getline(s, part, d)) if (!part.empty()) parts.push_back(part);\<close>. The
  call fails once the stream is exhausted; a last part without a separator behind it
  is still delivered.
\<close>

function nonempty_parts :: "char \<Rightarrow> string \<Rightarrow> string list" where
  "nonempty_parts d s = (if s = [] then [] else
    let part = takeWhile (\<lambda>c. c \<noteq> d) s; rest = tl (dropWhile (\<lambda>c. c \<noteq> d) s)
    in (if part = [] then [] else [part]) @ nonempty_parts d rest)"
  by pat_completeness auto
termination
proof (relation "measure (\<lambda>(d, s). length s)")
  fix d :: char and s part rest :: string
  assume "s \<noteq> []" "rest = tl (dropWhile (\<lambda>c. c \<noteq> d) s)"
  moreover have "length (dropWhile (\<lambda>c. c \<noteq> d) s) \<le> length s"
    by (rule length_dropWhile_le)
  moreover have "0 < length s" using \<open>s \<noteq> []\<close> by simp
  ultimately have "length rest < length s" by (simp only: length_tl)
  then show "((d, rest), d, s) \<in> measure (\<lambda>(d, s). length s)" by simp
qed simp

declare nonempty_parts.simps [simp del]

lemma nonempty_parts_Nil [simp]: "nonempty_parts d [] = []"
  by (simp add: nonempty_parts.simps)

lemma takeWhile_to_sep: "d \<notin> set p \<Longrightarrow> takeWhile (\<lambda>c. c \<noteq> d) (p @ d # s) = p"
  by (induction p) auto

lemma dropWhile_to_sep: "d \<notin> set p \<Longrightarrow> dropWhile (\<lambda>c. c \<noteq> d) (p @ d # s) = d # s"
  by (induction p) auto

lemma nonempty_parts_sep:
  "d \<notin> set p \<Longrightarrow> nonempty_parts d (p @ d # s) =
    (if p = [] then [] else [p]) @ nonempty_parts d s"
  by (subst nonempty_parts.simps) (auto simp: takeWhile_to_sep dropWhile_to_sep)

lemma nonempty_parts_last:
  "d \<notin> set p \<Longrightarrow> nonempty_parts d p = (if p = [] then [] else [p])"
proof -
  assume "d \<notin> set p"
  then have e: "takeWhile (\<lambda>c. c \<noteq> d) p = p" "dropWhile (\<lambda>c. c \<noteq> d) p = []"
    by (auto simp: takeWhile_eq_all_conv dropWhile_eq_Nil_conv)
  show ?thesis by (subst nonempty_parts.simps) (simp only: e Let_def, simp)
qed

lemma nonempty_parts_lead: "nonempty_parts d (d # s) = nonempty_parts d s"
  using nonempty_parts_sep [of d "[]" s] by simp

section \<open>What is printed reads back\<close>

lemma takeWhile_digits_append:
  "\<forall>c\<in>set p. is_digit c \<Longrightarrow> takeWhile is_digit (p @ q) = p @ takeWhile is_digit q"
  by (simp add: takeWhile_append2)

lemma digit_not_space: "is_digit c \<Longrightarrow> \<not> is_space c"
  by (auto simp: is_digit_def is_space_def)

lemma digit_not_sign: "is_digit c \<Longrightarrow> c \<noteq> CHR ''-'' \<and> c \<noteq> CHR ''+'' \<and> c \<noteq> CHR ''.''"
  by (auto simp: is_digit_def)

lemma dropWhile_space_digits:
  assumes "\<forall>c\<in>set p. is_digit c" "p \<noteq> []"
  shows "dropWhile is_space (p @ q) = p @ q" "take_sign (p @ q) = (False, p @ q)"
  using assms by (cases p; auto simp: digit_not_space dest: digit_not_sign)+

lemma not_digit_minus [simp]: "\<not> is_digit (CHR ''-'')"
  by (simp add: is_digit_def)

lemma not_digit_dot [simp]: "\<not> is_digit (CHR ''.'')"
  by (simp add: is_digit_def)

lemma not_digit_colon [simp]: "\<not> is_digit (CHR '':'')"
  by (simp add: is_digit_def)

lemma not_digit_slash [simp]: "\<not> is_digit (CHR ''/'')"
  by (simp add: is_digit_def)

lemma not_digit_underscore [simp]: "\<not> is_digit (CHR ''_'')"
  by (simp add: is_digit_def)

lemma takeWhile_nat_str [simp]: "takeWhile is_digit (nat_str n) = nat_str n"
  using nat_str_digits by (simp add: takeWhile_eq_all_conv)

lemma stoi_to_string:
  assumes "INT_MIN \<le> i" "i \<le> INT_MAX"
  shows "stoi (to_string i) = Inr i"
proof (cases "i < 0")
  case True
  have "dropWhile is_space (CHR ''-'' # nat_str (nat (- i))) = CHR ''-'' # nat_str (nat (- i))"
    by (simp add: is_space_def)
  then show ?thesis
    using True assms by (simp add: stoi_def to_string_def not_less)
next
  case False
  then show ?thesis
    using assms dropWhile_space_digits [OF nat_str_digits nat_str_not_Nil, of "nat i" "[]"]
    by (simp add: stoi_def to_string_def not_less)
qed

lemma round_even_nonneg: "0 \<le> x \<Longrightarrow> 0 \<le> round_even x"
  by (simp add: round_even_def Let_def)

lemma round_even_error: "\<bar>of_int (round_even x) - x\<bar> \<le> 1 / 2"
proof -
  have "of_int \<lfloor>x\<rfloor> \<le> x" "x < of_int \<lfloor>x\<rfloor> + 1" by linarith+
  then show ?thesis unfolding round_even_def Let_def
    by (simp only: split: if_split) linarith
qed

lemma pad0_digits: "\<forall>c\<in>set (pad0 n (nat_str m)). is_digit c"
  using nat_str_digits by (auto simp: is_digit_def)

lemma dec_val_pad0 [simp]: "dec_val (pad0 n s) = dec_val s"
  by (simp add: dec_val_append)

lemma nat_str_length: "n < 10 ^ k \<Longrightarrow> 0 < k \<Longrightarrow> length (nat_str n) \<le> k"
proof (induction n arbitrary: k rule: nat_str.induct)
  case (1 n)
  show ?case
  proof (cases "n < 10")
    case True
    then show ?thesis using 1 by (simp add: nat_str.simps)
  next
    case False
    then obtain j where k: "k = Suc j" "0 < j"
      using 1 by (cases k; cases "k - 1") auto
    then have "n div 10 < 10 ^ j"
      using 1 by (simp add: less_mult_imp_div_less mult.commute)
    then have "length (nat_str (n div 10)) \<le> j"
      using 1 False k by blast
    then show ?thesis
      using False k by (subst nat_str.simps) simp
  qed
qed

lemma length_pad0: "n < 10 ^ k \<Longrightarrow> 0 < k \<Longrightarrow> length (pad0 k (nat_str n)) = k"
  using nat_str_length by simp

lemma stod_to_string_double:
  assumes "0 \<le> x" "x \<le> 10 ^ 300"
  shows "stod (to_string_double x) = Inr (of_int (round_even (x * 1000000)) / 1000000)"
proof -
  define m where "m = nat (round_even (x * 1000000))"
  define ip fp where "ip = nat_str (m div 1000000)" and "fp = pad0 6 (nat_str (m mod 1000000))"
  have ds: "\<forall>c\<in>set ip. is_digit c" "\<forall>c\<in>set fp. is_digit c" "ip \<noteq> []"
    unfolding ip_def fp_def using nat_str_digits pad0_digits by auto
  have len: "length fp = 6" unfolding fp_def by (intro length_pad0) auto
  have s: "to_string_double x = ip @ CHR ''.'' # fp"
    using assms by (simp add: to_string_double_def Let_def m_def ip_def fp_def)
  have m0: "0 \<le> round_even (x * 1000000)" using assms by (intro round_even_nonneg) simp
  then have m: "real m = of_int (round_even (x * 1000000))" by (simp add: m_def)
  have "real m \<le> x * 1000000 + 1 / 2"
    using round_even_error [of "x * 1000000"] m by linarith
  then have b: "real m / 1000000 < 2 ^ 1024" using assms by simp
  have v: "dec_val (ip @ fp) = m"
    by (subst dec_val_append) (simp add: len, simp add: ip_def fp_def del: pad0.simps)
  have tw: "takeWhile is_digit (ip @ CHR ''.'' # fp) = ip"
    "dropWhile is_digit (ip @ CHR ''.'' # fp) = CHR ''.'' # fp"
    "takeWhile is_digit fp = fp" "dropWhile is_digit fp = []"
    using ds by (auto simp: takeWhile_digits_append takeWhile_eq_all_conv dropWhile_append2)
  show ?thesis
    using b ds(3) len v m dropWhile_space_digits [OF ds(1) ds(3)]
    by (simp add: s stod_def tw scale10_def exponent_def)
qed

end
