(* ===== verification/ServerNode.thy ===== *)
theory ServerNode
  imports Strings "HOL-Library.Multiset" "HOL-Library.AList"
begin

text \<open>
  The per-service table of server nodes, \<open>src/common/ServerNode.h\<close>: a priority queue of
  shared pointers ordered by CPU usage, a map from \<open>ip:port\<close> to the current pointer, and
  lazy deletion (a replaced or removed node stays in the queue until it comes to the top
  or the queue is rebuilt). A shared pointer is an allocation number with the node it
  points to; nodes are never written after their allocation. The \<open>std::priority_queue\<close>
  is a list ordered by CPU usage, of which the model uses the laws of the locale
  \<open>min_queue\<close> only: which of several least elements is on top is left open by the
  standard. The entries of the \<open>std::unordered_map\<close> are an association list, whose order
  is the iteration order.
\<close>

section \<open>The priority queue\<close>

locale min_queue =
  fixes key_of :: "'a \<Rightarrow> real"
    and empty_q :: "'q"
    and is_empty_q :: "'q \<Rightarrow> bool"
    and push_q :: "'a \<Rightarrow> 'q \<Rightarrow> 'q"
    and top_q :: "'q \<Rightarrow> 'a"
    and pop_q :: "'q \<Rightarrow> 'q"
    and elems :: "'q \<Rightarrow> 'a multiset"
    and ok :: "'q \<Rightarrow> bool"
  assumes empty_ok: "ok empty_q"
    and empty_elems: "elems empty_q = {#}"
    and is_empty_iff: "ok h \<Longrightarrow> is_empty_q h \<longleftrightarrow> elems h = {#}"
    and push_ok: "ok h \<Longrightarrow> ok (push_q x h)"
    and push_elems: "ok h \<Longrightarrow> elems (push_q x h) = add_mset x (elems h)"
    and pop_ok: "ok h \<Longrightarrow> \<not> is_empty_q h \<Longrightarrow> ok (pop_q h)"
    and pop_elems: "ok h \<Longrightarrow> \<not> is_empty_q h \<Longrightarrow> elems h = add_mset (top_q h) (elems (pop_q h))"
    and top_least: "ok h \<Longrightarrow> \<not> is_empty_q h \<Longrightarrow> x \<in># elems h \<Longrightarrow> key_of (top_q h) \<le> key_of x"
begin

lemma push_all:
  "ok h \<Longrightarrow> ok (fold push_q xs h) \<and> elems (fold push_q xs h) = elems h + mset xs"
  by (induction xs arbitrary: h) (auto simp: push_ok push_elems)

text \<open>Popping elements that are not wanted keeps the wanted ones.\<close>

lemma pop_unwanted:
  "ok h \<Longrightarrow> \<not> is_empty_q h \<Longrightarrow> \<not> P (top_q h) \<Longrightarrow>
    filter_mset P (elems (pop_q h)) = filter_mset P (elems h)"
  using pop_elems [of h] by simp

lemma top_least_wanted:
  "ok h \<Longrightarrow> \<not> is_empty_q h \<Longrightarrow> x \<in># filter_mset P (elems h) \<Longrightarrow> key_of (top_q h) \<le> key_of x"
  using top_least by simp

lemma size_pop: "ok h \<Longrightarrow> \<not> is_empty_q h \<Longrightarrow> size (elems h) = Suc (size (elems (pop_q h)))"
  using pop_elems [of h] by simp

end

section \<open>The table\<close>

record server_node =
  cpu_usage :: real
  ip :: string
  port :: int

type_synonym node_ptr = "nat \<times> server_node"

definition addr_key :: "string \<Rightarrow> int \<Rightarrow> string" where
  "addr_key i p = i @ '':'' @ to_string p"

definition node_key :: "server_node \<Rightarrow> string" where
  "node_key n = addr_key (ip n) (port n)"

definition node_gt :: "server_node \<Rightarrow> server_node \<Rightarrow> bool" where
  "node_gt a b \<longleftrightarrow> cpu_usage b < cpu_usage a"

fun heap_push :: "node_ptr \<Rightarrow> node_ptr list \<Rightarrow> node_ptr list" where
  "heap_push p [] = [p]"
| "heap_push p (q # h) = (if node_gt (snd p) (snd q) then q # heap_push p h else p # q # h)"

record server_nodes =
  minHeap :: "node_ptr list"
  nodeMap :: "(string \<times> node_ptr) list"
  staleCount :: nat
  next_ptr :: nat

definition staleCountThreshold :: nat where "staleCountThreshold = 100"

definition ServerNodeManager_new :: server_nodes where
  "ServerNodeManager_new = \<lparr>minHeap = [], nodeMap = [], staleCount = 0, next_ptr = 0\<rparr>"

definition removeNodeInternal :: "string \<Rightarrow> server_nodes \<Rightarrow> bool \<times> server_nodes" where
  "removeNodeInternal key s = (case map_of (nodeMap s) key of
      None \<Rightarrow> (False, s)
    | Some _ \<Rightarrow> (True, s\<lparr>nodeMap := AList.delete key (nodeMap s),
                         staleCount := staleCount s + 1\<rparr>))"

definition rebuildHeap :: "server_nodes \<Rightarrow> server_nodes" where
  "rebuildHeap s = s\<lparr>minHeap := fold heap_push (map snd (nodeMap s)) [], staleCount := 0\<rparr>"

definition upsertNode :: "server_node \<Rightarrow> server_nodes \<Rightarrow> server_nodes" where
  "upsertNode node s = (let newNode = (next_ptr s, node); key = node_key node;
      s1 = snd (removeNodeInternal key s);
      s2 = s1\<lparr>minHeap := heap_push newNode (minHeap s1),
              nodeMap := AList.update key newNode (nodeMap s1),
              next_ptr := Suc (next_ptr s)\<rparr>
    in if staleCountThreshold \<le> staleCount s2 \<and> minHeap s2 \<noteq> [] then rebuildHeap s2 else s2)"

definition removeNode :: "string \<Rightarrow> int \<Rightarrow> server_nodes \<Rightarrow> bool \<times> server_nodes" where
  "removeNode i p s = removeNodeInternal (addr_key i p) s"

definition nodes_size :: "server_nodes \<Rightarrow> nat" where "nodes_size s = length (nodeMap s)"

text \<open>The loop of \<open>getLowestCPUNode\<close>: pop until the top is the current node of its key.\<close>

fun settle :: "(string \<times> node_ptr) list \<Rightarrow> node_ptr list \<Rightarrow> node_ptr option \<times> node_ptr list" where
  "settle m [] = (None, [])"
| "settle m (t # h) = (if map_of m (node_key (snd t)) = Some t then (Some t, t # h)
    else settle m h)"

definition getLowestCPUNode :: "server_nodes \<Rightarrow> server_node option \<times> server_nodes" where
  "getLowestCPUNode s = (let (r, h) = settle (nodeMap s) (minHeap s)
    in (map_option snd r, s\<lparr>minHeap := h\<rparr>))"

section \<open>Keys\<close>

lemma addr_key_inj: "addr_key i p = addr_key i' p' \<longleftrightarrow> i = i' \<and> to_string p = to_string p'"
proof
  assume e: "addr_key i p = addr_key i' p'"
  have t: "takeWhile (\<lambda>c. c \<noteq> CHR '':'') (rev (addr_key j q)) = rev (to_string q)" for j q
    by (simp add: addr_key_def takeWhile_to_sep not_in_to_string)
  have "rev (to_string p) = rev (to_string p')"
    using t [of i p] t [of i' p'] by (simp only: e)
  then show "i = i' \<and> to_string p = to_string p'"
    using e by (simp add: addr_key_def)
qed (simp add: addr_key_def)

lemma to_string_inj: "to_string i = to_string j \<longleftrightarrow> i = j"
proof
  assume e: "to_string i = to_string j"
  have m: "CHR ''-'' \<notin> set (nat_str k)" for k by (simp add: not_in_nat_str)
  have "hd (nat_str k) \<noteq> CHR ''-''" for k
    using m [of k] by (metis hd_in_set nat_str_not_Nil)
  then show "i = j"
    using e by (auto simp: to_string_def nat_str_inj split: if_splits) (metis list.sel(1))+
qed simp

lemma node_key_iff: "node_key m = node_key n \<longleftrightarrow> ip m = ip n \<and> port m = port n"
  by (simp add: node_key_def addr_key_inj to_string_inj)

section \<open>The queue obeys the laws\<close>

definition heap_ok :: "node_ptr list \<Rightarrow> bool" where
  "heap_ok h \<longleftrightarrow> sorted (map (cpu_usage \<circ> snd) h)"

lemma mset_heap_push [simp]: "mset (heap_push p h) = add_mset p (mset h)"
  by (induction h) auto

lemma set_heap_push [simp]: "set (heap_push p h) = insert p (set h)"
  by (metis mset_heap_push set_mset_add_mset_insert set_mset_mset)

lemma length_heap_push [simp]: "length (heap_push p h) = Suc (length h)"
  by (induction h) auto

lemma heap_push_ok: "heap_ok h \<Longrightarrow> heap_ok (heap_push p h)"
  by (induction h) (auto simp: heap_ok_def node_gt_def not_less intro: order_trans less_imp_le)

lemma heap_ok_simps [simp]: "heap_ok []"
  "heap_ok (p # h) \<longleftrightarrow> heap_ok h \<and> (\<forall>q \<in> set h. cpu_usage (snd p) \<le> cpu_usage (snd q))"
  by (auto simp: heap_ok_def)

lemma heap_hd_least: "heap_ok h \<Longrightarrow> q \<in> set h \<Longrightarrow> cpu_usage (snd (hd h)) \<le> cpu_usage (snd q)"
  by (cases h) auto

interpretation nq: min_queue "\<lambda>p :: node_ptr. cpu_usage (snd p)" "[]" "\<lambda>h. h = []" heap_push hd tl mset heap_ok
proof
  show "heap_ok (tl h)" if "heap_ok h" "h \<noteq> []" for h using that by (cases h) auto
  show "mset h = add_mset (hd h) (mset (tl h))" if "h \<noteq> []" for h :: "node_ptr list"
    using that by (cases h) auto
qed (auto simp: heap_push_ok heap_hd_least)

section \<open>Invariant\<close>

definition nodes_wf :: "server_nodes \<Rightarrow> bool" where
  "nodes_wf s \<longleftrightarrow> heap_ok (minHeap s) \<and> distinct (map fst (nodeMap s))
    \<and> (\<forall>(k, p) \<in> set (nodeMap s). k = node_key (snd p) \<and> p \<in> set (minHeap s))
    \<and> (\<forall>p \<in> set (minHeap s). fst p < next_ptr s)
    \<and> length (minHeap s) \<le> length (nodeMap s) + staleCount s"

text \<open>The abstraction: the current node of each key.\<close>

definition live :: "server_nodes \<Rightarrow> string \<Rightarrow> server_node option" where
  "live s k = map_option snd (map_of (nodeMap s) k)"

lemma length_delete:
  "distinct (map fst m) \<Longrightarrow> k \<in> fst ` set m \<Longrightarrow> length m = Suc (length (AList.delete k m))"
proof (induction m)
  case (Cons a m)
  then show ?case by (cases "fst a = k") auto
qed simp

lemma set_delete: "set (AList.delete k m) = {(k', v). (k', v) \<in> set m \<and> k' \<noteq> k}"
  by (induction m) auto

lemma update_fresh: "map_of m k = None \<Longrightarrow> AList.update k v m = m @ [(k, v)]"
  by (induction m) (auto split: if_splits)

lemma removeNodeInternal_live:
  assumes "nodes_wf s" "removeNodeInternal k s = (b, s')"
  shows "nodes_wf s'" "live s' = (live s)(k := None)" "b \<longleftrightarrow> k \<in> dom (live s)"
    "map_of (nodeMap s') k = None" "minHeap s' = minHeap s" "next_ptr s' = next_ptr s"
proof -
  have "nodes_wf s' \<and> live s' = (live s)(k := None) \<and> (b \<longleftrightarrow> k \<in> dom (live s))
    \<and> map_of (nodeMap s') k = None \<and> minHeap s' = minHeap s \<and> next_ptr s' = next_ptr s"
  proof (cases "map_of (nodeMap s) k")
    case None
    then have "s' = s" "\<not> b" using assms by (auto simp: removeNodeInternal_def)
    then show ?thesis using assms None by (auto simp: live_def fun_eq_iff)
  next
    case (Some p)
    then have s': "s' = s\<lparr>nodeMap := AList.delete k (nodeMap s), staleCount := staleCount s + 1\<rparr>" "b"
      using assms by (auto simp: removeNodeInternal_def)
    have l: "length (nodeMap s) = Suc (length (AList.delete k (nodeMap s)))"
      using assms map_of_SomeD [OF Some]
      by (intro length_delete) (auto simp: nodes_wf_def intro: rev_image_eqI)
    have "nodes_wf s'"
      using assms l by (auto simp: nodes_wf_def s' AList.distinct_delete set_delete)
    then show ?thesis
      using Some by (auto simp: s' live_def fun_eq_iff AList.delete_conv')
  qed
  then show "nodes_wf s'" "live s' = (live s)(k := None)" "b \<longleftrightarrow> k \<in> dom (live s)"
    "map_of (nodeMap s') k = None" "minHeap s' = minHeap s" "next_ptr s' = next_ptr s" by auto
qed

lemma rebuildHeap_wf:
  assumes "nodes_wf s"
  shows "nodes_wf (rebuildHeap s)" "live (rebuildHeap s) = live s"
proof -
  have h: "heap_ok (fold heap_push (map snd (nodeMap s)) [])"
    "mset (fold heap_push (map snd (nodeMap s)) []) = mset (map snd (nodeMap s))"
    using nq.push_all [OF nq.empty_ok, of "map snd (nodeMap s)"] by auto
  have "set (fold heap_push (map snd (nodeMap s)) []) = snd ` set (nodeMap s)"
    using arg_cong [OF h(2), of set_mset] by simp
  moreover have "length (fold heap_push (map snd (nodeMap s)) []) = length (nodeMap s)"
    using arg_cong [OF h(2), of size] by simp
  moreover have "snd ` set (nodeMap s) \<subseteq> set (minHeap s)"
    using assms by (auto simp: nodes_wf_def)
  ultimately show "nodes_wf (rebuildHeap s)"
    using assms h(1) by (auto simp: nodes_wf_def rebuildHeap_def simp del: fold_map rev_image_eqI intro: rev_image_eqI)
  show "live (rebuildHeap s) = live s" by (simp add: live_def rebuildHeap_def fun_eq_iff)
qed

lemma upsertNode_live:
  assumes "nodes_wf s"
  shows "nodes_wf (upsertNode n s) \<and> live (upsertNode n s) = (live s)(node_key n \<mapsto> n)
    \<and> staleCount (upsertNode n s) < staleCountThreshold"
proof -
  obtain b s1 where r: "removeNodeInternal (node_key n) s = (b, s1)" by fastforce
  note r1 = removeNodeInternal_live [OF assms r]
  let ?p = "(next_ptr s, n)"
  define s2 where "s2 = s1\<lparr>minHeap := heap_push ?p (minHeap s1),
    nodeMap := AList.update (node_key n) ?p (nodeMap s1), next_ptr := Suc (next_ptr s)\<rparr>"
  have u: "AList.update (node_key n) ?p (nodeMap s1) = nodeMap s1 @ [(node_key n, ?p)]"
    using r1 by (simp add: update_fresh)
  have "heap_ok (heap_push ?p (minHeap s1))"
    using r1(1) by (simp add: nodes_wf_def heap_push_ok)
  moreover have "distinct (map fst (nodeMap s1 @ [(node_key n, ?p)]))"
    using r1(1,4) by (simp add: nodes_wf_def map_of_eq_None_iff)
  ultimately have w: "nodes_wf s2"
    using r1(1,6) by (auto simp: nodes_wf_def s2_def u)
  have l: "live s2 = (live s)(node_key n \<mapsto> n)"
    using r1(2) by (auto simp: s2_def live_def fun_eq_iff AList.update_conv')
  have e: "upsertNode n s = (if staleCountThreshold \<le> staleCount s2 \<and> minHeap s2 \<noteq> []
      then rebuildHeap s2 else s2)"
    by (simp add: upsertNode_def r s2_def Let_def)
  have "minHeap s2 \<noteq> []" by (cases "minHeap s1") (auto simp: s2_def)
  then show ?thesis
    using w l rebuildHeap_wf [OF w]
    by (auto simp: e rebuildHeap_def staleCountThreshold_def not_le)
qed

section \<open>Properties\<close>

definition live_ptr :: "(string \<times> node_ptr) list \<Rightarrow> node_ptr \<Rightarrow> bool" where
  "live_ptr m p \<longleftrightarrow> map_of m (node_key (snd p)) = Some p"

lemma settle_result:
  "heap_ok h \<Longrightarrow> settle m h = (r, h') \<Longrightarrow>
    heap_ok h' \<and> filter_mset (live_ptr m) (mset h') = filter_mset (live_ptr m) (mset h)
    \<and> length h' \<le> length h \<and> set h' \<subseteq> set h
    \<and> (case r of None \<Rightarrow> h' = []
       | Some p \<Rightarrow> h' \<noteq> [] \<and> live_ptr m p \<and> p = hd h')"
proof (induction h)
  case (Cons q h)
  show ?case
  proof (cases "live_ptr m q")
    case True
    then have "r = Some q" "h' = q # h" using Cons.prems by (auto simp: live_ptr_def)
    then show ?thesis using True Cons.prems by simp
  next
    case False
    then have "settle m h = (r, h')" using Cons.prems by (simp add: live_ptr_def)
    moreover have "heap_ok h" using Cons.prems by (simp add: heap_ok_def)
    ultimately show ?thesis using Cons.IH False by auto
  qed
qed simp

lemma getLowest_result:
  assumes "nodes_wf s" "getLowestCPUNode s = (r, s')"
  shows "nodes_wf s' \<and> live s' = live s \<and> (r = None \<longleftrightarrow> live s = Map.empty)
    \<and> (\<forall>n. r = Some n \<longrightarrow> live s (node_key n) = Some n
        \<and> (\<forall>m \<in> ran (live s). cpu_usage n \<le> cpu_usage m))"
proof -
  obtain q h where q: "settle (nodeMap s) (minHeap s) = (q, h)" by fastforce
  then have r: "r = map_option snd q" "s' = s\<lparr>minHeap := h\<rparr>"
    using assms by (auto simp: getLowestCPUNode_def)
  have w: "heap_ok (minHeap s)" using assms by (simp add: nodes_wf_def)
  note st = settle_result [OF w q]
  let ?live = "filter_mset (live_ptr (nodeMap s))"
  have cur: "p \<in># ?live (mset (minHeap s))" "k = node_key (snd p)" if "(k, p) \<in> set (nodeMap s)" for k p
    using assms(1) that by (auto simp: nodes_wf_def live_ptr_def)
  have inh: "p \<in> set h" "live_ptr (nodeMap s) p" if "(k, p) \<in> set (nodeMap s)" for k p
    using cur [OF that] st by (metis mem_Collect_eq set_mset_filter set_mset_mset)+
  have w': "nodes_wf s'"
    using assms(1) st inh by (fastforce simp: r nodes_wf_def)
  have none: "q = None \<longleftrightarrow> nodeMap s = []"
  proof
    assume "q = None" then have "h = []" using st by simp
    then show "nodeMap s = []" using inh by (cases "nodeMap s") auto
  next
    assume "nodeMap s = []" then show "q = None"
      using st by (cases q) (auto simp: live_ptr_def)
  qed
  have e: "live s = Map.empty \<longleftrightarrow> nodeMap s = []"
    by (cases "nodeMap s") (auto simp: live_def fun_eq_iff)
  have least: "live s (node_key n) = Some n \<and> (\<forall>m \<in> ran (live s). cpu_usage n \<le> cpu_usage m)"
    if n: "r = Some n" for n
  proof -
    obtain p where p: "q = Some p" "snd p = n" using n r by (cases q) auto
    then have h: "h \<noteq> []" "live_ptr (nodeMap s) p" "p = hd h" "heap_ok h" using st by auto
    have "cpu_usage n \<le> cpu_usage m" if m: "m \<in> ran (live s)" for m
    proof -
      obtain k p' where "map_of (nodeMap s) k = Some p'" "snd p' = m"
        using m by (auto simp: ran_def live_def)
      then have "p' \<in> set h" using inh map_of_SomeD by metis
      then show ?thesis using heap_hd_least [OF h(4)] h(3) p \<open>snd p' = m\<close> by metis
    qed
    then show ?thesis using h(2) p by (auto simp: live_def live_ptr_def)
  qed
  show ?thesis
    using w' none e least by (auto simp: r live_def fun_eq_iff)
qed

text \<open>
  \<open>getLowestCPUNode\<close> returns a current node whose CPU usage is least among all current
  nodes, it returns none exactly when the service has no node, and it changes neither the
  set of nodes nor the invariant, however many replaced and removed nodes are still in
  the queue.
\<close>

theorem getLowestCPUNode_least:
  assumes "nodes_wf s" "getLowestCPUNode s = (r, s')"
  shows "nodes_wf s' \<and> live s' = live s \<and> (r = None \<longleftrightarrow> live s = Map.empty)
    \<and> (\<forall>n. r = Some n \<longrightarrow> live s (node_key n) = Some n
        \<and> (\<forall>m \<in> ran (live s). cpu_usage n \<le> cpu_usage m))"
  by (rule getLowest_result [OF assms])

lemma getLowestCPUNode_least_witness:
  "let s = upsertNode \<lparr>cpu_usage = 1 / 4, ip = ''b'', port = 2\<rparr>
        (upsertNode \<lparr>cpu_usage = 1 / 2, ip = ''a'', port = 1\<rparr> ServerNodeManager_new);
      (r, s') = getLowestCPUNode s
    in nodes_wf s' \<and> live s' = live s \<and> (r = None \<longleftrightarrow> live s = Map.empty)
      \<and> (\<forall>n. r = Some n \<longrightarrow> live s (node_key n) = Some n
          \<and> (\<forall>m \<in> ran (live s). cpu_usage n \<le> cpu_usage m))"
proof -
  have "nodes_wf ServerNodeManager_new"
    by (simp add: nodes_wf_def ServerNodeManager_new_def heap_ok_def)
  then show ?thesis
    unfolding Let_def split_beta
    by (intro getLowestCPUNode_least) (auto simp: upsertNode_live)
qed

text \<open>C18.
  The node table refines a finite map from \<open>ip:port\<close> to nodes: \<open>upsertNode\<close> sets the entry
  of the node's address, \<open>removeNode\<close> clears it and says whether it was there, \<open>size\<close> is the
  number of entries; the invariant is kept, and after every \<open>upsertNode\<close> fewer than one
  hundred dead nodes are left in the queue.
\<close>

theorem nodes_refine_map:
  assumes "nodes_wf s"
  shows "nodes_wf (upsertNode n s) \<and> live (upsertNode n s) = (live s)(node_key n \<mapsto> n)
    \<and> length (minHeap (upsertNode n s)) < nodes_size (upsertNode n s) + staleCountThreshold
    \<and> nodes_wf (snd (removeNode i p s)) \<and> live (snd (removeNode i p s)) = (live s)(addr_key i p := None)
    \<and> (fst (removeNode i p s) \<longleftrightarrow> addr_key i p \<in> dom (live s))
    \<and> nodes_size s = card (dom (live s))"
proof -
  obtain b s1 where r: "removeNode i p s = (b, s1)" by fastforce
  have "dom (live s) = set (map fst (nodeMap s))"
    by (auto simp: live_def dom_def map_of_eq_None_iff simp flip: not_None_eq)
  moreover have "distinct (map fst (nodeMap s))" using assms by (simp add: nodes_wf_def)
  ultimately have c: "nodes_size s = card (dom (live s))"
    using distinct_card [of "map fst (nodeMap s)"] by (simp add: nodes_size_def)
  have "nodes_wf (upsertNode n s)" "staleCount (upsertNode n s) < staleCountThreshold"
    using upsertNode_live [OF assms] by auto
  then have "length (minHeap (upsertNode n s)) < nodes_size (upsertNode n s) + staleCountThreshold"
    by (simp add: nodes_wf_def nodes_size_def)
  then show ?thesis
    using upsertNode_live [OF assms] c r
      removeNodeInternal_live [OF assms r [unfolded removeNode_def]] by simp
qed

lemma nodes_refine_map_witness:
  "nodes_size ServerNodeManager_new = card (dom (live ServerNodeManager_new))
    \<and> live (upsertNode \<lparr>cpu_usage = 1, ip = ''a'', port = 1\<rparr> ServerNodeManager_new)
      = (live ServerNodeManager_new)(''a:1'' \<mapsto> \<lparr>cpu_usage = 1, ip = ''a'', port = 1\<rparr>)"
proof -
  have "nodes_wf ServerNodeManager_new"
    by (simp add: nodes_wf_def ServerNodeManager_new_def heap_ok_def)
  moreover have "node_key \<lparr>cpu_usage = 1, ip = ''a'', port = 1\<rparr> = ''a:1''"
    by (simp add: node_key_def addr_key_def to_string_def nat_str.simps)
  ultimately show ?thesis
    using nodes_refine_map [of ServerNodeManager_new "\<lparr>cpu_usage = 1, ip = ''a'', port = 1\<rparr>"] by simp
qed

end
