(* ===== verification/ServerList.thy ===== *)
theory ServerList
  imports ServerNode
begin

text \<open>
  Service discovery on the client, \<open>src/common/RpcServerList.cpp\<close> and
  \<open>src/common/RpcDiscovery.h\<close>: the events etcd delivers are parsed into a service name and
  a node, and the node table of the service is updated. The answers of etcd (the listing
  and the events) are arguments. The local variables \<open>cpu_usage\<close> and \<open>port\<close> of the two
  callbacks have no initialiser and \<open>parseukv\<close> does not set them on every path, so they
  are options, \<open>None\<close> until someone wrote them; reading \<open>None\<close> is the fault
  \<open>Uninitialised\<close>. Logging is left out.
\<close>

section \<open>Parsing a registration\<close>

record ukv =
  u_cpu_usage :: "real option"
  u_ip :: string
  u_port :: "int option"
  u_method :: string

definition ukv_locals :: ukv where
  "ukv_locals = \<lparr>u_cpu_usage = None, u_ip = [], u_port = None, u_method = []\<rparr>"

definition parseukv :: "string \<Rightarrow> string \<Rightarrow> ukv \<Rightarrow> ukv res" where
  "parseukv key value u = (
    let parts = nonempty_parts (CHR ''/'') key in
    if 2 \<le> length parts then
      let u1 = u\<lparr>u_method := parts ! 1\<rparr>;
          parts2 = nonempty_parts (CHR ''_'') value in
      if length parts2 = 2 then
        let u2 = u1\<lparr>u_ip := parts2 ! 0\<rparr> in
        bindR (stod (parts2 ! 1)) (\<lambda>c.
        let u3 = u2\<lparr>u_cpu_usage := Some c\<rparr>;
            parts3 = nonempty_parts (CHR '':'') (u_ip u3) in
        if length parts3 = 2 then
          let u4 = u3\<lparr>u_ip := parts3 ! 0\<rparr> in
          bindR (stoi (parts3 ! 1)) (\<lambda>p. Inr (u4\<lparr>u_port := Some p\<rparr>))
        else Inr u3)
      else Inr u1
    else Inr u)"

fun read_local :: "'a option \<Rightarrow> 'a res" where
  "read_local None = Inl Uninitialised"
| "read_local (Some x) = Inr x"

section \<open>The list of services\<close>

record rpc_server_list =
  server_list :: "string \<rightharpoonup> server_nodes"

definition RpcServerList_new :: rpc_server_list where
  "RpcServerList_new = \<lparr>server_list = Map.empty\<rparr>"

definition getServerAddr :: "string \<Rightarrow> rpc_server_list \<Rightarrow> ((string \<times> int) \<times> rpc_server_list) res" where
  "getServerAddr method_name l = (case server_list l method_name of
      None \<Rightarrow> Inr (('''', - 1), l)
    | Some nodes \<Rightarrow> (case getLowestCPUNode nodes of
          (None, _) \<Rightarrow> Inl Null_deref
        | (Some node, nodes') \<Rightarrow>
            Inr ((ip node, port node), l\<lparr>server_list := (server_list l)(method_name \<mapsto> nodes')\<rparr>)))"

definition getServerNodeCallBack :: "string \<Rightarrow> string \<Rightarrow> rpc_server_list \<Rightarrow> rpc_server_list res" where
  "getServerNodeCallBack key value l =
    bindR (parseukv key value ukv_locals) (\<lambda>u.
    let l1 = (if server_list l (u_method u) = None
              then l\<lparr>server_list := (server_list l)(u_method u \<mapsto> ServerNodeManager_new)\<rparr> else l) in
    bindR (read_local (u_cpu_usage u)) (\<lambda>c.
    bindR (read_local (u_port u)) (\<lambda>p.
    Inr (l1\<lparr>server_list := (server_list l1)(u_method u \<mapsto>
      upsertNode \<lparr>cpu_usage = c, ip = u_ip u, port = p\<rparr> (the (server_list l1 (u_method u))))\<rparr>))))"

definition delServerNodeCallBack :: "string \<Rightarrow> string \<Rightarrow> rpc_server_list \<Rightarrow> rpc_server_list res" where
  "delServerNodeCallBack key value l =
    bindR (parseukv key value ukv_locals) (\<lambda>u.
    case server_list l (u_method u) of
      None \<Rightarrow> Inr l
    | Some nodes \<Rightarrow>
        bindR (read_local (u_port u)) (\<lambda>p.
        Inr (l\<lparr>server_list := (server_list l)(u_method u \<mapsto> snd (removeNode (u_ip u) p nodes))\<rparr>)))"

section \<open>The watcher\<close>

datatype event_type = PUT_EVENT | DELETE_EVENT | INVALID_EVENT

record etcd_event =
  ev_type :: event_type
  kv_key :: string
  kv_value :: string

definition handle_event_etcd :: "etcd_event \<Rightarrow> rpc_server_list \<Rightarrow> rpc_server_list res" where
  "handle_event_etcd e l = (case ev_type e of
      PUT_EVENT \<Rightarrow> getServerNodeCallBack (kv_key e) (kv_value e) l
    | DELETE_EVENT \<Rightarrow> delServerNodeCallBack (kv_key e) (kv_value e) l
    | INVALID_EVENT \<Rightarrow> Inr l)"

definition discovery_callBack :: "bool \<Rightarrow> etcd_event list \<Rightarrow> rpc_server_list \<Rightarrow> rpc_server_list res" where
  "discovery_callBack is_ok evs l = (if \<not> is_ok then Inr l else foldR handle_event_etcd evs l)"

text \<open>The constructor of \<open>RpcDiscovery\<close>: every entry the listing returned is put.\<close>

definition RpcDiscovery_init :: "(string \<times> string) list \<Rightarrow> rpc_server_list \<Rightarrow> rpc_server_list res" where
  "RpcDiscovery_init kvs l = foldR (\<lambda>(k, v). getServerNodeCallBack k v) kvs l"

section \<open>Lemmas\<close>

lemma nonempty_parts_append:
  "nonempty_parts d (s @ d # t) = nonempty_parts d s @ nonempty_parts d t"
proof (induction "length s" arbitrary: s rule: less_induct)
  case less
  show ?case
  proof (cases "d \<in> set s")
    case True
    then obtain p q where s: "s = p @ d # q" "d \<notin> set p" by (meson split_list_first)
    then show ?thesis using less [of q] by (simp add: nonempty_parts_sep)
  next
    case False
    then show ?thesis by (simp add: nonempty_parts_sep nonempty_parts_last)
  qed
qed

definition list_wf :: "rpc_server_list \<Rightarrow> bool" where
  "list_wf l \<longleftrightarrow> (\<forall>m nodes. server_list l m = Some nodes \<longrightarrow> nodes_wf nodes)"

text \<open>What a service's table holds; nothing for a service never heard of.\<close>

definition nodes_of :: "rpc_server_list \<Rightarrow> string \<Rightarrow> string \<Rightarrow> server_node option" where
  "nodes_of l m = (case server_list l m of None \<Rightarrow> Map.empty | Some nodes \<Rightarrow> live nodes)"

lemma list_wf_new [simp]: "list_wf RpcServerList_new"
  by (simp add: list_wf_def RpcServerList_new_def)

lemma ServerNodeManager_new_wf [simp]: "nodes_wf ServerNodeManager_new"
  "live ServerNodeManager_new = Map.empty"
  by (auto simp: nodes_wf_def ServerNodeManager_new_def live_def fun_eq_iff)

lemma getServerNodeCallBack_effect:
  assumes "list_wf l" "parseukv key value ukv_locals = Inr u" "u_cpu_usage u = Some c"
    "u_port u = Some p"
  obtains l' where "getServerNodeCallBack key value l = Inr l'" "list_wf l'"
    "nodes_of l' = (nodes_of l)(u_method u :=
      (nodes_of l (u_method u))(addr_key (u_ip u) p \<mapsto> \<lparr>cpu_usage = c, ip = u_ip u, port = p\<rparr>))"
proof -
  let ?n = "\<lparr>cpu_usage = c, ip = u_ip u, port = p\<rparr>"
  define nodes where "nodes = (case server_list l (u_method u) of
    None \<Rightarrow> ServerNodeManager_new | Some nodes \<Rightarrow> nodes)"
  have w: "nodes_wf nodes" and v: "live nodes = nodes_of l (u_method u)"
    using assms by (auto simp: nodes_def nodes_of_def list_wf_def split: option.splits)
  define l' where "l' = l\<lparr>server_list := (server_list l)(u_method u \<mapsto> upsertNode ?n nodes)\<rparr>"
  have "getServerNodeCallBack key value l = Inr l'"
    using assms by (cases "server_list l (u_method u)")
      (auto simp: getServerNodeCallBack_def l'_def nodes_def Let_def)
  moreover have "list_wf l'"
    using assms upsertNode_live [OF w] by (auto simp: list_wf_def l'_def)
  moreover have "node_key ?n = addr_key (u_ip u) p" by (simp add: node_key_def)
  then have "nodes_of l' = (nodes_of l)(u_method u := (nodes_of l (u_method u))(addr_key (u_ip u) p \<mapsto> ?n))"
    using upsertNode_live [OF w, of ?n] v by (auto simp: nodes_of_def l'_def fun_eq_iff)
  ultimately show thesis by (rule that)
qed

lemma parseukv_no_value: "parseukv key [] u =
    Inr (if 2 \<le> length (nonempty_parts (CHR ''/'') key)
      then u\<lparr>u_method := nonempty_parts (CHR ''/'') key ! 1\<rparr> else u)"
  by (simp add: parseukv_def Let_def)

lemma getServerAddr_cases:
  assumes "list_wf l"
  shows "case server_list l m of
      None \<Rightarrow> getServerAddr m l = Inr (('''', - 1), l)
    | Some _ \<Rightarrow> if nodes_of l m = Map.empty then getServerAddr m l = Inl Null_deref
        else \<exists>n l'. getServerAddr m l = Inr ((ip n, port n), l') \<and> nodes_of l m (node_key n) = Some n
          \<and> (\<forall>n' \<in> ran (nodes_of l m). cpu_usage n \<le> cpu_usage n')
          \<and> list_wf l' \<and> nodes_of l' = nodes_of l"
proof (cases "server_list l m")
  case None
  then show ?thesis by (simp add: getServerAddr_def)
next
  case (Some nodes)
  obtain r nodes' where g: "getLowestCPUNode nodes = (r, nodes')" by fastforce
  have w: "nodes_wf nodes" using assms Some by (simp add: list_wf_def)
  have v: "nodes_of l m = live nodes" using Some by (simp add: nodes_of_def)
  have ws: "nodes_wf nodes'" "live nodes' = live nodes" "r = None \<longleftrightarrow> live nodes = Map.empty"
    "\<And>n. r = Some n \<Longrightarrow> live nodes (node_key n) = Some n
      \<and> (\<forall>m \<in> ran (live nodes). cpu_usage n \<le> cpu_usage m)"
    using getLowest_result [OF w g] by auto
  show ?thesis
  proof (cases r)
    case None
    then show ?thesis using ws g v Some by (simp add: getServerAddr_def)
  next
    case r: (Some n)
    let ?l = "l\<lparr>server_list := (server_list l)(m \<mapsto> nodes')\<rparr>"
    have "list_wf ?l" using assms ws by (simp add: list_wf_def)
    moreover have "nodes_of ?l = nodes_of l" using ws v by (auto simp: nodes_of_def fun_eq_iff Some)
    moreover have "getServerAddr m l = Inr ((ip n, port n), ?l)"
      using r g Some by (simp add: getServerAddr_def)
    ultimately show ?thesis using ws v r Some by auto
  qed
qed

section \<open>Properties\<close>

text \<open>
  Looking up a service. A service never heard of gives the address \<open>("", -1)\<close>. A known one
  gives the address of a node of least CPU usage among the nodes its table holds, and the
  tables stay as they were; but if all its nodes have been removed the null pointer
  \<open>getLowestCPUNode\<close> returned is dereferenced.
\<close>

theorem getServerAddr_result:
  assumes "list_wf l"
  shows "case server_list l m of
      None \<Rightarrow> getServerAddr m l = Inr (('''', - 1), l)
    | Some _ \<Rightarrow> if nodes_of l m = Map.empty then getServerAddr m l = Inl Null_deref
        else \<exists>n l'. getServerAddr m l = Inr ((ip n, port n), l') \<and> nodes_of l m (node_key n) = Some n
          \<and> (\<forall>n' \<in> ran (nodes_of l m). cpu_usage n \<le> cpu_usage n')
          \<and> list_wf l' \<and> nodes_of l' = nodes_of l"
  by (rule getServerAddr_cases [OF assms])

lemma getServerAddr_result_witness:
  "let l = \<lparr>server_list = [''Order'' \<mapsto>
        upsertNode \<lparr>cpu_usage = 1 / 2, ip = ''1.2.3.4'', port = 80\<rparr> ServerNodeManager_new]\<rparr> in
    case server_list l ''Order'' of
      None \<Rightarrow> getServerAddr ''Order'' l = Inr (('''', - 1), l)
    | Some _ \<Rightarrow> if nodes_of l ''Order'' = Map.empty
        then getServerAddr ''Order'' l = Inl Null_deref
        else \<exists>n l'. getServerAddr ''Order'' l = Inr ((ip n, port n), l')
          \<and> nodes_of l ''Order'' (node_key n) = Some n
          \<and> (\<forall>n' \<in> ran (nodes_of l ''Order''). cpu_usage n \<le> cpu_usage n')
          \<and> list_wf l' \<and> nodes_of l' = nodes_of l"
  unfolding Let_def by (rule getServerAddr_result) (simp add: list_wf_def upsertNode_live)

text \<open>C38.
  A node that goes down is never removed. etcd delivers a \<open>DELETE\<close> event with the key and
  an empty value; \<open>parseukv\<close> then leaves \<open>port\<close> unset, so for a known service the callback
  reads an uninitialised variable, and otherwise it changes nothing.
\<close>

theorem delete_event_removes_nothing:
  assumes "ev_type e = DELETE_EVENT" "kv_value e = []"
    "nonempty_parts (CHR ''/'') (kv_key e) = b # m # rest"
  shows "handle_event_etcd e l = (if server_list l m = None then Inr l else Inl Uninitialised)"
  using assms by (auto simp: handle_event_etcd_def delServerNodeCallBack_def parseukv_no_value
      ukv_locals_def)

lemma delete_event_removes_nothing_witness:
  "handle_event_etcd \<lparr>ev_type = DELETE_EVENT, kv_key = ''/server/Order/1.2.3.4-80'', kv_value = []\<rparr>
      \<lparr>server_list = [''Order'' \<mapsto> ServerNodeManager_new]\<rparr>
    = (if server_list \<lparr>server_list = [''Order'' \<mapsto> ServerNodeManager_new]\<rparr> ''Order'' = None
       then Inr \<lparr>server_list = [''Order'' \<mapsto> ServerNodeManager_new]\<rparr> else Inl Uninitialised)"
  by (rule delete_event_removes_nothing [where b = "''server''" and rest = "[''1.2.3.4-80'']"])
    (simp_all add: nonempty_parts.simps)

section \<open>The list as a map\<close>

text \<open>What an event means for the servers of the services, each kept under its address.\<close>

definition spec_event :: "etcd_event \<Rightarrow> (string \<Rightarrow> string \<Rightarrow> server_node option) \<Rightarrow> string \<Rightarrow> string \<Rightarrow> server_node option" where
  "spec_event e M = (case parseukv (kv_key e) (kv_value e) ukv_locals of
      Inl _ \<Rightarrow> M
    | Inr u \<Rightarrow> (case (ev_type e, u_cpu_usage u, u_port u) of
        (PUT_EVENT, Some c, Some p) \<Rightarrow> M(u_method u := (M (u_method u))
          (addr_key (u_ip u) p \<mapsto> \<lparr>cpu_usage = c, ip = u_ip u, port = p\<rparr>))
      | (DELETE_EVENT, _, Some p) \<Rightarrow> M(u_method u := (M (u_method u))(addr_key (u_ip u) p := None))
      | _ \<Rightarrow> M))"

definition complete_put :: "etcd_event \<Rightarrow> bool" where
  "complete_put e \<longleftrightarrow> ev_type e = PUT_EVENT \<and> (\<exists>u. parseukv (kv_key e) (kv_value e) ukv_locals = Inr u
    \<and> u_cpu_usage u \<noteq> None \<and> u_port u \<noteq> None)"

lemma put_refines:
  assumes "list_wf l" "ev_type e = PUT_EVENT" "handle_event_etcd e l = Inr l'"
  shows "list_wf l' \<and> nodes_of l' = spec_event e (nodes_of l)"
proof -
  obtain u c p where u: "parseukv (kv_key e) (kv_value e) ukv_locals = Inr u" "u_cpu_usage u = Some c" "u_port u = Some p"
  proof -
    obtain u where u: "parseukv (kv_key e) (kv_value e) ukv_locals = Inr u"
      using assms(2,3) by (auto simp: handle_event_etcd_def getServerNodeCallBack_def)
    then have "u_cpu_usage u \<noteq> None" "u_port u \<noteq> None"
      using assms(2,3) by (cases "u_cpu_usage u"; cases "u_port u";
          simp add: handle_event_etcd_def getServerNodeCallBack_def Let_def)+
    with u show thesis using that by blast
  qed
  from getServerNodeCallBack_effect [OF assms(1) u] obtain l1 where
    "getServerNodeCallBack (kv_key e) (kv_value e) l = Inr l1" "list_wf l1"
    "nodes_of l1 = (nodes_of l)(u_method u := (nodes_of l (u_method u))
      (addr_key (u_ip u) p \<mapsto> \<lparr>cpu_usage = c, ip = u_ip u, port = p\<rparr>))" by blast
  then show ?thesis using assms(2,3) u by (simp add: handle_event_etcd_def spec_event_def)
qed

lemma delete_refines:
  assumes "list_wf l" "ev_type e = DELETE_EVENT" "handle_event_etcd e l = Inr l'"
  shows "list_wf l' \<and> nodes_of l' = spec_event e (nodes_of l)"
proof -
  obtain u where u: "parseukv (kv_key e) (kv_value e) ukv_locals = Inr u"
    using assms(2,3) by (auto simp: handle_event_etcd_def delServerNodeCallBack_def)
  show ?thesis
  proof (cases "server_list l (u_method u)")
    case None
    then have "l' = l" "nodes_of l (u_method u) = Map.empty"
      using assms(2,3) u by (simp_all add: handle_event_etcd_def delServerNodeCallBack_def nodes_of_def)
    then show ?thesis using assms(1,2) u
      by (cases "u_port u") (auto simp: spec_event_def fun_eq_iff split: option.splits)
  next
    case (Some nodes)
    then obtain p where p: "u_port u = Some p"
      using assms(2,3) u by (cases "u_port u") (auto simp: handle_event_etcd_def delServerNodeCallBack_def)
    then have l': "l' = l\<lparr>server_list := (server_list l)(u_method u \<mapsto> snd (removeNode (u_ip u) p nodes))\<rparr>"
      using assms(2,3) u Some by (auto simp: handle_event_etcd_def delServerNodeCallBack_def)
    have w: "nodes_wf nodes" "nodes_of l (u_method u) = live nodes" using assms(1) Some by (auto simp: list_wf_def nodes_of_def)
    obtain ok nodes' where n: "removeNode (u_ip u) p nodes = (ok, nodes')" by fastforce
    from removeNodeInternal_live(1,2) [OF w(1) n [unfolded removeNode_def]]
    have r: "nodes_wf nodes'" "live nodes' = (live nodes)(addr_key (u_ip u) p := None)" .
    have "list_wf l'" using assms(1) r(1) l' n by (simp add: list_wf_def)
    moreover have "nodes_of l' = (nodes_of l)(u_method u := live nodes')"
      using l' n by (simp add: nodes_of_def fun_eq_iff)
    then have "nodes_of l' = spec_event e (nodes_of l)"
      using r(2) u p w(2) assms(2) by (simp add: spec_event_def split: option.split)
    ultimately show ?thesis ..
  qed
qed

lemma handle_event_refines:
  assumes "list_wf l" "handle_event_etcd e l = Inr l'"
  shows "list_wf l' \<and> nodes_of l' = spec_event e (nodes_of l)"
proof (cases "ev_type e")
  case INVALID_EVENT
  then have "l' = l" using assms(2) by (simp add: handle_event_etcd_def)
  then show ?thesis using assms(1) INVALID_EVENT by (simp add: spec_event_def split: sum.split)
qed (use assms put_refines delete_refines in blast)+

lemma complete_put_returns:
  assumes "list_wf l" "complete_put e"
  shows "\<exists>l'. handle_event_etcd e l = Inr l'"
proof -
  obtain u c p where u: "ev_type e = PUT_EVENT" "parseukv (kv_key e) (kv_value e) ukv_locals = Inr u"
    "u_cpu_usage u = Some c" "u_port u = Some p" using assms(2) by (auto simp: complete_put_def)
  from getServerNodeCallBack_effect [OF assms(1) u(2-4)] show ?thesis using u(1) by (auto simp: handle_event_etcd_def)
qed

text \<open>
  What a client of the list relies on, \<open>getConnection\<close> first of all: the tables follow the
  events, and a lookup gives the address of a server of least load, leaving the tables alone.
\<close>

locale server_directory = event_refinement inv abs step spec total
  for inv :: "'l \<Rightarrow> bool"
    and abs :: "'l \<Rightarrow> string \<Rightarrow> string \<Rightarrow> server_node option"
    and step :: "'e \<Rightarrow> 'l \<Rightarrow> 'l res"
    and spec :: "'e \<Rightarrow> (string \<Rightarrow> string \<Rightarrow> server_node option) \<Rightarrow> string \<Rightarrow> string \<Rightarrow> server_node option"
    and total :: "'e \<Rightarrow> bool" +
  fixes lookup :: "string \<Rightarrow> 'l \<Rightarrow> ((string \<times> int) \<times> 'l) res"
  assumes lookup_least: "inv l \<Longrightarrow> abs l m \<noteq> Map.empty \<Longrightarrow>
    \<exists>n l'. lookup m l = Inr ((ip n, port n), l') \<and> abs l m (node_key n) = Some n
      \<and> (\<forall>n' \<in> ran (abs l m). cpu_usage n \<le> cpu_usage n') \<and> inv l' \<and> abs l' = abs l"
begin

lemma lookup_after_run:
  assumes "inv l" "foldR step es l = Inr l'" "fold spec es (abs l) m \<noteq> Map.empty"
  shows "\<exists>n l''. lookup m l' = Inr ((ip n, port n), l'') \<and> fold spec es (abs l) m (node_key n) = Some n
    \<and> (\<forall>n' \<in> ran (fold spec es (abs l) m). cpu_usage n \<le> cpu_usage n') \<and> inv l'' \<and> abs l'' = fold spec es (abs l)"
  using lookup_least [of l' m] run_refines [OF assms(1,2)] assms(3) by simp

lemma lookups_stable:
  assumes "inv l" "abs l m \<noteq> Map.empty" "lookup m l = Inr (a, l')"
  shows "inv l' \<and> abs l' = abs l \<and> (\<exists>n \<in> ran (abs l m). a = (ip n, port n))"
  using lookup_least [OF assms(1,2)] assms(3) by (auto intro: ranI)

end

interpretation sl: server_directory list_wf nodes_of handle_event_etcd spec_event complete_put getServerAddr
proof unfold_locales
  fix l :: rpc_server_list and m :: string
  assume l: "list_wf l" "nodes_of l m \<noteq> Map.empty"
  then have "server_list l m \<noteq> None" by (auto simp: nodes_of_def)
  then show "\<exists>n l'. getServerAddr m l = Inr ((ip n, port n), l') \<and> nodes_of l m (node_key n) = Some n
      \<and> (\<forall>n' \<in> ran (nodes_of l m). cpu_usage n \<le> cpu_usage n') \<and> list_wf l' \<and> nodes_of l' = nodes_of l"
    using getServerAddr_cases [OF l(1), of m] l(2) by (auto split: option.splits)
qed (rule handle_event_refines complete_put_returns; assumption)+

text \<open>C16.
  Service discovery refines a map. For every sequence of events, if the watcher's callback returns,
  the table holds for each service exactly the servers that the announcements describe, the
  latest announcement of an address counting; it always returns when the events are
  complete announcements. So a client never learns of a server that was not announced.
\<close>

theorem discovery_refines_map:
  assumes "list_wf l"
  shows "(\<forall>l'. discovery_callBack True evs l = Inr l' \<longrightarrow> list_wf l' \<and> nodes_of l' = fold spec_event evs (nodes_of l))
    \<and> ((\<forall>e \<in> set evs. complete_put e) \<longrightarrow> (\<exists>l'. discovery_callBack True evs l = Inr l'))"
  using sl.run_refines [OF assms] sl.run_total [OF assms, of evs]
  by (simp add: discovery_callBack_def list_all_iff)

text \<open>One server announces itself twice.\<close>

lemma sample_put:
  assumes "d = 2 \<or> d = 5"
  shows "parseukv ''/server/Order/1.2.3.4-80'' (''1.2.3.4:80_'' @ [digit_char d]) ukv_locals
    = Inr \<lparr>u_cpu_usage = Some (real d), u_ip = ''1.2.3.4'', u_port = Some 80, u_method = ''Order''\<rparr>"
  using assms by (elim disjE) (simp_all add: parseukv_def nonempty_parts.simps stod_def stoi_def is_digit_def is_space_def
      digit_val_def dec_val_def scale10_def exponent_def ukv_locals_def INT_MIN_def INT_MAX_def Let_def)

lemmas sample_puts = sample_put [of 2, simplified] sample_put [of 5, simplified]

lemma nodes_of_new: "nodes_of RpcServerList_new = (\<lambda>_. Map.empty)"
  by (simp add: fun_eq_iff nodes_of_def RpcServerList_new_def)

lemma discovery_refines_map_witness:
  "\<exists>l'. discovery_callBack True [\<lparr>ev_type = PUT_EVENT, kv_key = ''/server/Order/1.2.3.4-80'', kv_value = ''1.2.3.4:80_2''\<rparr>,
      \<lparr>ev_type = PUT_EVENT, kv_key = ''/server/Order/1.2.3.4-80'', kv_value = ''1.2.3.4:80_5''\<rparr>] RpcServerList_new = Inr l'
    \<and> nodes_of l' ''Order'' = [addr_key ''1.2.3.4'' 80 \<mapsto> \<lparr>cpu_usage = 5, ip = ''1.2.3.4'', port = 80\<rparr>]"
proof -
  let ?evs = "[\<lparr>ev_type = PUT_EVENT, kv_key = ''/server/Order/1.2.3.4-80'', kv_value = ''1.2.3.4:80_2''\<rparr>,
    \<lparr>ev_type = PUT_EVENT, kv_key = ''/server/Order/1.2.3.4-80'', kv_value = ''1.2.3.4:80_5''\<rparr>]"
  note th = discovery_refines_map [OF list_wf_new, of ?evs]
  have "\<forall>e \<in> set ?evs. complete_put e" by (simp add: complete_put_def sample_puts)
  with th obtain l' where l': "discovery_callBack True ?evs RpcServerList_new = Inr l'" by blast
  with th have "nodes_of l' = fold spec_event ?evs (nodes_of RpcServerList_new)" by blast
  then have "nodes_of l' ''Order'' = [addr_key ''1.2.3.4'' 80 \<mapsto> \<lparr>cpu_usage = 5, ip = ''1.2.3.4'', port = 80\<rparr>]"
    by (simp add: spec_event_def sample_puts nodes_of_new)
  with l' show ?thesis by auto
qed

text \<open>The listing the constructor reads, as events.\<close>

definition listed :: "(string \<times> string) list \<Rightarrow> etcd_event list" where
  "listed = map (\<lambda>(k, v). \<lparr>ev_type = PUT_EVENT, kv_key = k, kv_value = v\<rparr>)"

lemma RpcDiscovery_init_events: "RpcDiscovery_init kvs l = foldR handle_event_etcd (listed kvs) l"
proof (induction kvs arbitrary: l)
  case (Cons kv kvs)
  obtain k v where "kv = (k, v)" by fastforce
  then show ?case using Cons.IH
    by (cases "getServerNodeCallBack k v l") (simp_all add: RpcDiscovery_init_def listed_def handle_event_etcd_def)
qed (simp add: RpcDiscovery_init_def listed_def)

lemma responses_events:
  "foldR (\<lambda>(ok, evs). discovery_callBack ok evs) rs l = foldR handle_event_etcd (concat (map snd (filter fst rs))) l"
proof (induction rs arbitrary: l)
  case (Cons r rs)
  obtain ok evs where "r = (ok, evs)" by fastforce
  then show ?case using Cons.IH [unfolded discovery_callBack_def]
    by (cases ok; cases "foldR handle_event_etcd evs l") (simp_all add: discovery_callBack_def foldR_append)
qed simp



end
