(* ===== verification/MsgId.thy ===== *)
theory MsgId
  imports Strings
begin

text \<open>
  \<open>MsgIdUtil::GetMsgId\<close> of \<open>src/common/msg_id_util.cpp\<close>: the identifiers that match
  replies to requests. The first one is random, every later one is the decimal
  successor of the one before, and after the all-nines string a new random one starts.
  The answers of the random generator (ten numbers from 0 to 9) are an argument. The
  function holds its mutex throughout, so the calls of all threads form one sequence.
\<close>

record msg_id_util =
  t_msg_id_no :: string
  t_max_msg_id_no :: string

definition g_msg_id_length :: nat where "g_msg_id_length = 10"

definition MsgIdUtil_new :: msg_id_util where
  "MsgIdUtil_new = \<lparr>t_msg_id_no = [], t_max_msg_id_no = []\<rparr>"

text \<open>
  The carry loop \<open>while (t[i] == '9' && i >= 0) i--;\<close>. The index is unsigned, so the
  second test is always true, and stepping below 0 makes the next read leave the string.
\<close>

fun skip_nines :: "string \<Rightarrow> nat \<Rightarrow> nat res" where
  "skip_nines t i = (if length t \<le> i then Inl Out_of_bounds
    else if t ! i = CHR ''9'' then (case i of 0 \<Rightarrow> Inl Out_of_bounds | Suc j \<Rightarrow> skip_nines t j)
    else Inr i)"

declare skip_nines.simps [simp del]

text \<open>\<open>t[i] += 1\<close> and the loop that clears the positions behind \<open>i\<close>.\<close>

definition bump :: "string \<Rightarrow> nat \<Rightarrow> string" where
  "bump t i = take i t @ char_of ((of_char (t ! i) :: nat) + 1)
      # replicate (length t - (i + 1)) (CHR ''0'')"

definition GetMsgId :: "nat list \<Rightarrow> msg_id_util \<Rightarrow> (string \<times> msg_id_util) res" where
  "GetMsgId dis u = (
    if t_msg_id_no u = [] \<or> t_msg_id_no u = t_max_msg_id_no u then
      (let u' = u\<lparr>t_max_msg_id_no := replicate g_msg_id_length (CHR ''9''),
                  t_msg_id_no := map digit_char (take g_msg_id_length dis)\<rparr>
       in Inr (t_msg_id_no u', u'))
    else
      bindR (skip_nines (t_msg_id_no u) (length (t_msg_id_no u) - 1)) (\<lambda>i.
      (let u' = u\<lparr>t_msg_id_no := bump (t_msg_id_no u) i\<rparr>
       in Inr (t_msg_id_no u', u'))))"

text \<open>The identifiers of successive calls.\<close>

fun msg_ids :: "nat list list \<Rightarrow> msg_id_util \<Rightarrow> (string list \<times> msg_id_util) res" where
  "msg_ids [] u = Inr ([], u)"
| "msg_ids (dis # ds) u = bindR (GetMsgId dis u) (\<lambda>(i, u').
    bindR (msg_ids ds u') (\<lambda>(is, u''). Inr (i # is, u'')))"

section \<open>Invariant\<close>

definition is_msg_id :: "string \<Rightarrow> bool" where
  "is_msg_id t \<longleftrightarrow> length t = g_msg_id_length \<and> (\<forall>c\<in>set t. is_digit c)"

definition util_wf :: "msg_id_util \<Rightarrow> bool" where
  "util_wf u \<longleftrightarrow> t_msg_id_no u = []
    \<or> (is_msg_id (t_msg_id_no u) \<and> t_max_msg_id_no u = replicate g_msg_id_length (CHR ''9''))"

definition random_digits :: "nat list \<Rightarrow> bool" where
  "random_digits dis \<longleftrightarrow> length dis = g_msg_id_length \<and> (\<forall>d\<in>set dis. d < 10)"

lemma util_wf_new [simp]: "util_wf MsgIdUtil_new"
  by (simp add: util_wf_def MsgIdUtil_new_def)

lemma skip_nines_split:
  assumes "length t = Suc i" "t \<noteq> replicate (Suc i) (CHR ''9'')"
  obtains p c k where "t = p @ c # replicate k (CHR ''9'')" "c \<noteq> CHR ''9''"
    "\<And>s. skip_nines (t @ s) i = Inr (length p)"
  using assms
proof (induction i arbitrary: t thesis)
  case 0
  then obtain c where t: "t = [c]" by (cases t) auto
  show ?case
    by (rule "0.prems"(1) [of "[]" c 0]) (use 0 t in \<open>auto simp: skip_nines.simps\<close>)
next
  case (Suc i)
  obtain u c where t: "t = u @ [c]" "length u = Suc i"
    using Suc.prems(2) by (cases t rule: rev_cases) auto
  show ?case
  proof (cases "c = CHR ''9''")
    case True
    have "u \<noteq> replicate (Suc i) (CHR ''9'')"
    proof
      assume "u = replicate (Suc i) (CHR ''9'')"
      then have "t = replicate (Suc (Suc i)) (CHR ''9'')"
        using t True by (simp add: replicate_append_same)
      then show False using Suc.prems(3) by simp
    qed
    then obtain p d k where u: "u = p @ d # replicate k (CHR ''9'')" "d \<noteq> CHR ''9''"
      "\<And>s. skip_nines (u @ s) i = Inr (length p)"
      using Suc.IH [OF _ t(2)] by blast
    show ?thesis
    proof (rule Suc.prems(1) [of p d "Suc k"])
      show "t = p @ d # replicate (Suc k) (CHR ''9'')"
        using t u True by (simp add: replicate_append_same)
      show "skip_nines (t @ s) (Suc i) = Inr (length p)" for s
        using t True u(3) [of "c # s"] by (subst skip_nines.simps) (simp add: nth_append)
    qed (rule u(2))
  next
    case False
    show ?thesis
      by (rule Suc.prems(1) [of u c 0])
        (use t False in \<open>auto simp: skip_nines.simps [of _ "Suc i"] nth_append\<close>)
  qed
qed

lemma char_of_Suc_digit: "is_digit c \<Longrightarrow> c \<noteq> CHR ''9'' \<Longrightarrow> digit_val c < 9"
proof -
  assume "is_digit c" "c \<noteq> CHR ''9''"
  then have "digit_val c \<noteq> digit_val (CHR ''9'')" "digit_val c < 10"
    by (auto simp: digit_val_inj digit_val_less is_digit_def)
  then show ?thesis by (simp add: digit_val_def)
qed

lemma bump_char: "is_digit c \<Longrightarrow> char_of ((of_char c :: nat) + 1) = digit_char (Suc (digit_val c))"
  by (auto simp: is_digit_def digit_val_def digit_char_def intro!: arg_cong [of _ _ char_of])

text \<open>One call behind the seed: the decimal successor, of the same shape.\<close>

lemma GetMsgId_succ:
  assumes "is_msg_id (t_msg_id_no u)" "t_max_msg_id_no u = replicate g_msg_id_length (CHR ''9'')"
    "t_msg_id_no u \<noteq> t_max_msg_id_no u"
  obtains t where "GetMsgId dis u = Inr (t, u\<lparr>t_msg_id_no := t\<rparr>)" "is_msg_id t"
    "dec_val t = Suc (dec_val (t_msg_id_no u))"
proof -
  let ?t = "t_msg_id_no u"
  have len: "length ?t = Suc 9" and ds: "\<forall>c\<in>set ?t. is_digit c"
    using assms by (auto simp: is_msg_id_def g_msg_id_length_def)
  have "?t \<noteq> replicate (Suc 9) (CHR ''9'')"
    using assms by (simp add: g_msg_id_length_def)
  from skip_nines_split [OF len this] obtain p c k where
    s: "?t = p @ c # replicate k (CHR ''9'')" "c \<noteq> CHR ''9''" "skip_nines ?t 9 = Inr (length p)"
    by (metis append_Nil2)
  have c: "is_digit c" "digit_val c < 9" using s ds by (auto intro: char_of_Suc_digit)
  let ?u = "p @ digit_char (Suc (digit_val c)) # replicate k (CHR ''0'')"
  have b: "bump ?t (length p) = ?u"
    using s(1) bump_char [OF c(1)] by (simp add: bump_def)
  have "GetMsgId dis u = Inr (?u, u\<lparr>t_msg_id_no := ?u\<rparr>)"
    using assms(3) len s(3) b by (auto simp: GetMsgId_def)
  moreover have "is_msg_id ?u"
    using s ds len c by (auto simp: is_msg_id_def g_msg_id_length_def is_digit_def)
  moreover have "dec_val ?u = Suc (dec_val ?t)"
  proof -
    have "1 \<le> (10::nat) ^ k" by simp
    then show ?thesis
      using c by (simp add: s(1) dec_val_append dec_val_Cons dec_val_replicate_9)
  qed
  ultimately show thesis by (rule that)
qed

lemma GetMsgId_seed:
  assumes "t_msg_id_no u = [] \<or> t_msg_id_no u = t_max_msg_id_no u" "random_digits dis"
  shows "GetMsgId dis u = Inr (map digit_char dis, \<lparr>t_msg_id_no = map digit_char dis,
      t_max_msg_id_no = replicate g_msg_id_length (CHR ''9'')\<rparr>)"
    "is_msg_id (map digit_char dis)"
  using assms by (cases u; auto simp: GetMsgId_def random_digits_def is_msg_id_def)+

lemma is_msg_id_not_Nil: "is_msg_id t \<Longrightarrow> t \<noteq> []"
  by (auto simp: is_msg_id_def g_msg_id_length_def)

lemma is_msg_id_max: "is_msg_id t \<Longrightarrow> dec_val t = 9999999999 \<longleftrightarrow> t = replicate 10 (CHR ''9'')"
proof
  assume t: "is_msg_id t" "dec_val t = 9999999999"
  show "t = replicate 10 (CHR ''9'')"
  proof (rule ccontr)
    assume n: "t \<noteq> replicate 10 (CHR ''9'')"
    let ?u = "\<lparr>t_msg_id_no = t, t_max_msg_id_no = replicate 10 (CHR ''9'')\<rparr>"
    obtain v where "is_msg_id v" "dec_val v = Suc (dec_val t)"
      using GetMsgId_succ [of ?u] t n by (auto simp: g_msg_id_length_def)
    then show False
      using dec_val_less [of v] t by (simp add: is_msg_id_def g_msg_id_length_def)
  qed
next
  assume "t = replicate 10 (CHR ''9'')"
  then show "dec_val t = 9999999999" by (simp add: dec_val_replicate_9)
qed

lemma GetMsgId_ok:
  assumes "util_wf u" "random_digits dis"
  shows "\<exists>i u'. GetMsgId dis u = Inr (i, u') \<and> is_msg_id i \<and> t_msg_id_no u' = i \<and> util_wf u'"
proof (cases "t_msg_id_no u = [] \<or> t_msg_id_no u = t_max_msg_id_no u")
  case True
  then show ?thesis using GetMsgId_seed [OF True assms(2)] by (auto simp: util_wf_def)
next
  case False
  then have w: "is_msg_id (t_msg_id_no u)"
    "t_max_msg_id_no u = replicate g_msg_id_length (CHR ''9'')"
    using assms by (auto simp: util_wf_def)
  obtain t where "GetMsgId dis u = Inr (t, u\<lparr>t_msg_id_no := t\<rparr>)" "is_msg_id t"
    using GetMsgId_succ [OF w, of dis] False by blast
  then show ?thesis using w by (auto simp: util_wf_def)
qed

text \<open>
  \<open>GetMsgId\<close> never leaves its string: from any state it can be in (the constructor's,
  then whatever earlier calls left), every call returns an identifier of ten decimal
  digits, and the state stays well-formed. The unsigned carry loop cannot run below
  index 0 because the all-nines string is caught before it.
\<close>

theorem GetMsgId_safe:
  assumes "util_wf u" "random_digits dis"
  shows "\<exists>i u'. GetMsgId dis u = Inr (i, u') \<and> is_msg_id i \<and> t_msg_id_no u' = i \<and> util_wf u'"
  by (rule GetMsgId_ok [OF assms])

lemma GetMsgId_safe_witness:
  "\<exists>i u'. GetMsgId (replicate 10 9) MsgIdUtil_new = Inr (i, u') \<and> is_msg_id i
    \<and> t_msg_id_no u' = i \<and> util_wf u'"
  by (rule GetMsgId_safe) (auto simp: random_digits_def g_msg_id_length_def)

lemma msg_ids_consecutive:
  assumes "is_msg_id (t_msg_id_no u)" "t_max_msg_id_no u = replicate g_msg_id_length (CHR ''9'')"
    "dec_val (t_msg_id_no u) + length ds < 10 ^ 10"
  shows "\<exists>is u'. msg_ids ds u = Inr (is, u')
    \<and> map dec_val is = map (\<lambda>k. dec_val (t_msg_id_no u) + Suc k) [0..<length ds]"
  using assms
proof (induction ds arbitrary: u)
  case (Cons dis ds)
  have "t_msg_id_no u \<noteq> t_max_msg_id_no u"
    using Cons.prems by (auto simp: g_msg_id_length_def dec_val_replicate_9)
  then obtain t where t: "GetMsgId dis u = Inr (t, u\<lparr>t_msg_id_no := t\<rparr>)" "is_msg_id t"
    "dec_val t = Suc (dec_val (t_msg_id_no u))"
    using GetMsgId_succ Cons.prems by metis
  have "\<exists>is u'. msg_ids ds (u\<lparr>t_msg_id_no := t\<rparr>) = Inr (is, u')
      \<and> map dec_val is = map (\<lambda>k. dec_val t + Suc k) [0..<length ds]"
    using Cons.IH [of "u\<lparr>t_msg_id_no := t\<rparr>"] t Cons.prems by simp
  then obtain "is" u' where i: "msg_ids ds (u\<lparr>t_msg_id_no := t\<rparr>) = Inr (is, u')"
    "map dec_val is = map (\<lambda>k. dec_val t + Suc k) [0..<length ds]" by blast
  have "msg_ids (dis # ds) u = Inr (t # is, u')" using t i by simp
  moreover have "map dec_val (t # is)
      = map (\<lambda>k. dec_val (t_msg_id_no u) + Suc k) [0..<Suc (length ds)]"
    unfolding map_upt_Suc using t i by simp
  ultimately show ?case by (metis length_Cons)
qed simp

text \<open>C24.
  Between two seeds all identifiers differ: if the last identifier was number \<open>n\<close> and
  \<open>n + k\<close> is below \<open>10^10\<close>, the next \<open>k\<close> calls return \<open>k\<close> pairwise different identifiers,
  all different from that one. So no two pending requests of a process share an
  identifier unless ten thousand million were issued in between.
\<close>

theorem msg_ids_distinct:
  assumes "is_msg_id (t_msg_id_no u)" "t_max_msg_id_no u = replicate g_msg_id_length (CHR ''9'')"
    "dec_val (t_msg_id_no u) + length ds < 10 ^ 10"
  shows "\<exists>is u'. msg_ids ds u = Inr (is, u') \<and> length is = length ds
    \<and> distinct (t_msg_id_no u # is)"
proof -
  obtain "is" u' where i: "msg_ids ds u = Inr (is, u')"
    "map dec_val is = map (\<lambda>k. dec_val (t_msg_id_no u) + Suc k) [0..<length ds]"
    using msg_ids_consecutive [OF assms] by blast
  have "distinct (map dec_val (t_msg_id_no u # is))"
    using i(2) by (auto simp: distinct_map inj_on_def)
  then have "distinct (t_msg_id_no u # is)" unfolding distinct_map by blast
  moreover have "length is = length ds" using arg_cong [OF i(2), of length] by simp
  ultimately show ?thesis using i by blast
qed

lemma msg_ids_distinct_witness:
  "\<exists>is u'. msg_ids [[], []] \<lparr>t_msg_id_no = ''0000000199'', t_max_msg_id_no = ''9999999999''\<rparr>
      = Inr (is, u') \<and> length is = length [[], [] :: nat list]
    \<and> distinct (''0000000199'' # is)"
proof -
  let ?u = "\<lparr>t_msg_id_no = ''0000000199'', t_max_msg_id_no = ''9999999999''\<rparr>"
  have "is_msg_id (t_msg_id_no ?u)"
    by (simp add: is_msg_id_def g_msg_id_length_def is_digit_def)
  moreover have "t_max_msg_id_no ?u = replicate g_msg_id_length (CHR ''9'')"
    by (simp add: g_msg_id_length_def eval_nat_numeral)
  moreover have "dec_val (t_msg_id_no ?u) + length [[], [] :: nat list] < 10 ^ 10"
    by (simp add: dec_val_def digit_val_def)
  ultimately show ?thesis
    using msg_ids_distinct [of ?u "[[], []]"] by (simp only: msg_id_util.simps)
qed

end
