(* ===== verification/TcpClient.thy ===== *)
theory TcpClient
  imports Connection ServerList MsgId
begin

text \<open>
  The client's connections, \<open>src/net/TcpClient.cpp\<close>: one connection per service name, made
  on demand to the address the server list gives, and the heartbeat that drops a
  connection after three unanswered rounds. Connections are shared objects, so they live in
  a store by number; what their callbacks share (the table and the heartbeat counts) is
  the environment of the connection on which an event runs. The answers of \<open>socket\<close>,
  \<open>connect\<close>, \<open>select\<close> and \<open>getsockopt\<close> are inputs. A callback keeps a reference to its entry
  of the table, so it carries the entry; using it after the entry was erased is the fault
  \<open>Use_after_free\<close>.
\<close>

section \<open>State\<close>

datatype 'd client_done = Send_keepalive string nat | Reply_keepalive string nat | Call_done 'd

record client_shared =
  server_conns :: "(string \<times> nat) list"
  keepalive_count :: "string \<Rightarrow> int"

type_synonym ('d, 'k, 'e) client_conn = "('d client_done, 'k, 'e client_shared_scheme) conn"

record ('d, 'k, 'e) tcp_client =
  client_env :: "'e client_shared_scheme"
  client_conns :: "nat \<Rightarrow> ('d, 'k, 'e) client_conn"
  conn_loop :: "nat \<Rightarrow> nat"
  next_conn :: nat

text \<open>An operation on connection \<open>i\<close>, with the shared state as its environment.\<close>

definition on_conn :: "nat \<Rightarrow> (('d, 'k, 'e) client_conn \<Rightarrow> ('d, 'k, 'e) client_conn res)
    \<Rightarrow> ('d, 'k, 'e) tcp_client \<Rightarrow> ('d, 'k, 'e) tcp_client res" where
  "on_conn i f s = bindR (f ((client_conns s i)\<lparr>c_env := client_env s\<rparr>)) (\<lambda>c.
    Inr (s\<lparr>client_conns := (client_conns s)(i := c), client_env := c_env c\<rparr>))"

section \<open>Making a connection\<close>

text \<open>
  The answer of the non-blocking \<open>connect\<close>; while it is in progress, the answer of
  \<open>select\<close> (its result and whether the descriptor is in the set) and the pending error of the
  socket, which \<open>getsockopt\<close> would give.
\<close>

datatype connect_answer = Connected | In_progress int bool int | Connect_failed

definition FD_SETSIZE :: int where "FD_SETSIZE = 1024"

definition add_connection :: "cconfig \<Rightarrow> socket \<Rightarrow> 'k \<Rightarrow> string \<Rightarrow> ('d, 'k, 'e) tcp_client
    \<Rightarrow> (nat \<times> ('d, 'k, 'e) tcp_client) res" where
  "add_connection cfg sock k name s =
    bindR (getEventLoop (cfg_ioThread cfg) (nat (cfg_ioThread cfg)) (sk_fd sock)) (\<lambda>loop.
    let i = next_conn s; e = client_env s in
    Inr (i, s\<lparr>next_conn := Suc i, conn_loop := (conn_loop s)(i := loop),
      client_conns := (client_conns s)(i := Connection_new sock ConnectionByClient k e),
      client_env := e\<lparr>server_conns := AList.update name i (server_conns e),
        keepalive_count := (keepalive_count e)(name := 0)\<rparr>\<rparr>))"

definition getConnection :: "(string \<Rightarrow> 32 word) \<Rightarrow> cconfig \<Rightarrow> int \<Rightarrow> (inter_address \<Rightarrow> connect_answer)
    \<Rightarrow> 'k \<Rightarrow> string \<Rightarrow> ('d, 'k, 'e) tcp_client \<times> rpc_server_list
    \<Rightarrow> (nat option \<times> ('d, 'k, 'e) tcp_client \<times> rpc_server_list) res" where
  "getConnection inet_addr cfg fd connect k name = (\<lambda>(s, l).
    let e = client_env s in
    if map_of (server_conns e) name \<noteq> None \<and> keepalive_count e name < 3
    then Inr (map_of (server_conns e) name, s, l)
    else
      bindR (getServerAddr name l) (\<lambda>((ip, port), l).
      bindR (createNonblokingSock fd) (\<lambda>fd.
      bindR (Socket_new fd) (\<lambda>sock.
      let made = bindR (add_connection cfg sock k name s) (\<lambda>(i, s). Inr (Some i, s, l)) in
      case connect (InterAddress_new inet_addr ip port) of
        Connected \<Rightarrow> made
      | In_progress rc isset _ \<Rightarrow>
          if FD_SETSIZE \<le> sk_fd sock then Inl Out_of_bounds
          else if rc < 0 then Inr (None, s, l)
          else if rc = 0 then Inr (None, s, l)
          else if rc = 1 \<and> isset then made
          else Inr (None, s, l)
      | Connect_failed \<Rightarrow> Inr (None, s, l)))))"

section \<open>The heartbeat\<close>

definition keepalive_pkg :: "string \<Rightarrow> tinypb" where
  "keepalive_pkg mid = TinyPB_new\<lparr>msg_type := 1, msg_id := mid\<rparr>"

text \<open>The timer's callback up to its pause, and after it, with the identifier in between.\<close>

definition keepalive_send :: "nat list \<Rightarrow> msg_id_util \<times> ('d, 'k, 'e) tcp_client
    \<Rightarrow> (string \<times> msg_id_util \<times> ('d, 'k, 'e) tcp_client) res" where
  "keepalive_send dis = (\<lambda>(ids, s). bindR (GetMsgId dis ids) (\<lambda>(mid, ids).
    bindR (foldR (\<lambda>(name, i). on_conn i (pushSendMessage (keepalive_pkg mid) (Send_keepalive name i)))
      (server_conns (client_env s)) s) (\<lambda>s. Inr (mid, ids, s))))"

definition age :: "string \<Rightarrow> 'e client_shared_scheme \<Rightarrow> 'e client_shared_scheme" where
  "age name e = (let n = keepalive_count e name + 1 in
    if n \<ge> 3
    then e\<lparr>keepalive_count := (keepalive_count e)(name := 0), server_conns := AList.delete name (server_conns e)\<rparr>
    else e\<lparr>keepalive_count := (keepalive_count e)(name := n)\<rparr>)"

definition check_entry :: "string \<Rightarrow> string \<times> nat \<Rightarrow> ('d, 'k, 'e) tcp_client
    \<Rightarrow> ('d, 'k, 'e) tcp_client res" where
  "check_entry mid = (\<lambda>(name, i) s. bindR (on_conn i (popReadMessage mid) s) (\<lambda>s.
    Inr (s\<lparr>client_env := age name (client_env s)\<rparr>)))"

definition keepalive_check :: "string \<Rightarrow> ('d, 'k, 'e) tcp_client \<Rightarrow> ('d, 'k, 'e) tcp_client res" where
  "keepalive_check mid s = foldR (check_entry mid) (server_conns (client_env s)) s"

text \<open>The callbacks of the heartbeat; those of calls are the argument \<open>call\<close>.\<close>

fun client_exec :: "('d \<Rightarrow> tinypb \<Rightarrow> ('d, 'k, 'e) client_conn \<Rightarrow> ('d, 'k, 'e) client_conn res)
    \<Rightarrow> 'd client_done \<Rightarrow> tinypb \<Rightarrow> ('d, 'k, 'e) client_conn \<Rightarrow> ('d, 'k, 'e) client_conn res" where
  "client_exec call (Send_keepalive name i) m c = (
    if map_of (server_conns (c_env c)) name \<noteq> Some i then Inl Use_after_free
    else pushReadMessage (msg_id m) (Reply_keepalive name i) c)"
| "client_exec call (Reply_keepalive name i) m c = (
    if map_of (server_conns (c_env c)) name \<noteq> Some i then Inl Use_after_free
    else Inr (c\<lparr>c_env := (c_env c)\<lparr>keepalive_count := (keepalive_count (c_env c))(name := - 1)\<rparr>\<rparr>))"
| "client_exec call (Call_done d) m c = call d m c"

section \<open>Lemmas\<close>

text \<open>Two connections that differ in their environment only.\<close>

definition agree :: "('d, 'k, 'u) conn \<Rightarrow> ('d, 'k, 'u) conn \<Rightarrow> bool" where
  "agree c c' \<longleftrightarrow> c'\<lparr>c_env := c_env c\<rparr> = c"

lemma agree_refl [simp]: "agree c c"
  by (simp add: agree_def)

lemma agree_env [simp]: "agree c (c\<lparr>c_env := e\<rparr>)"
  by (simp add: agree_def)

lemma agree_trans: "agree c c1 \<Longrightarrow> agree c1 c2 \<Longrightarrow> agree c c2"
  unfolding agree_def by (cases c; cases c1; cases c2) simp

lemma agreeE:
  assumes "agree c c'"
  obtains e where "c' = c\<lparr>c_env := e\<rparr>"
proof -
  have "c' = c\<lparr>c_env := c_env c'\<rparr>" using assms unfolding agree_def by (cases c; cases c') simp
  then show thesis by (rule that)
qed

definition pings :: "string \<Rightarrow> nat \<Rightarrow> (string \<times> nat) list \<Rightarrow> (tinypb \<times> 'd client_done) list" where
  "pings mid j es = map (\<lambda>(name, i). (keepalive_pkg mid, Send_keepalive name i)) (filter (\<lambda>p. snd p = j) es)"

lemma send_entries:
  assumes "\<forall>(name, i) \<in> set es. \<not> write_locked (client_conns s i)"
  shows "\<exists>s'. foldR (\<lambda>(name, i). on_conn i (pushSendMessage (keepalive_pkg mid) (Send_keepalive name i))) es s = Inr s'
    \<and> client_env s' = client_env s
    \<and> (\<forall>j. agree ((client_conns s j)\<lparr>write_dones := write_dones (client_conns s j) @ pings mid j es\<rparr>) (client_conns s' j))"
  using assms
proof (induction es arbitrary: s)
  case Nil
  then show ?case by (simp add: pings_def)
next
  case (Cons p es)
  obtain name i where p: "p = (name, i)" by fastforce
  let ?c = "(client_conns s i)\<lparr>c_env := client_env s,
    write_dones := write_dones (client_conns s i) @ [(keepalive_pkg mid, Send_keepalive name i)]\<rparr>"
  let ?s = "s\<lparr>client_conns := (client_conns s)(i := ?c)\<rparr>"
  have on: "on_conn i (pushSendMessage (keepalive_pkg mid) (Send_keepalive name i)) s = Inr ?s"
    using Cons.prems by (simp add: p on_conn_def pushSendMessage_def)
  have "\<forall>(name, i) \<in> set es. \<not> write_locked (client_conns ?s i)" using Cons.prems by (auto simp: p)
  from Cons.IH [OF this] obtain s' where
    s': "foldR (\<lambda>(name, i). on_conn i (pushSendMessage (keepalive_pkg mid) (Send_keepalive name i))) es ?s = Inr s'"
    "client_env s' = client_env ?s"
    "\<And>j. agree ((client_conns ?s j)\<lparr>write_dones := write_dones (client_conns ?s j) @ pings mid j es\<rparr>) (client_conns s' j)"
    by blast
  have "agree ((client_conns s j)\<lparr>write_dones := write_dones (client_conns s j) @ pings mid j (p # es)\<rparr>) (client_conns s' j)" for j
    by (rule agree_trans [OF _ s'(3)]) (simp add: pings_def p agree_def)
  then show ?case using s'(1,2) on by (intro exI [of _ s']) (simp add: p)
qed

lemma check_entries:
  assumes "\<forall>(name, i) \<in> set es. \<not> read_locked (client_conns s i)"
  shows "\<exists>s'. foldR (check_entry mid) es s = Inr s'
    \<and> client_env s' = fold (\<lambda>(name, i). age name) es (client_env s)
    \<and> (\<forall>j. agree (if j \<in> snd ` set es
        then (client_conns s j)\<lparr>read_dones := (read_dones (client_conns s j))(mid := None)\<rparr>
        else client_conns s j) (client_conns s' j))"
  using assms
proof (induction es arbitrary: s)
  case (Cons p es)
  obtain name i where p: "p = (name, i)" by fastforce
  let ?c = "(client_conns s i)\<lparr>c_env := client_env s, read_dones := (read_dones (client_conns s i))(mid := None)\<rparr>"
  let ?s = "s\<lparr>client_conns := (client_conns s)(i := ?c), client_env := age name (client_env s)\<rparr>"
  have on: "check_entry mid p s = Inr ?s"
    using Cons.prems by (simp add: p check_entry_def on_conn_def popReadMessage_def)
  have "\<forall>(name, i) \<in> set es. \<not> read_locked (client_conns ?s i)" using Cons.prems by (auto simp: p)
  from Cons.IH [OF this] obtain s' where
    s': "foldR (check_entry mid) es ?s = Inr s'" "client_env s' = fold (\<lambda>(name, i). age name) es (client_env ?s)"
    "\<And>j. agree (if j \<in> snd ` set es
        then (client_conns ?s j)\<lparr>read_dones := (read_dones (client_conns ?s j))(mid := None)\<rparr>
        else client_conns ?s j) (client_conns s' j)"
    by blast
  have "agree (if j \<in> snd ` set (p # es)
        then (client_conns s j)\<lparr>read_dones := (read_dones (client_conns s j))(mid := None)\<rparr>
        else client_conns s j) (client_conns s' j)" for j
    by (rule agree_trans [OF _ s'(3)]) (auto simp: p agree_def)
  then show ?case using s'(1,2) on by (intro exI [of _ s']) (simp add: p)
qed simp

lemma fold_age:
  assumes "distinct (map fst es)"
  shows "(\<forall>n. keepalive_count (fold (\<lambda>(name, i). age name) es e) n = (if n \<in> fst ` set es
      then (if keepalive_count e n + 1 \<ge> 3 then 0 else keepalive_count e n + 1) else keepalive_count e n))
    \<and> server_conns (fold (\<lambda>(name, i). age name) es e)
      = filter (\<lambda>(n, i). \<not> (n \<in> fst ` set es \<and> keepalive_count e n + 1 \<ge> 3)) (server_conns e)"
  using assms
proof (induction es arbitrary: e)
  case (Cons p es)
  obtain name i where p: "p = (name, i)" by fastforce
  have new: "name \<notin> fst ` set es" and d: "distinct (map fst es)" using Cons.prems by (simp_all add: p)
  have ne: "a \<noteq> name" if "(a, b) \<in> set es" for a b using new that by force
  have c: "keepalive_count (age name e) n = (if n = name
      then (if keepalive_count e n + 1 \<ge> 3 then 0 else keepalive_count e n + 1) else keepalive_count e n)" for n
    by (simp add: age_def Let_def)
  have sc: "server_conns (age name e) = filter (\<lambda>(n, i). \<not> (n = name \<and> keepalive_count e n + 1 \<ge> 3)) (server_conns e)"
    by (auto simp: age_def Let_def AList.delete_eq intro!: filter_cong filter_True [symmetric])
  note IH = Cons.IH [OF d, of "age name e"]
  have "server_conns (fold (\<lambda>(name, i). age name) (p # es) e)
      = filter (\<lambda>(n, i). \<not> (n \<in> fst ` set es \<and> keepalive_count (age name e) n + 1 \<ge> 3)) (server_conns (age name e))"
    using IH by (simp add: p)
  also have "\<dots> = filter (\<lambda>(n, i). \<not> (n \<in> fst ` set (p # es) \<and> keepalive_count e n + 1 \<ge> 3)) (server_conns e)"
    using new unfolding sc filter_filter by (intro filter_cong refl) (auto simp: p c ne)
  finally show ?case using IH new by (auto simp: p c)
qed simp

section \<open>Rounds without traffic\<close>

text \<open>One period of the heartbeat in which no event of a connection is handled.\<close>

definition idle_round :: "nat list \<Rightarrow> msg_id_util \<times> ('d, 'k, 'e) tcp_client
    \<Rightarrow> (msg_id_util \<times> ('d, 'k, 'e) tcp_client) res" where
  "idle_round dis st = bindR (keepalive_send dis st) (\<lambda>(mid, ids, s).
    bindR (keepalive_check mid s) (\<lambda>s. Inr (ids, s)))"

text \<open>A connection to which only pending requests were added: nothing was sent or asked.\<close>

definition quiet :: "(tinypb \<times> 'd) list \<Rightarrow> ('d, 'k, 'u) conn \<Rightarrow> ('d, 'k, 'u) conn \<Rightarrow> bool" where
  "quiet ws c c' \<longleftrightarrow> (\<exists>rs e. c' = c\<lparr>write_dones := write_dones c @ ws, read_dones := rs, c_env := e\<rparr>)"

lemma quiet_trans: "quiet ws c c1 \<Longrightarrow> quiet ws' c1 c2 \<Longrightarrow> quiet (ws @ ws') c c2"
proof -
  assume "quiet ws c c1" "quiet ws' c1 c2"
  then obtain rs e rs' e' where "c1 = c\<lparr>write_dones := write_dones c @ ws, read_dones := rs, c_env := e\<rparr>"
    "c2 = c1\<lparr>write_dones := write_dones c1 @ ws', read_dones := rs', c_env := e'\<rparr>"
    unfolding quiet_def by blast
  then show "quiet (ws @ ws') c c2"
    unfolding quiet_def by (intro exI [of _ rs'] exI [of _ e']) simp
qed

lemma quiet_refl [simp]: "quiet [] c c"
  unfolding quiet_def by (rule exI [of _ "read_dones c"], rule exI [of _ "c_env c"]) simp

definition calm_client :: "('d, 'k, 'e) tcp_client \<Rightarrow> bool" where
  "calm_client s \<longleftrightarrow> distinct (map fst (server_conns (client_env s)))
    \<and> (\<forall>(name, i) \<in> set (server_conns (client_env s)). \<not> write_locked (client_conns s i)
        \<and> \<not> read_locked (client_conns s i) \<and> 0 \<le> keepalive_count (client_env s) name)"

lemma idle_round_ok:
  assumes "util_wf ids" "random_digits dis" "calm_client s"
  shows "\<exists>ids' s'. idle_round dis (ids, s) = Inr (ids', s') \<and> util_wf ids'
    \<and> server_conns (client_env s') = filter (\<lambda>(n, i). keepalive_count (client_env s) n + 1 < 3) (server_conns (client_env s))
    \<and> (\<forall>(n, i) \<in> set (server_conns (client_env s')). keepalive_count (client_env s') n = keepalive_count (client_env s) n + 1)
    \<and> (\<exists>mid. \<forall>j. quiet (pings mid j (server_conns (client_env s))) (client_conns s j) (client_conns s' j))"
proof -
  let ?es = "server_conns (client_env s)"
  obtain mid ids' where m: "GetMsgId dis ids = Inr (mid, ids')" "util_wf ids'"
    using GetMsgId_ok [OF assms(1,2)] by blast
  have w: "\<forall>(name, i) \<in> set ?es. \<not> write_locked (client_conns s i)"
    and r: "\<forall>(name, i) \<in> set ?es. \<not> read_locked (client_conns s i)"
    and d: "distinct (map fst ?es)" using assms(3) by (auto simp: calm_client_def)
  from send_entries [OF w, of mid] obtain s1 where
    s1: "foldR (\<lambda>(name, i). on_conn i (pushSendMessage (keepalive_pkg mid) (Send_keepalive name i))) ?es s = Inr s1"
    "client_env s1 = client_env s"
    "\<And>j. agree ((client_conns s j)\<lparr>write_dones := write_dones (client_conns s j) @ pings mid j ?es\<rparr>) (client_conns s1 j)"
    by blast
  have "\<not> read_locked (client_conns s1 i)" if "(name, i) \<in> set ?es" for name i
  proof -
    have "\<not> read_locked (client_conns s i)" using r that by auto
    then show ?thesis by (rule_tac agreeE [OF s1(3) [of i]]) simp
  qed
  then have "\<forall>(name, i) \<in> set ?es. \<not> read_locked (client_conns s1 i)" by blast
  from check_entries [OF this, of mid] obtain s2 where
    s2: "foldR (check_entry mid) ?es s1 = Inr s2" "client_env s2 = fold (\<lambda>(name, i). age name) ?es (client_env s)"
    "\<And>j. agree (if j \<in> snd ` set ?es
        then (client_conns s1 j)\<lparr>read_dones := (read_dones (client_conns s1 j))(mid := None)\<rparr>
        else client_conns s1 j) (client_conns s2 j)"
    unfolding s1(2) by blast
  have "idle_round dis (ids, s) = Inr (ids', s2)"
    using m(1) s1(1,2) s2(1) by (simp add: idle_round_def keepalive_send_def keepalive_check_def)
  moreover have sc: "server_conns (client_env s2) = filter (\<lambda>(n, i). keepalive_count (client_env s) n + 1 < 3) ?es"
    unfolding s2(2) conjunct2 [OF fold_age [OF d]] by (intro filter_cong refl) (auto simp: not_le image_iff)
  moreover have "\<forall>(n, i) \<in> set (server_conns (client_env s2)).
      keepalive_count (client_env s2) n = keepalive_count (client_env s) n + 1"
  proof (clarify)
    fix n i assume "(n, i) \<in> set (server_conns (client_env s2))"
    then have "n \<in> fst ` set ?es" "keepalive_count (client_env s) n + 1 < 3" unfolding sc by force+
    then show "keepalive_count (client_env s2) n = keepalive_count (client_env s) n + 1"
      unfolding s2(2) using conjunct1 [OF fold_age [OF d, of "client_env s"], rule_format, of n]
      by (simp add: not_le)
  qed
  moreover have "quiet (pings mid j ?es) (client_conns s j) (client_conns s2 j)" for j
  proof -
    obtain e1 where "client_conns s1 j = (client_conns s j)\<lparr>write_dones := write_dones (client_conns s j)
        @ pings mid j ?es, c_env := e1\<rparr>" by (rule agreeE [OF s1(3) [of j]]) simp
    moreover obtain e2 where "client_conns s2 j = (if j \<in> snd ` set ?es
        then (client_conns s1 j)\<lparr>read_dones := (read_dones (client_conns s1 j))(mid := None)\<rparr>
        else client_conns s1 j)\<lparr>c_env := e2\<rparr>" by (rule agreeE [OF s2(3) [of j]]) simp
    ultimately show ?thesis unfolding quiet_def
      by (intro exI [of _ "read_dones (client_conns s2 j)"] exI [of _ e2]) simp
  qed
  ultimately show ?thesis using m(2) by blast
qed

lemma idle_round_calm:
  assumes "calm_client s" "server_conns (client_env s') = filter P (server_conns (client_env s))"
    "\<And>n i. (n, i) \<in> set (server_conns (client_env s')) \<Longrightarrow>
      keepalive_count (client_env s') n = keepalive_count (client_env s) n + 1"
    "\<And>j. \<exists>ws. quiet ws (client_conns s j) (client_conns s' j)"
  shows "calm_client s'"
proof -
  have "\<not> write_locked (client_conns s' i) \<and> \<not> read_locked (client_conns s' i) \<and> 0 \<le> keepalive_count (client_env s') n"
    if m: "(n, i) \<in> set (server_conns (client_env s'))" for n i
  proof -
    have "(n, i) \<in> set (server_conns (client_env s))" using m assms(2) by auto
    moreover obtain ws where "quiet ws (client_conns s i) (client_conns s' i)" using assms(4) by blast
    ultimately show ?thesis using assms(1) assms(3) [OF m] by (auto simp: calm_client_def quiet_def)
  qed
  then show ?thesis using assms(1,2) by (auto simp: calm_client_def distinct_map_filter)
qed

lemma idle_rounds:
  assumes "util_wf ids" "\<forall>dis \<in> set ds. random_digits dis" "calm_client s"
  shows "\<exists>ids' s'. foldR idle_round ds (ids, s) = Inr (ids', s')
    \<and> server_conns (client_env s') = filter (\<lambda>(n, i). ds = [] \<or> keepalive_count (client_env s) n + int (length ds) < 3)
        (server_conns (client_env s))
    \<and> (\<forall>j. \<exists>mid ws. quiet ((if ds = [] then [] else pings mid j (server_conns (client_env s))) @ ws)
        (client_conns s j) (client_conns s' j))"
  using assms
proof (induction ds arbitrary: ids s)
  case Nil
  then show ?case using filter_True [of "server_conns (client_env s)"] by (auto intro: exI [of _ "[]"] quiet_refl)
next
  case (Cons dis ds)
  let ?es = "server_conns (client_env s)"
  have "random_digits dis" using Cons.prems(2) by simp
  from idle_round_ok [OF Cons.prems(1) this Cons.prems(3)] obtain ids1 s1 mid where
    s1: "idle_round dis (ids, s) = Inr (ids1, s1)" "util_wf ids1"
    "server_conns (client_env s1) = filter (\<lambda>(n, i). keepalive_count (client_env s) n + 1 < 3) ?es"
    "\<And>n i. (n, i) \<in> set (server_conns (client_env s1)) \<Longrightarrow>
      keepalive_count (client_env s1) n = keepalive_count (client_env s) n + 1"
    "\<And>j. quiet (pings mid j ?es) (client_conns s j) (client_conns s1 j)"
    by blast
  have calm: "calm_client s1" using s1(5) by (intro idle_round_calm [OF Cons.prems(3) s1(3,4)]) auto
  from Cons.IH [OF s1(2) _ calm] Cons.prems(2) obtain ids' s' where
    s': "foldR idle_round ds (ids1, s1) = Inr (ids', s')"
    "server_conns (client_env s') = filter (\<lambda>(n, i). ds = [] \<or> keepalive_count (client_env s1) n + int (length ds) < 3)
        (server_conns (client_env s1))"
    "\<And>j. \<exists>mid ws. quiet ((if ds = [] then [] else pings mid j (server_conns (client_env s1))) @ ws)
        (client_conns s1 j) (client_conns s' j)" by auto
  have "filter (\<lambda>(n, i). ds = [] \<or> keepalive_count (client_env s1) n + int (length ds) < 3) (server_conns (client_env s1))
      = filter (\<lambda>(n, i). ds = [] \<or> keepalive_count (client_env s) n + 1 + int (length ds) < 3) (server_conns (client_env s1))"
    by (intro filter_cong refl) (auto simp: s1(4))
  also have "\<dots> = filter (\<lambda>(n, i). keepalive_count (client_env s) n + int (length (dis # ds)) < 3) ?es"
    unfolding s1(3) filter_filter by (intro filter_cong refl) (auto simp: case_prod_beta)
  finally have "server_conns (client_env s') = filter (\<lambda>(n, i). dis # ds = [] \<or>
      keepalive_count (client_env s) n + int (length (dis # ds)) < 3) ?es" unfolding s'(2) by simp
  moreover have "\<exists>mid ws. quiet (pings mid j ?es @ ws) (client_conns s j) (client_conns s' j)" for j
    using s'(3) [of j] quiet_trans [OF s1(5) [of j]] by blast
  ultimately show ?case using s1(1) s'(1) by (intro exI [of _ ids'] exI [of _ s']) simp
qed

section \<open>Properties\<close>

text \<open>C30.
  The heartbeat drops every idle connection, healthy or not: it only queues its packages and
  never asks for the write event, so without other traffic nothing is sent and nothing can
  be answered, and after three rounds the table is empty. The connections themselves did not
  change but for the queued packages. When a caller that still holds such a connection makes
  it send, the queued heartbeat callback uses the erased entry of the table.
\<close>

theorem idle_connections_dropped:
  assumes "util_wf ids" "length ds = 3" "\<forall>dis \<in> set ds. random_digits dis" "calm_client s"
  shows "\<exists>ids' s'. foldR idle_round ds (ids, s) = Inr (ids', s') \<and> server_conns (client_env s') = []
    \<and> (\<forall>i. \<exists>ws. quiet ws (client_conns s i) (client_conns s' i))
    \<and> (\<forall>(name, i) \<in> set (server_conns (client_env s)). write_dones (client_conns s i) = [] \<longrightarrow>
        flush_requests (client_exec call) ((client_conns s' i)\<lparr>c_env := client_env s'\<rparr>) = Inl Use_after_free)"
proof -
  obtain ids' s' where
    s': "foldR idle_round ds (ids, s) = Inr (ids', s')"
    "server_conns (client_env s') = filter (\<lambda>(n, i). ds = [] \<or> keepalive_count (client_env s) n + int (length ds) < 3)
        (server_conns (client_env s))"
    "\<And>j. \<exists>mid ws. quiet ((if ds = [] then [] else pings mid j (server_conns (client_env s))) @ ws)
        (client_conns s j) (client_conns s' j)"
    using idle_rounds [OF assms(1,3,4)] by blast
  have ne: "ds \<noteq> []" using assms(2) by auto
  have empty: "server_conns (client_env s') = []"
    unfolding s'(2) using assms(2,4) by (auto simp: calm_client_def filter_empty_conv)
  have "flush_requests (client_exec call) ((client_conns s' i)\<lparr>c_env := client_env s'\<rparr>) = Inl Use_after_free"
    if m: "(name, i) \<in> set (server_conns (client_env s))" "write_dones (client_conns s i) = []" for name i
  proof -
    obtain mid ws where q: "quiet (pings mid i (server_conns (client_env s)) @ ws) (client_conns s i) (client_conns s' i)"
      using s'(3) [of i] ne by auto
    have "filter (\<lambda>p. snd p = i) (server_conns (client_env s)) \<noteq> []" using m(1) by (force simp: filter_empty_conv)
    then obtain n j es where "filter (\<lambda>p. snd p = i) (server_conns (client_env s)) = (n, j) # es"
      by (metis neq_Nil_conv prod.exhaust)
    moreover have "\<not> write_locked (client_conns s i)" using assms(4) m(1) by (auto simp: calm_client_def)
    ultimately show ?thesis using q m(2) empty by (auto simp: flush_requests_def quiet_def pings_def)
  qed
  moreover have "\<exists>ws. quiet ws (client_conns s i) (client_conns s' i)" for i using s'(3) [of i] by blast
  ultimately show ?thesis using s'(1) empty by (intro exI [of _ ids'] exI [of _ s']) auto
qed

definition sample_client :: "(nat, int \<Rightarrow> 32 word option, unit) tcp_client" where
  "sample_client = (let e = \<lparr>server_conns = [(''Order'', 0)], keepalive_count = (\<lambda>_. 0)\<rparr> in
    \<lparr>client_env = e, client_conns = (\<lambda>_. Connection_new \<lparr>sk_fd = 7, sk_ip = [], sk_port = 0, sk_opts = []\<rparr>
        ConnectionByClient Map.empty e),
      conn_loop = (\<lambda>_. 0), next_conn = 1\<rparr>)"

lemma sample_client_simps:
  "calm_client sample_client" "server_conns (client_env sample_client) = [(''Order'', 0)]"
  "write_dones (client_conns sample_client i) = []" "c_sent (client_conns sample_client i) = []"
  by (simp_all add: sample_client_def calm_client_def Connection_new_def Let_def)

lemma idle_connections_dropped_witness:
  "\<exists>ids' s'. foldR idle_round (replicate 3 (replicate 10 4)) (MsgIdUtil_new, sample_client) = Inr (ids', s')
    \<and> server_conns (client_env s') = [] \<and> c_sent (client_conns s' 0) = []
    \<and> flush_requests (client_exec (\<lambda>_ _. Inr)) ((client_conns s' 0)\<lparr>c_env := client_env s'\<rparr>) = Inl Use_after_free"
proof -
  have "util_wf MsgIdUtil_new" "length (replicate 3 (replicate 10 4)) = 3"
    "\<forall>dis \<in> set (replicate 3 (replicate 10 4)). random_digits dis"
    by (auto simp: random_digits_def g_msg_id_length_def)
  from idle_connections_dropped [OF this sample_client_simps(1), of "\<lambda>_ _. Inr"]
  obtain ids' s' where s': "foldR idle_round (replicate 3 (replicate 10 4)) (MsgIdUtil_new, sample_client) = Inr (ids', s')"
    "server_conns (client_env s') = []" "\<exists>ws. quiet ws (client_conns sample_client 0) (client_conns s' 0)"
    "flush_requests (client_exec (\<lambda>_ _. Inr)) ((client_conns s' 0)\<lparr>c_env := client_env s'\<rparr>) = Inl Use_after_free"
    by (auto simp: sample_client_simps)
  then have "c_sent (client_conns s' 0) = []" by (auto simp: quiet_def sample_client_simps)
  with s' show ?thesis by blast
qed

lemma filter_entry:
  "distinct (map snd es) \<Longrightarrow> (name, i) \<in> set es \<Longrightarrow> filter (\<lambda>p. snd p = i) es = [(name, i)]"
  by (induction es) (auto simp: filter_empty_conv image_iff)

text \<open>The answer arrives, and the second half of the round follows.\<close>

lemma answer_keeps_entry:
  assumes "distinct (map fst (server_conns (client_env s)))" "(name, i) \<in> set (server_conns (client_env s))"
    "\<forall>(n, j) \<in> set (server_conns (client_env s)). \<not> read_locked (client_conns s j)"
    "read_dones (client_conns s i) = [mid \<mapsto> Reply_keepalive name i]" "msg_id p = mid"
  shows "\<exists>s3 s4. on_conn i (reply_step (client_exec call) p) s = Inr s3
    \<and> keepalive_check mid s3 = Inr s4 \<and> (name, i) \<in> set (server_conns (client_env s4))
    \<and> keepalive_count (client_env s4) name = 0 \<and> read_dones (client_conns s4 i) = Map.empty"
proof -
  let ?es = "server_conns (client_env s)"
  let ?e = "(client_env s)\<lparr>keepalive_count := (keepalive_count (client_env s))(name := - 1)\<rparr>"
  let ?c = "(client_conns s i)\<lparr>c_env := ?e, read_dones := Map.empty, read_locked := False\<rparr>"
  let ?s3 = "s\<lparr>client_conns := (client_conns s)(i := ?c), client_env := ?e\<rparr>"
  have one: "map_of ?es name = Some i" using assms(1,2) by simp
  have "\<not> read_locked (client_conns s i)" using assms(2,3) by blast
  then have s3: "on_conn i (reply_step (client_exec call) p) s = Inr ?s3"
    using one assms(4,5) by (simp add: on_conn_def reply_step_def)
  have "\<forall>(n, j) \<in> set ?es. \<not> read_locked (client_conns ?s3 j)" using assms(3) by auto
  from check_entries [OF this, of mid] obtain s4 where
    s4: "foldR (check_entry mid) ?es ?s3 = Inr s4" "client_env s4 = fold (\<lambda>(name, i). age name) ?es ?e"
    "\<And>j. agree (if j \<in> snd ` set ?es
      then (client_conns ?s3 j)\<lparr>read_dones := (read_dones (client_conns ?s3 j))(mid := None)\<rparr>
      else client_conns ?s3 j) (client_conns s4 j)" by auto
  note f = fold_age [OF assms(1), of ?e]
  have n: "name \<in> fst ` set ?es" using assms(2) by force
  have "keepalive_count (client_env s4) name = 0"
    unfolding s4(2) using conjunct1 [OF f, rule_format, of name] n by simp
  moreover have "(name, i) \<in> set (server_conns (client_env s4))"
    unfolding s4(2) conjunct2 [OF f] using assms(2) by simp
  moreover have "read_dones (client_conns s4 i) = Map.empty"
    by (rule agreeE [OF s4(3) [of i]]) simp
  ultimately show ?thesis using s3 s4(1) by (intro exI [of _ ?s3] exI [of _ s4]) (simp add: keepalive_check_def)
qed

text \<open>C29.
  A heartbeat that is answered keeps its connection: when, between the two halves of a
  round, the connection sends its queued package and a reply with the identifier of the
  package arrives, the entry stays, its count is zero again, and the registration for the
  reply is gone. The server answers every heartbeat, so a connection with traffic at least
  every third round is kept.
\<close>

theorem keepalive_answered:
  assumes "util_wf ids" "random_digits dis" "calm_client s" "(name, i) \<in> set (server_conns (client_env s))"
    "distinct (map snd (server_conns (client_env s)))" "write_dones (client_conns s i) = []"
    "read_dones (client_conns s i) = Map.empty"
    "buffer_wf (outputbuffer (client_conns s i))" "33 \<le> buffer_room (outputbuffer (client_conns s i))"
  shows "\<exists>mid ids' s1 s2. keepalive_send dis (ids, s) = Inr (mid, ids', s1)
    \<and> on_conn i (flush_requests (client_exec call)) s1 = Inr s2
    \<and> contents (outputbuffer (client_conns s2 i)) = contents (outputbuffer (client_conns s i)) @ frame (keepalive_pkg mid)
    \<and> (\<forall>pkg. msg_id pkg = mid \<longrightarrow> (\<exists>s3 s4. on_conn i (reply_step (client_exec call) pkg) s2 = Inr s3
        \<and> keepalive_check mid s3 = Inr s4 \<and> (name, i) \<in> set (server_conns (client_env s4))
        \<and> keepalive_count (client_env s4) name = 0 \<and> read_dones (client_conns s4 i) = Map.empty))"
proof -
  let ?es = "server_conns (client_env s)"
  obtain mid ids' where m: "GetMsgId dis ids = Inr (mid, ids')" "is_msg_id mid"
    using GetMsgId_ok [OF assms(1,2)] by blast
  have w: "\<forall>(name, i) \<in> set ?es. \<not> write_locked (client_conns s i)"
    and r: "\<forall>(name, i) \<in> set ?es. \<not> read_locked (client_conns s i)"
    and d: "distinct (map fst ?es)" using assms(3) by (auto simp: calm_client_def)
  have li: "\<not> read_locked (client_conns s i)" "\<not> write_locked (client_conns s i)" using w r assms(4) by auto
  have sole: "filter (\<lambda>p. snd p = i) ?es = [(name, i)]"
    by (rule filter_entry [OF assms(5,4)])
  from send_entries [OF w, of mid] obtain s1 where
    s1: "foldR (\<lambda>(name, i). on_conn i (pushSendMessage (keepalive_pkg mid) (Send_keepalive name i))) ?es s = Inr s1"
    "client_env s1 = client_env s"
    "\<And>j. agree ((client_conns s j)\<lparr>write_dones := write_dones (client_conns s j) @ pings mid j ?es\<rparr>) (client_conns s1 j)"
    by blast
  have send: "keepalive_send dis (ids, s) = Inr (mid, ids', s1)" using m(1) s1(1) by (simp add: keepalive_send_def)
  have one: "map_of ?es name = Some i" using d assms(4) by simp
  obtain e1 where c1: "client_conns s1 i = (client_conns s i)\<lparr>write_dones := [(keepalive_pkg mid, Send_keepalive name i)], c_env := e1\<rparr>"
    by (rule agreeE [OF s1(3) [of i]]) (simp add: assms(6) pings_def sole)
  have pkg: "default_id (keepalive_pkg mid) = keepalive_pkg mid" "package_length (keepalive_pkg mid) = 33"
    "msg_id (keepalive_pkg mid) = mid"
    using m(2) by (auto simp: default_id_def keepalive_pkg_def package_length_def TinyPB_new_def is_msg_id_def g_msg_id_length_def)
  obtain ob where ob: "encode [keepalive_pkg mid] (outputbuffer (client_conns s i)) = Inr ([keepalive_pkg mid], ob)"
    using encode_ok [OF assms(8), of "[keepalive_pkg mid]"] assms(9) pkg by auto
  have cob: "contents ob = contents (outputbuffer (client_conns s i)) @ frame (keepalive_pkg mid)"
    using encode_Inr [OF assms(8) ob] by simp
  let ?c2 = "(client_conns s i)\<lparr>c_env := client_env s, read_dones := [mid \<mapsto> Reply_keepalive name i],
    write_dones := [], write_locked := False, outputbuffer := ob\<rparr>"
  let ?s2 = "s1\<lparr>client_conns := (client_conns s1)(i := ?c2), client_env := client_env s\<rparr>"
  have flush: "on_conn i (flush_requests (client_exec call)) s1 = Inr ?s2"
    using li ob one assms(7) pkg(3) s1(2) by (simp add: on_conn_def c1 flush_requests_def pushReadMessage_def)
  have "\<not> read_locked (client_conns ?s2 j)" if "(n, j) \<in> set ?es" for n j
  proof -
    have "\<not> read_locked (client_conns s j)" using r that by auto
    then have "\<not> read_locked (client_conns s1 j)" by (rule_tac agreeE [OF s1(3) [of j]]) simp
    then show ?thesis using li(1) by simp
  qed
  then have "\<forall>(n, j) \<in> set ?es. \<not> read_locked (client_conns ?s2 j)" by blast
  moreover have "server_conns (client_env ?s2) = ?es" by simp
  ultimately have "\<forall>(n, j) \<in> set (server_conns (client_env ?s2)). \<not> read_locked (client_conns ?s2 j)" by (simp only:)
  note reply = answer_keeps_entry [OF _ _ this, of name i mid]
  show ?thesis
    by (intro exI [of _ mid] exI [of _ ids'] exI [of _ s1] exI [of _ ?s2] conjI allI impI send flush reply)
      (use d assms(4) in \<open>simp_all add: cob\<close>)
qed

lemma keepalive_answered_witness:
  "\<exists>mid ids' s1 s2. keepalive_send (replicate 10 4) (MsgIdUtil_new, sample_client) = Inr (mid, ids', s1)
    \<and> on_conn 0 (flush_requests (client_exec (\<lambda>_ _. Inr))) s1 = Inr s2
    \<and> contents (outputbuffer (client_conns s2 0)) = frame (keepalive_pkg mid)
    \<and> (\<exists>s3 s4. on_conn 0 (reply_step (client_exec (\<lambda>_ _. Inr)) (keepalive_pkg mid)) s2 = Inr s3
        \<and> keepalive_check mid s3 = Inr s4 \<and> server_conns (client_env s4) \<noteq> [])"
proof -
  have "\<exists>mid ids' s1 s2. keepalive_send (replicate 10 4) (MsgIdUtil_new, sample_client) = Inr (mid, ids', s1)
    \<and> on_conn 0 (flush_requests (client_exec (\<lambda>_ _. Inr))) s1 = Inr s2
    \<and> contents (outputbuffer (client_conns s2 0))
        = contents (outputbuffer (client_conns sample_client 0)) @ frame (keepalive_pkg mid)
    \<and> (\<forall>pkg. msg_id pkg = mid \<longrightarrow> (\<exists>s3 s4. on_conn 0 (reply_step (client_exec (\<lambda>_ _. Inr)) pkg) s2 = Inr s3
        \<and> keepalive_check mid s3 = Inr s4 \<and> (''Order'', 0) \<in> set (server_conns (client_env s4))
        \<and> keepalive_count (client_env s4) ''Order'' = 0 \<and> read_dones (client_conns s4 0) = Map.empty))"
    by (rule keepalive_answered)
      (auto simp: random_digits_def g_msg_id_length_def sample_client_simps,
       simp_all add: sample_client_def Connection_new_def Let_def)
  moreover have "contents (outputbuffer (client_conns sample_client 0)) = []"
    by (simp add: sample_client_def Connection_new_def Let_def)
  moreover have "msg_id (keepalive_pkg mid) = mid" for mid by (simp add: keepalive_pkg_def)
  ultimately show ?thesis by (metis append_Nil empty_iff list.set(1))
qed

text \<open>The answers the code takes for a connection: \<open>SO_ERROR\<close> is not looked at.\<close>

definition established :: "connect_answer \<Rightarrow> bool" where
  "established a \<longleftrightarrow> a = Connected \<or> (\<exists>e. a = In_progress 1 True e)"

definition in_progress :: "connect_answer \<Rightarrow> bool" where
  "in_progress a \<longleftrightarrow> (\<exists>rc b e. a = In_progress rc b e)"

text \<open>C28.
  For a service without a usable connection, \<open>getConnection\<close> connects to the address the
  server list gives. If the attempt succeeds at once or the socket becomes writable within
  the time-out, the new connection is returned and entered into the table with count zero,
  on the event loop its descriptor selects; otherwise nothing is returned and nothing
  changes. A refused asynchronous attempt also makes the socket writable: it is returned and
  kept as a connection, whatever its pending error \<open>e\<close> is. A descriptor of 1024 or more is
  written outside the \<open>fd_set\<close>.
\<close>

theorem getConnection_result:
  assumes "map_of (server_conns (client_env s)) name = None" "getServerAddr name l = Inr ((addr, pt), l')"
    "0 \<le> fd" "0 < cfg_ioThread cfg" "cfg_ioThread cfg \<le> INT_MAX"
    "a = connect (InterAddress_new inet_addr addr pt)"
  shows "(if in_progress a \<and> FD_SETSIZE \<le> fd
      then getConnection inet_addr cfg fd connect k name (s, l) = Inl Out_of_bounds
      else if established a
      then \<exists>s'. getConnection inet_addr cfg fd connect k name (s, l) = Inr (Some (next_conn s), s', l')
        \<and> map_of (server_conns (client_env s')) = (map_of (server_conns (client_env s)))(name \<mapsto> next_conn s)
        \<and> keepalive_count (client_env s') name = 0 \<and> conn_loop s' (next_conn s) = nat (fd mod cfg_ioThread cfg)
        \<and> c_type (client_conns s' (next_conn s)) = ConnectionByClient
        \<and> sk_fd (c_sock (client_conns s' (next_conn s))) = fd
        \<and> (\<forall>i. i \<noteq> next_conn s \<longrightarrow> client_conns s' i = client_conns s i)
      else getConnection inet_addr cfg fd connect k name (s, l) = Inr (None, s, l'))"
proof -
  have loop: "getEventLoop (cfg_ioThread cfg) (nat (cfg_ioThread cfg)) fd = Inr (nat (fd mod cfg_ioThread cfg))"
    by (rule getEventLoop_bound [OF assms(3-5)])
  show ?thesis
    using assms(1-3) loop
    by (cases a) (auto simp: getConnection_def assms(6) [symmetric] createNonblokingSock_def Socket_new_def Let_def
        in_progress_def established_def add_connection_def Connection_new_def AList.update_conv')
qed

text \<open>A connection that was refused (error 111) while it was in progress.\<close>

lemma getConnection_result_witness:
  "\<exists>s'. getConnection (\<lambda>_. 0) (sample_config\<lparr>cfg_ioThread := 2\<rparr>) 9 (\<lambda>_. In_progress 1 True 111) Map.empty ''Pay''
      (sample_client, RpcServerList_new) = Inr (Some 1, s', RpcServerList_new)
    \<and> map_of (server_conns (client_env s')) ''Pay'' = Some 1 \<and> conn_loop s' 1 = 1"
proof -
  have n: "next_conn sample_client = 1" "map_of (server_conns (client_env sample_client)) ''Pay'' = None"
    by (simp_all add: sample_client_def Let_def)
  have a: "getServerAddr ''Pay'' RpcServerList_new = Inr (('''', - 1), RpcServerList_new)"
    by (simp add: getServerAddr_def RpcServerList_new_def)
  have e: "in_progress (In_progress 1 True 111)" "established (In_progress 1 True 111)"
    unfolding in_progress_def established_def by blast+
  let ?get = "getConnection (\<lambda>_. 0) (sample_config\<lparr>cfg_ioThread := 2\<rparr>) 9 (\<lambda>_. In_progress 1 True 111) Map.empty ''Pay''
      (sample_client, RpcServerList_new)"
  obtain s' where "?get = Inr (Some (next_conn sample_client), s', RpcServerList_new)"
    "map_of (server_conns (client_env s')) = (map_of (server_conns (client_env sample_client)))(''Pay'' \<mapsto> next_conn sample_client)"
    "conn_loop s' (next_conn sample_client) = nat (9 mod 2)"
    using getConnection_result [OF n(2) a, of 9 "sample_config\<lparr>cfg_ioThread := 2\<rparr>" "In_progress 1 True 111"
      "\<lambda>_. In_progress 1 True 111" "\<lambda>_. 0" Map.empty] e
    by (simp add: FD_SETSIZE_def INT_MAX_def) blast
  then show ?thesis using n(1) by (intro exI [of _ s']) simp
qed

end
