(* ===== verification/Controller.thy ===== *)
theory Controller
  imports Sockets
begin

text \<open>
  The controller of a call, \<open>src/rpc/rpc_controller.cpp\<close>, and the closure that ends one,
  \<open>src/rpc/rpc_callback.cpp\<close>. The peer address is default-constructed, so it is \<open>None\<close>
  until it is set. The number of a callback stands for the callback.
\<close>

record rpc_controller =
  ctl_error_code :: int
  error_info :: string
  ctl_msg_id :: string
  is_failed :: bool
  is_cancle :: bool
  local_addr :: inter_address
  peer_addr :: "inter_address option"
  time_out :: int

definition RpcController_new :: "(string \<Rightarrow> 32 word) \<Rightarrow> cconfig \<Rightarrow> rpc_controller" where
  "RpcController_new inet_addr cfg = \<lparr>ctl_error_code = 0, error_info = [], ctl_msg_id = [],
    is_failed = False, is_cancle = False,
    local_addr = InterAddress_new inet_addr ''0.0.0.0'' (cfg_port cfg), peer_addr = None,
    time_out = 1000\<rparr>"

definition Reset :: "(string \<Rightarrow> 32 word) \<Rightarrow> cconfig \<Rightarrow> rpc_controller \<Rightarrow> rpc_controller" where
  "Reset inet_addr cfg c = c\<lparr>ctl_error_code := 0, error_info := [], ctl_msg_id := [],
    is_failed := False, is_cancle := False, time_out := 1000,
    local_addr := InterAddress_new inet_addr ''0.0.0.0'' (cfg_port cfg), peer_addr := None\<rparr>"

definition Failed :: "rpc_controller \<Rightarrow> bool" where "Failed c = is_failed c"
definition ErrorText :: "rpc_controller \<Rightarrow> string" where "ErrorText c = error_info c"
definition StartCancel :: "rpc_controller \<Rightarrow> rpc_controller" where "StartCancel c = c\<lparr>is_cancle := True\<rparr>"
definition SetFailed :: "string \<Rightarrow> rpc_controller \<Rightarrow> rpc_controller" where
  "SetFailed reason c = c\<lparr>is_failed := True, error_info := reason\<rparr>"
definition IsCanceled :: "rpc_controller \<Rightarrow> bool" where "IsCanceled c = is_cancle c"
definition NotifyOnCancel :: "'f \<Rightarrow> rpc_controller \<Rightarrow> rpc_controller" where "NotifyOnCancel callback c = c"
definition SetError :: "int \<Rightarrow> string \<Rightarrow> rpc_controller \<Rightarrow> rpc_controller" where
  "SetError code info c = SetFailed info (c\<lparr>ctl_error_code := code\<rparr>)"
definition GetErrorCode :: "rpc_controller \<Rightarrow> int" where "GetErrorCode c = ctl_error_code c"
definition GetErrorInfo :: "rpc_controller \<Rightarrow> string" where "GetErrorInfo c = error_info c"
definition SetMsgId :: "string \<Rightarrow> rpc_controller \<Rightarrow> rpc_controller" where "SetMsgId i c = c\<lparr>ctl_msg_id := i\<rparr>"
definition controller_GetMsgId :: "rpc_controller \<Rightarrow> string" where "controller_GetMsgId c = ctl_msg_id c"
definition SetPeerAddr :: "(string \<Rightarrow> 32 word) \<Rightarrow> string \<Rightarrow> int \<Rightarrow> rpc_controller \<Rightarrow> rpc_controller" where
  "SetPeerAddr inet_addr ip port c = c\<lparr>peer_addr := Some (InterAddress_new inet_addr ip port)\<rparr>"
definition GetPeerAddr :: "rpc_controller \<Rightarrow> inter_address option" where "GetPeerAddr c = peer_addr c"
definition SetLocalAddr :: "(string \<Rightarrow> 32 word) \<Rightarrow> string \<Rightarrow> int \<Rightarrow> rpc_controller \<Rightarrow> rpc_controller" where
  "SetLocalAddr inet_addr ip port c = c\<lparr>local_addr := InterAddress_new inet_addr ip port\<rparr>"
definition GetLocalAddr :: "rpc_controller \<Rightarrow> inter_address" where "GetLocalAddr c = local_addr c"
definition SetTimeOut :: "int \<Rightarrow> rpc_controller \<Rightarrow> rpc_controller" where "SetTimeOut t c = c\<lparr>time_out := t\<rparr>"
definition GetTimeOut :: "rpc_controller \<Rightarrow> int" where "GetTimeOut c = time_out c"

lemmas controller_defs = Failed_def ErrorText_def StartCancel_def SetFailed_def IsCanceled_def
  SetError_def GetErrorCode_def GetErrorInfo_def SetMsgId_def controller_GetMsgId_def SetPeerAddr_def
  GetPeerAddr_def SetLocalAddr_def GetLocalAddr_def SetTimeOut_def GetTimeOut_def

section \<open>Closures\<close>

record 'f rpc_closure =
  cb :: "'f option"

definition RpcClosure_new :: "'f option \<Rightarrow> 'f rpc_closure" where "RpcClosure_new f = \<lparr>cb = f\<rparr>"

definition setCallBack :: "'f option \<Rightarrow> 'f rpc_closure \<Rightarrow> 'f rpc_closure" where
  "setCallBack f c = c\<lparr>cb := f\<rparr>"

text \<open>\<open>Run\<close>: the callbacks it calls.\<close>

definition Run :: "'f rpc_closure \<Rightarrow> 'f list" where
  "Run c = (case cb c of None \<Rightarrow> [] | Some f \<Rightarrow> [f])"

text \<open>A controller that was reset is a new one: nothing of an earlier call is left.\<close>

lemma Reset_new: "Reset inet_addr cfg c = RpcController_new inet_addr cfg"
  by (cases c) (simp add: Reset_def RpcController_new_def)

lemma SetError_failed: "Failed (SetError e i c) \<and> GetErrorCode (SetError e i c) = e
    \<and> GetErrorInfo (SetError e i c) = i \<and> IsCanceled (SetError e i c) = IsCanceled c"
  by (simp add: controller_defs)

end
