(* ===== verification/ErrorCode.thy ===== *)
theory ErrorCode
  imports Prelude
begin

text \<open>
  The error codes of \<open>src/common/error_code.h\<close> (the macro pastes \<open>1000\<close> in front of a
  four-digit number) and \<open>ErrorCode::getErrorInfo\<close>, a look-up in the table the
  constructor fills.
\<close>

definition ERROR_PEER_CLOSED :: int where "ERROR_PEER_CLOSED = 10000000"
definition ERROR_FAILED_CONNECT :: int where "ERROR_FAILED_CONNECT = 10000001"
definition ERROR_FAILED_GET_REPLY :: int where "ERROR_FAILED_GET_REPLY = 10000002"
definition ERROR_FAILED_DESERIALIZE :: int where "ERROR_FAILED_DESERIALIZE = 10000003"
definition ERROR_FAILED_SERIALIZE :: int where "ERROR_FAILED_SERIALIZE = 10000004"
definition ERROR_FAILED_ENCODE :: int where "ERROR_FAILED_ENCODE = 10000005"
definition ERROR_FAILED_DECODE :: int where "ERROR_FAILED_DECODE = 10000006"
definition ERROR_RPC_CALL_TIMEOUT :: int where "ERROR_RPC_CALL_TIMEOUT = 10000007"
definition ERROR_SERVICE_NOT_FOUND :: int where "ERROR_SERVICE_NOT_FOUND = 10000008"
definition ERROR_METHOD_NOT_FOUND :: int where "ERROR_METHOD_NOT_FOUND = 10000009"
definition ERROR_PARSE_SERVICE_NAME :: int where "ERROR_PARSE_SERVICE_NAME = 10000010"
definition ERROR_RPC_CHANNEL_INIT :: int where "ERROR_RPC_CHANNEL_INIT = 10000011"
definition ERROR_RPC_PEER_ADDR :: int where "ERROR_RPC_PEER_ADDR = 10000012"

lemmas error_codes =
  ERROR_PEER_CLOSED_def ERROR_FAILED_CONNECT_def ERROR_FAILED_GET_REPLY_def
  ERROR_FAILED_DESERIALIZE_def ERROR_FAILED_SERIALIZE_def ERROR_FAILED_ENCODE_def
  ERROR_FAILED_DECODE_def ERROR_RPC_CALL_TIMEOUT_def ERROR_SERVICE_NOT_FOUND_def
  ERROR_METHOD_NOT_FOUND_def ERROR_PARSE_SERVICE_NAME_def ERROR_RPC_CHANNEL_INIT_def
  ERROR_RPC_PEER_ADDR_def

definition errorInfo :: "(int \<times> string) list" where
  "errorInfo = [
    (ERROR_PEER_CLOSED, ''peer closed''),
    (ERROR_FAILED_CONNECT, ''connect error''),
    (ERROR_FAILED_GET_REPLY, ''get reply error''),
    (ERROR_FAILED_DESERIALIZE, ''deserilize error''),
    (ERROR_FAILED_SERIALIZE, ''serilize error''),
    (ERROR_FAILED_ENCODE, ''encode error''),
    (ERROR_FAILED_DECODE, ''decode error''),
    (ERROR_RPC_CALL_TIMEOUT, ''rpc call timeout''),
    (ERROR_SERVICE_NOT_FOUND, ''service not found''),
    (ERROR_METHOD_NOT_FOUND, ''method not found''),
    (ERROR_PARSE_SERVICE_NAME, ''parse service name error''),
    (ERROR_RPC_CHANNEL_INIT, ''rpcChannel init error''),
    (ERROR_RPC_PEER_ADDR, ''peer addr error'')]"

definition getErrorInfo :: "int \<Rightarrow> string" where
  "getErrorInfo errorCode = (case map_of errorInfo errorCode of
      None \<Rightarrow> ''unknow error''
    | Some info \<Rightarrow> info)"

lemma error_codes_distinct: "distinct (map fst errorInfo)"
  by (simp add: errorInfo_def error_codes)

lemma error_infos_distinct: "distinct (''unknow error'' # map snd errorInfo)"
  by (simp add: errorInfo_def)

lemma error_codes_not_zero: "0 \<notin> fst ` set errorInfo"
  by (simp add: errorInfo_def error_codes)

text \<open>A code is determined by its text, and no listed code reads as unknown.\<close>

lemma getErrorInfo_listed: "(e, i) \<in> set errorInfo \<Longrightarrow> getErrorInfo e = i"
  using error_codes_distinct by (simp add: getErrorInfo_def)

lemma getErrorInfo_inj:
  assumes "e \<in> fst ` set errorInfo" "getErrorInfo e = getErrorInfo e'"
  shows "e' = e"
proof -
  obtain i where i: "(e, i) \<in> set errorInfo" using assms by auto
  then have "getErrorInfo e' = i" using assms getErrorInfo_listed by metis
  moreover have "i \<noteq> ''unknow error''"
    using i error_infos_distinct by (auto simp: rev_image_eqI)
  ultimately have "map_of errorInfo e' = Some i"
    by (auto simp: getErrorInfo_def split: option.splits)
  then have "(e', i) \<in> set errorInfo" by (rule map_of_SomeD)
  moreover have "inj_on snd (set errorInfo)"
    using error_infos_distinct by (simp add: distinct_map)
  ultimately have "(e', i) = (e, i)" using i by (intro inj_onD [of snd "set errorInfo"]) auto
  then show ?thesis by simp
qed

end
