(* ===== verification/Dispatcher.thy ===== *)
theory Dispatcher
  imports Controller Coder ErrorCode ServerList
begin

text \<open>
  The server side of a call: \<open>RpcDispatcher\<close> of \<open>src/rpc/rpc_dispatcher.cpp\<close> and the
  registration of a service, with \<open>RpcRegistry\<close> of \<open>src/common/RpcRegistry.h\<close>. The
  Protobuf library and the services are not part of the repository: a service is a record
  of what the dispatcher asks of it (the name and the methods of its descriptor, the
  parsing of a request, the call, the serialization of the response). The service's
  answer to a call does not depend on earlier calls in this model.
\<close>

section \<open>Services\<close>

record ('m, 'q, 'r) service =
  full_name :: string
  FindMethodByName :: "string \<Rightarrow> 'm option"
  ParseFromString :: "'m \<Rightarrow> string \<Rightarrow> 'q option"
  CallMethod :: "'m \<Rightarrow> rpc_controller \<Rightarrow> 'q \<Rightarrow> 'r"
  SerializeToString :: "'r \<Rightarrow> bool \<times> string"

type_synonym ('m, 'q, 'r) service_map = "string \<rightharpoonup> ('m, 'q, 'r) service"

definition parseServiceFullName :: "string \<Rightarrow> (string \<times> string) option" where
  "parseServiceFullName full = (
    if full = [] then None
    else let i = length (takeWhile (\<lambda>c. c \<noteq> CHR ''.'') full) in
      if i = length full then None
      else Some (take i full, take (length full - i - 1) (drop (i + 1) full)))"

text \<open>\<open>dispatch\<close> fills the reply \<open>rsp\<close>; \<open>ip\<close> and \<open>port\<close> are those of the connection.\<close>

definition dispatch :: "(string \<Rightarrow> 32 word) \<Rightarrow> cconfig \<Rightarrow> ('m, 'q, 'r) service_map
    \<Rightarrow> string \<times> int \<Rightarrow> tinypb \<Rightarrow> tinypb \<Rightarrow> tinypb" where
  "dispatch inet_addr cfg services peer req rsp = (
    let rsp = rsp\<lparr>msg_type := msg_type req, msg_id := msg_id req, method_name := method_name req\<rparr> in
    if msg_type rsp = 1 then rsp
    else (case parseServiceFullName (method_name req) of
      None \<Rightarrow> rsp\<lparr>error_code := word_of_int ERROR_PARSE_SERVICE_NAME\<rparr>
    | Some (service_name, method) \<Rightarrow>
      (case services service_name of
        None \<Rightarrow> rsp\<lparr>error_code := word_of_int ERROR_SERVICE_NOT_FOUND\<rparr>
      | Some service \<Rightarrow>
        (case FindMethodByName service method of
          None \<Rightarrow> rsp\<lparr>error_code := word_of_int ERROR_SERVICE_NOT_FOUND\<rparr>
        | Some m \<Rightarrow>
          (case ParseFromString service m (pb_data req) of
            None \<Rightarrow> rsp\<lparr>error_code := word_of_int ERROR_FAILED_DESERIALIZE\<rparr>
          | Some req_msg \<Rightarrow>
            let controller = SetMsgId (msg_id req)
                  (SetPeerAddr inet_addr (fst peer) (snd peer) (RpcController_new inet_addr cfg));
                rsp_msg = CallMethod service m controller req_msg;
                (ok, data) = SerializeToString service rsp_msg;
                rsp = rsp\<lparr>pb_data := data\<rparr>
            in if \<not> ok then rsp\<lparr>error_code := word_of_int ERROR_FAILED_SERIALIZE\<rparr>
               else rsp\<lparr>error_code := 0\<rparr>)))))"

section \<open>Registration\<close>

text \<open>
  \<open>CpuUsage\<close> reads the first three numbers of the first line of \<open>/proc/stat\<close> and compares
  them with those of its last call, kept in static variables; \<open>unsigned long long\<close>
  differences wrap. The quotient is \<open>None\<close> where the \<open>double\<close> division gives no number
  (a zero time difference).
\<close>

record cpu_stat =
  lastUpdate :: nat
  lastTotal :: nat

definition CpuUsage :: "nat list \<Rightarrow> cpu_stat \<Rightarrow> (real option \<times> cpu_stat) res" where
  "CpuUsage line s = (case line of
      userTime # sysTime # idleTime # _ \<Rightarrow>
        let currentTime = size_plus (size_plus userTime sysTime) idleTime;
            currentTotal = size_plus userTime sysTime;
            timeDelta = size_minus currentTime (lastUpdate s);
            totalDelta = size_minus currentTotal (lastTotal s);
            cpuUsage = (if lastUpdate s \<noteq> 0
              then (if timeDelta = 0 then None else Some (real totalDelta / real timeDelta))
              else Some 0)
        in Inr (cpuUsage, \<lparr>lastUpdate = currentTime, lastTotal = currentTotal\<rparr>)
    | _ \<Rightarrow> Inl Uninitialised)"

definition getCpuUsage :: "nat list \<Rightarrow> nat list \<Rightarrow> cpu_stat \<Rightarrow> (real option \<times> cpu_stat) res" where
  "getCpuUsage line1 line2 s = bindR (CpuUsage line1 s) (\<lambda>(_, s). CpuUsage line2 s)"

definition registry_key :: "cconfig \<Rightarrow> string \<Rightarrow> string" where
  "registry_key cfg service_name = cfg_etcd_base_dir cfg @ ''/'' @ service_name @ ''/''
    @ cfg_ip cfg @ ''-'' @ to_string (cfg_port cfg)"

definition registry_value :: "cconfig \<Rightarrow> real \<Rightarrow> string" where
  "registry_value cfg cpu = cfg_ip cfg @ '':'' @ to_string (cfg_port cfg) @ ''_'' @ to_string_double cpu"

text \<open>
  \<open>registerService\<close>: the new service map, and the entry put into etcd with its answer. A
  failed registration is only logged.
\<close>

definition registerService :: "cconfig \<Rightarrow> real \<Rightarrow> ('m, 'q, 'r) service \<Rightarrow> ('m, 'q, 'r) service_map
    \<Rightarrow> ('m, 'q, 'r) service_map \<times> string \<times> string" where
  "registerService cfg cpu service services =
    (services(full_name service \<mapsto> service), registry_key cfg (full_name service), registry_value cfg cpu)"

section \<open>Lemmas\<close>

lemma parseServiceFullName_split:
  "CHR ''.'' \<notin> set s \<Longrightarrow> parseServiceFullName (s @ CHR ''.'' # m) = Some (s, m)"
  by (simp add: parseServiceFullName_def takeWhile_to_sep)

lemma parseServiceFullName_None: "CHR ''.'' \<notin> set f \<Longrightarrow> parseServiceFullName f = None"
proof -
  assume "CHR ''.'' \<notin> set f"
  then have "takeWhile (\<lambda>c. c \<noteq> CHR ''.'') f = f" unfolding takeWhile_eq_all_conv by metis
  then show "parseServiceFullName f = None"
    by (simp only: parseServiceFullName_def Let_def simp_thms if_True if_cancel)
qed

lemma parseServiceFullName_service:
  assumes "parseServiceFullName f = Some (s, m)"
  shows "CHR ''.'' \<notin> set s"
proof -
  have "CHR ''.'' \<in> set f" using assms parseServiceFullName_None by fastforce
  then obtain p q where "f = p @ CHR ''.'' # q" "CHR ''.'' \<notin> set p" by (meson split_list_first)
  then show ?thesis using assms by (simp add: parseServiceFullName_split)
qed

section \<open>Properties\<close>

text \<open>C23.
  The reply to a request for a registered service carries the identifier, the type and
  the method name of the request. A heartbeat is echoed. A call of an existing method
  with a readable request gets the serialized response of the service to a fresh
  controller with this identifier, and error code 0; an unreadable request and an
  unknown method get an error code and no data (for the unknown method it is the code of
  an unknown service).
\<close>

theorem dispatch_replies:
  fixes services :: "('m, 'q, 'r) service_map" and inet_addr :: "string \<Rightarrow> 32 word" and cfg :: cconfig
    and peer :: "string \<times> int" and req :: tinypb
  defines "rsp \<equiv> dispatch inet_addr cfg services peer req TinyPB_new"
  assumes "\<And>r. fst (SerializeToString s r)" "method_name req = sn @ CHR ''.'' # mn" "CHR ''.'' \<notin> set sn"
    "services sn = Some s"
  shows "msg_id rsp = msg_id req \<and> msg_type rsp = msg_type req \<and> method_name rsp = method_name req
    \<and> (msg_type req = 1 \<longrightarrow> error_code rsp = 0 \<and> pb_data rsp = [])
    \<and> (msg_type req \<noteq> 1 \<longrightarrow> (case FindMethodByName s mn of
          None \<Rightarrow> error_code rsp = word_of_int ERROR_SERVICE_NOT_FOUND \<and> pb_data rsp = []
        | Some m \<Rightarrow> (case ParseFromString s m (pb_data req) of
              None \<Rightarrow> error_code rsp = word_of_int ERROR_FAILED_DESERIALIZE \<and> pb_data rsp = []
            | Some q \<Rightarrow> error_code rsp = 0 \<and> (\<exists>c. controller_GetMsgId c = msg_id req \<and> \<not> Failed c
                \<and> pb_data rsp = snd (SerializeToString s (CallMethod s m c q))))))"
proof -
  have p: "parseServiceFullName (method_name req) = Some (sn, mn)"
    using assms by (simp add: parseServiceFullName_split)
  show ?thesis
  proof (cases "msg_type req = 1")
    case True
    then show ?thesis by (simp add: rsp_def dispatch_def TinyPB_new_def Let_def)
  next
    case False
    show ?thesis
    proof (cases "FindMethodByName s mn")
      case None
      then show ?thesis using False p assms
        by (simp add: rsp_def dispatch_def TinyPB_new_def Let_def)
    next
      case m: (Some m)
      show ?thesis
      proof (cases "ParseFromString s m (pb_data req)")
        case None
        then show ?thesis using False p assms m
          by (simp add: rsp_def dispatch_def TinyPB_new_def Let_def)
      next
        case q: (Some q)
        let ?c = "SetMsgId (msg_id req) (SetPeerAddr inet_addr (fst peer) (snd peer) (RpcController_new inet_addr cfg))"
        have "pb_data rsp = snd (SerializeToString s (CallMethod s m ?c q))" "error_code rsp = 0"
          "msg_id rsp = msg_id req" "msg_type rsp = msg_type req" "method_name rsp = method_name req"
          using False p assms m q by (simp_all add: rsp_def dispatch_def Let_def split_beta)
        moreover have "controller_GetMsgId ?c = msg_id req" "\<not> Failed ?c"
          by (simp_all add: controller_defs RpcController_new_def)
        ultimately show ?thesis using False m q by auto
      qed
    qed
  qed
qed

text \<open>A service with one method, which answers its request twice over.\<close>

definition echo_service :: "(unit, string, string) service" where
  "echo_service = \<lparr>full_name = ''Echo'', FindMethodByName = (\<lambda>m. if m = ''echo'' then Some () else None),
    ParseFromString = (\<lambda>_ d. if d = [] then None else Some d), CallMethod = (\<lambda>_ _ q. q @ q),
    SerializeToString = (\<lambda>r. (True, r))\<rparr>"

lemma dispatch_replies_witness:
  "let req = TinyPB_new\<lparr>msg_id := ''7'', method_name := ''Echo.echo'', pb_data := ''ab''\<rparr>;
      rsp = dispatch (\<lambda>_. 0) sample_config [''Echo'' \<mapsto> echo_service] (''1.2.3.4'', 5) req TinyPB_new
    in msg_id rsp = ''7'' \<and> error_code rsp = 0 \<and> pb_data rsp = ''abab''"
proof -
  let ?req = "TinyPB_new\<lparr>msg_id := ''7'', method_name := ''Echo.echo'', pb_data := ''ab''\<rparr>"
  have "method_name ?req = ''Echo'' @ CHR ''.'' # ''echo''" "fst (SerializeToString echo_service r)" for r
    by (simp_all add: echo_service_def)
  from dispatch_replies [OF this(2,1), of "[''Echo'' \<mapsto> echo_service]" "\<lambda>_. 0" sample_config "(''1.2.3.4'', 5)"]
  show ?thesis by (auto simp: echo_service_def TinyPB_new_def Let_def)
qed

text \<open>
  A service whose full name contains a dot (every service declared inside a Protobuf
  package) is never called: the name of the service in a request ends at the first dot,
  while the service is registered under its full name. Registering it changes no reply.
\<close>

theorem packaged_service_unreachable:
  assumes "CHR ''.'' \<in> set (full_name s)"
  shows "dispatch inet_addr cfg (fst (registerService cfg cpu s services)) peer req rsp
    = dispatch inet_addr cfg services peer req rsp"
proof -
  have "(services(full_name s \<mapsto> s)) sn = services sn"
    if "parseServiceFullName (method_name req) = Some (sn, m)" for sn m
    using parseServiceFullName_service [OF that] assms by auto
  then show ?thesis
    by (auto simp: dispatch_def registerService_def Let_def split: option.split)
qed

lemma packaged_service_unreachable_witness:
  "dispatch (\<lambda>_. 0) sample_config
      (fst (registerService sample_config 0 (echo_service\<lparr>full_name := ''pkg.Echo''\<rparr>) Map.empty))
      (''1.2.3.4'', 5) (TinyPB_new\<lparr>method_name := ''pkg.Echo.echo''\<rparr>) TinyPB_new
    = dispatch (\<lambda>_. 0) sample_config (Map.empty :: (unit, string, string) service_map)
      (''1.2.3.4'', 5) (TinyPB_new\<lparr>method_name := ''pkg.Echo.echo''\<rparr>) TinyPB_new"
  by (rule packaged_service_unreachable) simp

text \<open>
  The usage a server registers leaves out the idle time: the first three numbers of
  \<open>/proc/stat\<close> are user, nice and system time, so two samples give
  (user + nice) / (user + nice + system), whatever the machine's idle time was. (Samples
  that grow, with sums below \<open>2^64\<close>.)
\<close>

theorem getCpuUsage_ignores_idle:
  assumes "u \<le> u'" "n \<le> n'" "y \<le> y'" "u' + n' + y' < 2 ^ 64" "0 < u + n + y" "u + n + y < u' + n' + y'"
  shows "\<exists>s'. getCpuUsage (u # n # y # idle # rest) (u' # n' # y' # idle' # rest') s
    = Inr (Some (real (u' + n' - (u + n)) / real (u' + n' + y' - (u + n + y))), s')"
  using assms by (simp add: getCpuUsage_def CpuUsage_def Let_def)

lemma getCpuUsage_ignores_idle_witness:
  "\<exists>s'. getCpuUsage [100, 0, 50, 9000] [110, 0, 60, 999000] \<lparr>lastUpdate = 0, lastTotal = 0\<rparr>
    = Inr (Some (real (110 + 0 - (100 + 0)) / real (110 + 0 + 60 - (100 + 0 + 50))), s')"
  by (rule getCpuUsage_ignores_idle) simp_all

end
