(* ===== verification/ThreadPool.thy ===== *)
theory ThreadPool
  imports Prelude
begin

text \<open>
  The thread pool, \<open>src/common/ThreadPool.cpp\<close>, as a labelled step relation. A worker
  follows its loop: test of \<open>stop_\<close> (\<open>Top\<close>), acquisition of the mutex (\<open>Locking\<close>), test of
  the predicate with the body of the critical section (\<open>Holding\<close>), falling asleep, which
  gives the mutex back (\<open>Sleepy\<close>, \<open>Asleep\<close>), and the task, run outside the lock (\<open>Running\<close>).
  A caller of \<open>addtask\<close> pushes under the mutex and notifies afterwards (\<open>signals\<close> counts the
  callers in between); \<open>stop\<close> sets the flag and then notifies all, without the mutex. Every
  interleaving of threads is a sequence of these steps. \<open>added\<close> and \<open>started\<close> record the
  history.
\<close>

datatype 't worker = Top | Locking | Holding | Sleepy | Asleep | Running 't | Exited

record 't pool =
  pool_tasks :: "'t list"
  pool_stop :: bool
  pool_mutex :: "nat option"
  signals :: nat
  broadcast :: bool
  workers :: "'t worker list"
  added :: "'t list"
  started :: "'t list"

definition ThreadPool_new :: "nat \<Rightarrow> 't pool" where
  "ThreadPool_new threadNum = \<lparr>pool_tasks = [], pool_stop = False, pool_mutex = None, signals = 0,
    broadcast = False, workers = replicate threadNum Top, added = [], started = []\<rparr>"

definition pool_size :: "'t pool \<Rightarrow> nat" where "pool_size s = length (workers s)"

definition addtask :: "'t \<Rightarrow> 't pool \<Rightarrow> 't pool" where
  "addtask t s = s\<lparr>pool_tasks := pool_tasks s @ [t], added := added s @ [t], signals := signals s + 1\<rparr>"

text \<open>A woken worker has to get the mutex back before it tests the predicate again.\<close>

definition wake :: "'t worker \<Rightarrow> 't worker" where
  "wake w = (case w of Asleep \<Rightarrow> Locking | _ \<Rightarrow> w)"

text \<open>\<open>notify_one\<close>, where the system picks worker \<open>i\<close>, or no worker when none is asleep.\<close>

definition notify_one :: "nat option \<Rightarrow> 't pool \<Rightarrow> 't pool" where
  "notify_one p s = (case p of
      None \<Rightarrow> s\<lparr>signals := signals s - 1\<rparr>
    | Some i \<Rightarrow> s\<lparr>signals := signals s - 1, workers := (workers s)[i := wake (workers s ! i)]\<rparr>)"

definition notify_all :: "'t pool \<Rightarrow> 't pool" where
  "notify_all s = s\<lparr>broadcast := False, workers := map wake (workers s)\<rparr>"

text \<open>\<open>stop\<close> up to \<open>notify_all\<close> and the joins; it returns when every worker has exited.\<close>

definition ThreadPool_stop :: "'t pool \<Rightarrow> 't pool" where
  "ThreadPool_stop s = (if pool_stop s then s else s\<lparr>pool_stop := True, broadcast := True\<rparr>)"

definition all_joined :: "'t pool \<Rightarrow> bool" where
  "all_joined s \<longleftrightarrow> (\<forall>w \<in> set (workers s). w = Exited)"

text \<open>One move of worker \<open>i\<close>; \<open>None\<close> while it is blocked or gone.\<close>

definition worker_step :: "nat \<Rightarrow> 't pool \<Rightarrow> 't pool option" where
  "worker_step i s = (case workers s ! i of
      Top \<Rightarrow> Some (s\<lparr>workers := (workers s)[i := if pool_stop s then Exited else Locking]\<rparr>)
    | Locking \<Rightarrow>
        if pool_mutex s = None then Some (s\<lparr>pool_mutex := Some i, workers := (workers s)[i := Holding]\<rparr>)
        else None
    | Holding \<Rightarrow>
        if \<not> (pool_stop s \<or> pool_tasks s \<noteq> []) then Some (s\<lparr>workers := (workers s)[i := Sleepy]\<rparr>)
        else (case pool_tasks s of
            [] \<Rightarrow> Some (s\<lparr>pool_mutex := None, workers := (workers s)[i := Exited]\<rparr>)
          | t # ts \<Rightarrow> Some (s\<lparr>pool_mutex := None, workers := (workers s)[i := Running t],
                pool_tasks := ts, started := started s @ [t]\<rparr>))
    | Sleepy \<Rightarrow> Some (s\<lparr>pool_mutex := None, workers := (workers s)[i := Asleep]\<rparr>)
    | Asleep \<Rightarrow> None
    | Running t \<Rightarrow> Some (s\<lparr>workers := (workers s)[i := Top]\<rparr>)
    | Exited \<Rightarrow> None)"

datatype 't pool_label = Add 't | Signal "nat option" | Stop | Broadcast | Work nat | Spurious nat

text \<open>\<open>Spurious\<close>: a condition variable may wake a thread without a notification.\<close>

inductive pool_step :: "'t pool_label \<Rightarrow> 't pool \<Rightarrow> 't pool \<Rightarrow> bool" where
  step_add: "pool_mutex s = None \<Longrightarrow> pool_step (Add t) s (addtask t s)"
| step_signal: "0 < signals s \<Longrightarrow> (case p of None \<Rightarrow> Asleep \<notin> set (workers s)
    | Some i \<Rightarrow> i < length (workers s) \<and> workers s ! i = Asleep) \<Longrightarrow> pool_step (Signal p) s (notify_one p s)"
| step_stop: "pool_step Stop s (ThreadPool_stop s)"
| step_broadcast: "broadcast s \<Longrightarrow> pool_step Broadcast s (notify_all s)"
| step_work: "i < length (workers s) \<Longrightarrow> worker_step i s = Some s' \<Longrightarrow> pool_step (Work i) s s'"
| step_spurious: "i < length (workers s) \<Longrightarrow> workers s ! i = Asleep \<Longrightarrow>
    pool_step (Spurious i) s (s\<lparr>workers := (workers s)[i := Locking]\<rparr>)"

inductive_cases pool_stepE: "pool_step l s s'"

fun pool_run :: "'t pool_label list \<Rightarrow> 't pool \<Rightarrow> 't pool \<Rightarrow> bool" where
  "pool_run [] s s' \<longleftrightarrow> s' = s"
| "pool_run (l # ls) s s' \<longleftrightarrow> (\<exists>s1. pool_step l s s1 \<and> pool_run ls s1 s')"

lemma pool_run_invariant:
  "pool_run ls s s' \<Longrightarrow> P s \<Longrightarrow> (\<And>l s1 s2. l \<in> set ls \<Longrightarrow> pool_step l s1 s2 \<Longrightarrow> P s1 \<Longrightarrow> P s2) \<Longrightarrow> P s'"
proof (induction ls arbitrary: s)
  case (Cons l ls)
  then obtain s1 where s1: "pool_step l s s1" "pool_run ls s1 s'" by auto
  then have "P s1" using Cons.prems(2,3) by (meson list.set_intros(1))
  from Cons.IH [OF s1(2) this] show ?case by (metis Cons.prems(3) list.set_intros(2))
qed simp

lemma pool_run_append: "pool_run (ls @ ls') s s' \<longleftrightarrow> (\<exists>s1. pool_run ls s s1 \<and> pool_run ls' s1 s')"
  by (induction ls arbitrary: s) auto

section \<open>Invariants\<close>

lemmas pool_ops = addtask_def ThreadPool_stop_def worker_step_def notify_one_def notify_all_def

definition pool_inv :: "'t pool \<Rightarrow> bool" where
  "pool_inv s \<longleftrightarrow> started s @ pool_tasks s = added s"

lemma pool_step_inv: "pool_step l s s' \<Longrightarrow> pool_inv s \<Longrightarrow> pool_inv s'"
  by (erule pool_stepE)
    (auto simp: pool_inv_def pool_ops split: worker.splits if_splits list.splits option.splits)

lemma pool_step_length: "pool_step l s s' \<Longrightarrow> length (workers s') = length (workers s)"
  by (erule pool_stepE) (auto simp: pool_ops split: worker.splits if_splits list.splits option.splits)

text \<open>The workers that have passed the test of \<open>stop_\<close> and can still take a task.\<close>

definition committed :: "'t worker \<Rightarrow> bool" where
  "committed w \<longleftrightarrow> w = Locking \<or> w = Holding \<or> w = Sleepy \<or> w = Asleep"

definition waiting :: "'t pool \<Rightarrow> nat" where
  "waiting s = length (filter committed (workers s))"

lemma committed_simps [simp]:
  "\<not> committed Top" "committed Locking" "committed Holding" "committed Sleepy" "committed Asleep"
  "\<not> committed (Running t)" "\<not> committed Exited" "committed (wake w) = committed w" "wake Asleep = Locking"
  by (auto simp: committed_def wake_def split: worker.splits)

lemma waiting_update:
  "i < length ws \<Longrightarrow> length (filter committed (ws[i := w])) + (if committed (ws ! i) then 1 else 0)
    = length (filter committed ws) + (if committed w then 1 else 0)"
proof (induction ws arbitrary: i)
  case (Cons v ws)
  then show ?case by (cases i) auto
qed simp

lemma waiting_wake [simp]: "filter (committed \<circ> wake) ws = filter committed ws"
  by (induction ws) auto

text \<open>After the stop request a committed worker can take one more task, the others none.\<close>

lemma pool_step_stopped:
  assumes "pool_step l s s'" "pool_stop s"
  shows "pool_stop s' \<and> length (started s') + waiting s' \<le> length (started s) + waiting s"
  using assms(1)
proof (cases rule: pool_step.cases)
  case (step_work i)
  note u = waiting_update [OF step_work(2)]
  show ?thesis
    using step_work(3) assms(2) u [of "Holding"] u [of "Exited"] u [of "Asleep"] u [of "Top"]
      u [of "Running t" for t]
    by (fastforce simp: worker_step_def waiting_def split: worker.splits list.splits if_splits)
next
  case (step_signal p)
  then show ?thesis using assms(2) waiting_update [of "the p" "workers s" Locking]
    by (cases p) (auto simp: notify_one_def waiting_def)
next
  case (step_spurious i)
  then show ?thesis using assms(2) waiting_update [of i "workers s" Locking] by (simp add: waiting_def)
qed (use assms(2) in \<open>auto simp: pool_ops waiting_def filter_map\<close>)

text \<open>
  The mutex is held by the worker that is inside its critical section; one that is about to
  sleep has seen an empty queue, which nobody can fill while it holds the mutex; and while
  a task is queued, a notification is on its way or a worker is awake.
\<close>

definition asleep :: "'t worker \<Rightarrow> bool" where
  "asleep w \<longleftrightarrow> w = Asleep \<or> w = Sleepy"

definition in_section :: "'t worker \<Rightarrow> bool" where
  "in_section w \<longleftrightarrow> w = Holding \<or> w = Sleepy"

definition lock_inv :: "'t pool \<Rightarrow> bool" where
  "lock_inv s \<longleftrightarrow> (\<forall>i < length (workers s). in_section (workers s ! i) \<longleftrightarrow> pool_mutex s = Some i)
    \<and> (\<forall>i. pool_mutex s = Some i \<longrightarrow> i < length (workers s))
    \<and> (Sleepy \<in> set (workers s) \<longrightarrow> pool_tasks s = [])
    \<and> (Exited \<in> set (workers s) \<longrightarrow> pool_stop s)
    \<and> (pool_tasks s = [] \<or> 0 < signals s \<or> (\<exists>i < length (workers s). \<not> asleep (workers s ! i)))"

lemma wake_simps [simp]:
  "in_section (wake w) = in_section w" "wake w = Sleepy \<longleftrightarrow> w = Sleepy" "wake w = Exited \<longleftrightarrow> w = Exited"
  "Sleepy = wake w \<longleftrightarrow> w = Sleepy" "Exited = wake w \<longleftrightarrow> w = Exited" "\<not> asleep w \<Longrightarrow> \<not> asleep (wake w)"
  "\<not> asleep Top" "\<not> asleep Locking" "\<not> asleep Holding" "asleep Sleepy" "asleep Asleep" "\<not> asleep (Running t)"
  "\<not> asleep Exited" "\<not> in_section Top" "\<not> in_section Locking" "in_section Holding" "in_section Sleepy"
  "\<not> in_section Asleep" "\<not> in_section (Running t)" "\<not> in_section Exited"
  by (auto simp: in_section_def asleep_def wake_def split: worker.splits)

lemma lock_inv_new: "lock_inv (ThreadPool_new n)"
  by (auto simp: lock_inv_def ThreadPool_new_def)

lemma workers_new [simp]: "workers (ThreadPool_new n) = replicate n Top"
  by (simp add: ThreadPool_new_def)

lemma lock_invD:
  assumes "lock_inv s"
  shows "i < length (workers s) \<Longrightarrow> in_section (workers s ! i) \<longleftrightarrow> pool_mutex s = Some i"
    "pool_mutex s = Some i \<Longrightarrow> i < length (workers s)"
    "Sleepy \<in> set (workers s) \<Longrightarrow> pool_tasks s = []" "Exited \<in> set (workers s) \<Longrightarrow> pool_stop s"
    "pool_tasks s = [] \<or> 0 < signals s \<or> (\<exists>i < length (workers s). \<not> asleep (workers s ! i))"
  using assms by (auto simp: lock_inv_def)

text \<open>A worker changes its own state only; what the others keep.\<close>

lemma lock_inv_set:
  assumes "lock_inv s" "i < length (workers s)" "workers s' = (workers s)[i := w]"
    "pool_mutex s' = (if in_section w then Some i else if in_section (workers s ! i) then None else pool_mutex s)"
    "in_section w \<longrightarrow> pool_mutex s = None \<or> pool_mutex s = Some i"
    "w = Sleepy \<or> Sleepy \<in> set (workers s) \<longrightarrow> pool_tasks s' = []" "w = Exited \<longrightarrow> pool_stop s"
    "pool_stop s \<longrightarrow> pool_stop s'" "pool_tasks s' = [] \<or> \<not> asleep w"
  shows "lock_inv s'"
proof -
  have sub: "x \<in> set (workers s') \<Longrightarrow> x = w \<or> x \<in> set (workers s)" for x
    using set_update_subset_insert [of "workers s" i w] assms(3) by auto
  have "in_section (workers s' ! j) \<longleftrightarrow> pool_mutex s' = Some j" if "j < length (workers s')" for j
    using lock_invD(1) [OF assms(1), of j] lock_invD(1) [OF assms(1), of i] assms(2-5) that
    by (cases "i = j") auto
  moreover have "\<forall>j. pool_mutex s' = Some j \<longrightarrow> j < length (workers s')"
    using lock_invD(2) [OF assms(1)] assms(2-5) by (auto split: if_splits)
  moreover have "\<exists>j < length (workers s'). \<not> asleep (workers s' ! j)" if "\<not> asleep w"
    using that assms(2,3) by auto
  ultimately show ?thesis
    unfolding lock_inv_def using sub [of Sleepy] sub [of Exited] assms(6-9) lock_invD(4) [OF assms(1)] by blast
qed

lemma lock_inv_step: "pool_step l s s' \<Longrightarrow> 0 < length (workers s) \<Longrightarrow> lock_inv s \<Longrightarrow> lock_inv s'"
proof (induction rule: pool_step.induct)
  case (step_add s t)
  have "Sleepy \<notin> set (workers s)"
    using lock_invD(1) [OF step_add(3)] step_add(1) by (auto simp: in_set_conv_nth) (metis wake_simps(17) option.simps(3))
  then show ?case using step_add(3) by (auto simp: lock_inv_def addtask_def)
next
  case (step_signal s p)
  show ?case
  proof (cases p)
    case None
    then have "Asleep \<notin> set (workers s)" using step_signal(2) by simp
    have "\<exists>i < length (workers s). \<not> asleep (workers s ! i)" if "pool_tasks s \<noteq> []"
    proof -
      have "Sleepy \<notin> set (workers s)" using that lock_invD(3) [OF step_signal(4)] by blast
      moreover have "workers s ! 0 \<in> set (workers s)" using step_signal(3) by (rule nth_mem)
      ultimately have "\<not> asleep (workers s ! 0)"
        using \<open>Asleep \<notin> set (workers s)\<close> unfolding asleep_def by metis
      then show ?thesis using step_signal(3) by blast
    qed
    then show ?thesis using step_signal(4) None by (auto simp: lock_inv_def notify_one_def)
  next
    case (Some i)
    then have i: "i < length (workers s)" "workers s ! i = Asleep" using step_signal(2) by auto
    show ?thesis
      by (rule lock_inv_set [OF step_signal(4) i(1), where w = Locking])
        (use i Some lock_invD(3) [OF step_signal(4)] in \<open>auto simp: notify_one_def\<close>)
  qed
next
  case (step_broadcast s)
  have "\<not> asleep (wake (workers s ! i))" if "\<not> asleep (workers s ! i)" for i using that by simp
  moreover have "(\<exists>i < length (workers s). \<not> asleep (workers s ! i)) \<Longrightarrow>
      \<exists>i < length (workers s). \<not> asleep (wake (workers s ! i))" using calculation by blast
  ultimately show ?case using step_broadcast(3) by (auto simp: lock_inv_def notify_all_def image_iff)
next
  case (step_work i s s')
  note d = lock_invD [OF step_work(4)]
  have sl: "Sleepy \<in> set (workers s)" if "workers s ! i = Sleepy" using that step_work(1) nth_mem by metis
  show ?case
    using step_work(2) d(1) [OF step_work(1)] d(3) sl
    by (intro lock_inv_set [OF step_work(4,1), where w = "workers s' ! i"])
      (use step_work(1) in \<open>auto simp: worker_step_def split: worker.splits if_splits list.splits\<close>)
next
  case (step_spurious i s)
  show ?case
    by (rule lock_inv_set [OF step_spurious(4,1), where w = Locking])
      (use step_spurious(2) lock_invD(3) [OF step_spurious(4)] in auto)
qed (auto simp: lock_inv_def ThreadPool_stop_def)

section \<open>Properties\<close>

lemma pool_run_invs:
  assumes "pool_run ls (ThreadPool_new n) s"
  shows "pool_inv s" "length (workers s) = n" "0 < n \<Longrightarrow> lock_inv s"
proof -
  show "pool_inv s"
    by (rule pool_run_invariant [OF assms]) (auto simp: pool_inv_def ThreadPool_new_def dest: pool_step_inv)
  show "length (workers s) = n"
    by (rule pool_run_invariant [OF assms, where P = "\<lambda>s. length (workers s) = n"])
      (auto simp: ThreadPool_new_def dest: pool_step_length)
  assume n: "0 < n"
  have "lock_inv s \<and> 0 < length (workers s)"
    by (rule pool_run_invariant [OF assms, where P = "\<lambda>s. lock_inv s \<and> 0 < length (workers s)"])
      (use n in \<open>auto simp: lock_inv_new dest: lock_inv_step pool_step_length\<close>)
  then show "lock_inv s" ..
qed


text \<open>A run: three tasks for one worker, and a stop while it runs the first.\<close>

definition sample_run :: "nat pool_label list" where
  "sample_run = [Add 1, Add 2, Add 3, Work 0, Work 0, Work 0, Stop, Work 0, Work 0]"

definition sample_pool :: "nat pool" where
  "sample_pool = \<lparr>pool_tasks = [2, 3], pool_stop = True, pool_mutex = None, signals = 3, broadcast = True,
    workers = [Exited], added = [1, 2, 3], started = [1]\<rparr>"

inductive_simps pool_step_simps:
  "pool_step (Add t) s s'" "pool_step (Signal p) s s'" "pool_step Stop s s'" "pool_step Broadcast s s'"
  "pool_step (Work i) s s'" "pool_step (Spurious i) s s'"

lemma sample_pool_reachable: "pool_run sample_run (ThreadPool_new 1) sample_pool"
  by (simp add: sample_run_def ThreadPool_new_def sample_pool_def pool_step_simps worker_step_def
      addtask_def ThreadPool_stop_def)


text \<open>
  \<open>stop\<close> does not wait for the queued tasks, as its comment says, but drops them: once
  \<open>stop_\<close> is set, only workers that have already passed the test of the flag can still take
  a task, one each, so at most that many tasks are started, however long the queue is and
  whatever is added.
\<close>

theorem stop_drops_tasks:
  assumes "pool_stop s" "pool_run ls s s'"
  shows "length (started s') \<le> length (started s) + waiting s"
proof -
  have "pool_stop s' \<and> length (started s') + waiting s' \<le> length (started s) + waiting s"
    by (rule pool_run_invariant [OF assms(2)]) (use assms(1) pool_step_stopped in \<open>auto, fastforce\<close>)
  then show ?thesis by linarith
qed

lemma stop_drops_tasks_witness:
  "length (started (sample_pool\<lparr>workers := [Top]\<rparr>)) + waiting (sample_pool\<lparr>workers := [Top]\<rparr>) = 1
    \<and> length (started sample_pool) \<le> length (started (sample_pool\<lparr>workers := [Top]\<rparr>))
        + waiting (sample_pool\<lparr>workers := [Top]\<rparr>)
    \<and> all_joined sample_pool \<and> pool_tasks sample_pool = [2, 3]"
proof -
  have "pool_run [Work 0] (sample_pool\<lparr>workers := [Top]\<rparr>) sample_pool"
    by (simp add: pool_step_simps worker_step_def sample_pool_def)
  from stop_drops_tasks [OF _ this] show ?thesis
    by (simp add: sample_pool_def waiting_def all_joined_def)
qed

text \<open>Runs in which nobody adds a task and no thread wakes without a notification.\<close>

fun calm :: "'t pool_label \<Rightarrow> bool" where
  "calm (Add t) = False"
| "calm (Spurious i) = False"
| "calm _ = True"

lemma locking_starts:
  assumes "i < length (workers s)" "pool_mutex s = None" "workers s ! i = Locking" "pool_tasks s = t # ts"
  shows "\<exists>s'. pool_run [Work i, Work i] s s' \<and> started s' = started s @ [t]"
  using assms by (simp add: pool_step_simps worker_step_def)

lemma running_starts:
  assumes "i < length (workers s)" "pool_mutex s = None" "\<not> pool_stop s" "pool_tasks s = t # ts"
    "\<not> asleep (workers s ! i)" "workers s ! i \<noteq> Exited" "workers s ! i \<noteq> Holding"
  shows "\<exists>k s'. pool_run (replicate k (Work i)) s s' \<and> started s' = started s @ [t] \<and> k \<le> 4"
proof -
  have top: "\<exists>s'. pool_run [Work i, Work i, Work i] s s' \<and> started s' = started s @ [t]"
    if "i < length (workers s)" "pool_mutex s = None" "\<not> pool_stop s" "pool_tasks s = t # ts" "workers s ! i = Top"
    for s using that by (simp add: pool_step_simps worker_step_def)
  consider "workers s ! i = Locking" | "workers s ! i = Top" | u where "workers s ! i = Running u"
    using assms(5-7) by (cases "workers s ! i") auto
  then show ?thesis
  proof cases
    case 1
    with locking_starts [OF assms(1,2) _ assms(4)] show ?thesis
      by (intro exI [of _ 2]) (simp add: numeral_2_eq_2)
  next
    case 2
    with top [OF assms(1-4)] show ?thesis by (intro exI [of _ 3]) (simp add: numeral_3_eq_3)
  next
    case 3
    let ?s = "s\<lparr>workers := (workers s)[i := Top]\<rparr>"
    have "pool_step (Work i) s ?s" using assms(1) 3 by (simp add: pool_step_simps worker_step_def)
    with top [of ?s] assms(1-4) show ?thesis by (intro exI [of _ 4]) (auto simp: numeral_eq_Suc)
  qed
qed

text \<open>C8.
  No task is stranded by a missed notification: in every reachable state of a pool with
  threads that has not been stopped, the first queued task can be started by at most one
  notification that is already due and four moves of one worker, with no task added and
  no spurious wake-up. (The scheduler has to grant these moves.)
\<close>

theorem queued_task_can_start:
  assumes "pool_run ls (ThreadPool_new n) s" "0 < n" "\<not> pool_stop s" "pool_tasks s = t # ts"
  shows "\<exists>ls' s'. pool_run ls' s s' \<and> started s' = started s @ [t] \<and> length ls' \<le> 5 \<and> (\<exists>p. set ls' \<subseteq> range Work \<union> {Signal p})"
proof -
  note inv = pool_run_invs(3) [OF assms(1,2)]
  note d = lock_invD [OF inv]
  have no: "workers s ! i \<noteq> Sleepy" "workers s ! i \<noteq> Exited" if "i < length (workers s)" for i
    using d(3,4) assms(3,4) nth_mem [OF that] by (metis list.distinct(1), metis)
  show ?thesis
  proof (cases "pool_mutex s")
    case (Some i)
    then have i: "i < length (workers s)" "workers s ! i = Holding"
      using d(1,2) no(1) by (auto simp: in_section_def)
    then show ?thesis using assms(3,4)
      by (intro exI [of _ "[Work i]"]) (auto simp: pool_step_simps worker_step_def)
  next
    case None
    then have nh: "workers s ! i \<noteq> Holding" if "i < length (workers s)" for i
      using d(1) [OF that] by auto
    show ?thesis
    proof (cases "\<exists>i < length (workers s). \<not> asleep (workers s ! i)")
      case True
      then obtain i where i: "i < length (workers s)" "\<not> asleep (workers s ! i)" by blast
      from running_starts [OF i(1) None assms(3,4) i(2) no(2) [OF i(1)] nh [OF i(1)]]
      obtain k s' where "pool_run (replicate k (Work i)) s s'" "started s' = started s @ [t]" "k \<le> 4" by blast
      then show ?thesis
        by (intro exI [of _ "replicate k (Work i)"] exI [of _ s'] conjI exI [of _ None]) auto
    next
      case False
      have sig: "0 < signals s" using d(5) assms(4) False by auto
      have len: "0 < length (workers s)" using pool_run_invs(2) [OF assms(1)] assms(2) by simp
      then have a: "workers s ! 0 = Asleep" using False no(1) [OF len] by (auto simp: asleep_def)
      let ?s = "notify_one (Some 0) s"
      have "pool_step (Signal (Some 0)) s ?s" using sig len a by (simp add: pool_step_simps)
      moreover obtain s' where "pool_run [Work 0, Work 0] ?s s'" "started s' = started ?s @ [t]"
        using locking_starts [of 0 ?s t ts] len a None assms(4) by (auto simp: notify_one_def)
      ultimately show ?thesis
        by (intro exI [of _ "[Signal (Some 0), Work 0, Work 0]"] exI [of _ s'] conjI)
          (auto simp: notify_one_def)
    qed
  qed
qed

lemma queued_task_can_start_witness:
  "let s = \<lparr>pool_tasks = [1], pool_stop = False, pool_mutex = None, signals = 1, broadcast = False,
      workers = [Asleep], added = [1 :: nat], started = []\<rparr>
    in \<exists>ls' s'. pool_run ls' s s' \<and> started s' = [1] \<and> length ls' \<le> 5 \<and> (\<exists>p. set ls' \<subseteq> range Work \<union> {Signal p})"
proof -
  let ?s = "\<lparr>pool_tasks = [1], pool_stop = False, pool_mutex = None, signals = 1, broadcast = False,
      workers = [Asleep], added = [1 :: nat], started = []\<rparr>"
  have "pool_run [Work 0, Work 0, Work 0, Work 0, Add 1] (ThreadPool_new 1) ?s"
    by (simp add: pool_step_simps worker_step_def ThreadPool_new_def addtask_def)
  from queued_task_can_start [OF this, of 1 "[]"] show ?thesis by (simp add: Let_def)
qed

text \<open>The run in which a worker misses the notification of \<open>stop\<close>.\<close>

definition lost_wakeup_run :: "'t pool_label list" where
  "lost_wakeup_run = [Work 0, Work 0, Work 0, Stop, Broadcast, Work 0]"

definition missed :: "'t pool \<Rightarrow> bool" where
  "missed s \<longleftrightarrow> pool_stop s \<and> \<not> broadcast s \<and> signals s = 0 \<and> 0 < length (workers s) \<and> workers s ! 0 = Asleep"

lemma missed_step: "pool_step l s s' \<Longrightarrow> calm l \<Longrightarrow> missed s \<Longrightarrow> missed s'"
proof (induction rule: pool_step.induct)
  case (step_work i s s')
  have "i \<noteq> 0" using step_work by (cases i) (auto simp: missed_def worker_step_def)
  then show ?case using step_work(2,4)
    by (auto simp: missed_def worker_step_def split: worker.splits if_splits list.splits)
qed (auto simp: missed_def ThreadPool_stop_def)

text \<open>C33.
  \<open>stop\<close> can hang: as it sets the flag and notifies without the mutex, a worker that has just
  tested the predicate and is about to sleep misses the notification. So a pool with at
  least one thread can reach a state after \<open>stop\<close> has notified from which the joins never
  complete, whatever the threads do, unless somebody adds a task or the system wakes
  the worker without a notification.
\<close>

theorem stop_can_hang:
  assumes "0 < n"
  shows "\<exists>s. pool_run lost_wakeup_run (ThreadPool_new n) s \<and> pool_stop s
    \<and> (\<forall>ls s'. (\<forall>l \<in> set ls. calm l) \<longrightarrow> pool_run ls s s' \<longrightarrow> \<not> all_joined s')"
proof -
  obtain m where m: "n = Suc m" using assms by (cases n) auto
  define s :: "'a pool" where "s = (ThreadPool_new n)\<lparr>pool_stop := True, workers := Asleep # replicate m Top\<rparr>"
  have run: "pool_run lost_wakeup_run (ThreadPool_new n) s"
    by (simp add: lost_wakeup_run_def ThreadPool_new_def m s_def pool_step_simps worker_step_def
        ThreadPool_stop_def notify_all_def wake_def)
  have "missed s" by (simp add: s_def missed_def ThreadPool_new_def)
  moreover have "missed s'" if "\<forall>l \<in> set ls. calm l" "pool_run ls s s'" "missed s" for ls s'
    by (rule pool_run_invariant [where P = missed, OF that(2,3)]) (use that(1) missed_step in blast)
  moreover have "\<not> all_joined s'" if "missed s'" for s' :: "'a pool"
    using that nth_mem [of 0 "workers s'"] by (force simp: missed_def all_joined_def)
  ultimately show ?thesis using run by (intro exI [of _ s]) (auto simp: missed_def)
qed

lemma stop_can_hang_witness:
  "\<exists>s :: nat pool. pool_run lost_wakeup_run (ThreadPool_new 2) s \<and> pool_stop s
    \<and> (\<forall>ls s'. \<not> ((\<forall>l \<in> set ls. calm l) \<and> pool_run ls s s' \<and> all_joined s'))"
  using stop_can_hang [of 2] by auto

end
