(* ===== verification/TcpServer.thy ===== *)
theory TcpServer
  imports Connection Dispatcher ThreadPool
begin

text \<open>
  The server, \<open>src/net/TcpServer.cpp\<close>: the table of connections by descriptor, the timer
  that shuts down idle ones, and the handling of the packages a connection delivers,
  either on the thread of its event loop or as a task of the thread pool.
\<close>

section \<open>Connections\<close>

record ('d, 'k, 'u) tcp_server =
  conns :: "(int \<times> ('d, 'k, 'u) conn) list"

text \<open>
  \<open>newConnection\<close>: the connection is entered into the table, gets its callbacks and listens.
  As the table shares the object, the entry is the connection after \<open>enableReading\<close>.
\<close>

definition newConnection :: "'k epoll_ctl \<Rightarrow> socket \<Rightarrow> 'k \<Rightarrow> 'u \<Rightarrow> ('d, 'k, 'u) tcp_server
    \<Rightarrow> ('d, 'k, 'u) tcp_server res" where
  "newConnection ctl sock k u s = (let p = setsendCallback (setMessageCallback (seterrorCallback
        (conn_setClosecallback (Connection_new sock ConnectionByServer k u))))
    in bindR (conn_enableReading ctl p) (\<lambda>p. Inr (s\<lparr>conns := AList.update (sk_fd sock) p (conns s)\<rparr>)))"

definition closeconnection :: "int \<Rightarrow> ('d, 'k, 'u) tcp_server \<Rightarrow> ('d, 'k, 'u) tcp_server" where
  "closeconnection fd s = s\<lparr>conns := AList.delete fd (conns s)\<rparr>"

definition errorconnection :: "int \<Rightarrow> ('d, 'k, 'u) tcp_server \<Rightarrow> ('d, 'k, 'u) tcp_server" where
  "errorconnection fd s = s\<lparr>conns := AList.delete fd (conns s)\<rparr>"

text \<open>The descriptors whose sending side the timer shuts down.\<close>

fun clear_clients :: "int \<Rightarrow> int \<Rightarrow> (int \<times> ('d, 'k, 'u) conn) list \<Rightarrow> int list res" where
  "clear_clients now limit [] = Inr []"
| "clear_clients now limit ((fd, c) # cs) = bindR (timeout now limit c) (\<lambda>late.
    bindR (clear_clients now limit cs) (\<lambda>fds.
    Inr (if late \<and> \<not> conn_isWriting c then sk_fd (c_sock c) # fds else fds)))"

definition ClearClientTimerFunc :: "cconfig \<Rightarrow> int \<Rightarrow> ('d, 'k, 'u) tcp_server \<Rightarrow> int list res" where
  "ClearClientTimerFunc cfg now s = clear_clients now (cfg_timeout cfg) (conns s)"

section \<open>Requests\<close>

text \<open>
  What the server consults in a call: its services, its configuration, the kernel and the
  address conversion.
\<close>

record ('m, 'q, 'r, 'k) rpc_server =
  services :: "('m, 'q, 'r) service_map"
  config :: cconfig
  epoll :: "'k epoll_ctl"
  inet :: "string \<Rightarrow> 32 word"

definition server_reply :: "('m, 'q, 'r, 'k) rpc_server \<Rightarrow> socket \<Rightarrow> tinypb \<Rightarrow> tinypb" where
  "server_reply sv sock req =
    dispatch (inet sv) (config sv) (services sv) (sk_ip sock, uint (sk_port sock)) req TinyPB_new"

text \<open>
  \<open>OnMassage\<close> on thread \<open>me\<close>: every request is dispatched into a new package, and the
  replies are sent. The connection is the environment of its event loop.
\<close>

definition OnMassage :: "('m, 'q, 'r, 'k) rpc_server \<Rightarrow> int \<Rightarrow> tinypb list
    \<Rightarrow> ('cb, tinypb list, ('d, 'k, 'u) conn) el \<Rightarrow> ('cb, tinypb list, ('d, 'k, 'u) conn) el res" where
  "OnMassage sv me request_pkgs l =
    Connection_send (epoll sv) me (map (server_reply sv (c_sock (el_env l)))
      (take (nat (to_i32 (int (length request_pkgs)))) request_pkgs)) l"

text \<open>\<open>HandleMessage\<close>: with no worker threads at once, otherwise as a task of the pool.\<close>

definition HandleMessage :: "('m, 'q, 'r, 'k) rpc_server \<Rightarrow> int \<Rightarrow> tinypb list
    \<Rightarrow> ('cb, tinypb list, ('d, 'k, 'u) conn) el \<times> tinypb list pool
    \<Rightarrow> (('cb, tinypb list, ('d, 'k, 'u) conn) el \<times> tinypb list pool) res" where
  "HandleMessage sv me request_pkgs = (\<lambda>(l, pool).
    if cfg_workThread (config sv) = 0
    then bindR (OnMassage sv me request_pkgs l) (\<lambda>l. Inr (l, pool))
    else Inr (l, addtask request_pkgs pool))"

text \<open>The message callback a connection of loop \<open>l\<close> runs when there are no worker threads.\<close>

definition message_callback :: "('m, 'q, 'r, 'k) rpc_server \<Rightarrow> int
    \<Rightarrow> ('cb, tinypb list, ('d, 'k, 'u) conn) el \<Rightarrow> tinypb list pool \<Rightarrow> ('d, 'k, 'u) msg_exec" where
  "message_callback sv me l pool pkgs c =
    bindR (HandleMessage sv me pkgs (l\<lparr>el_env := c\<rparr>, pool)) (\<lambda>(l, _). Inr (el_env l))"

section \<open>The table\<close>

lemma newConnection_conns:
  assumes "newConnection ctl sock k u s = Inr s'"
  obtains c where "map_of (conns s') = (map_of (conns s))(sk_fd sock \<mapsto> c)" "lastTime c = None"
    "c_sock c = sock" "messageCB c" "inputbuffer c = Buffer_new"
proof -
  let ?p = "(Connection_new sock ConnectionByServer k u)
        \<lparr>closeCB := True, errorCB := True, messageCB := True, sendCB := True\<rparr>"
  obtain c where c: "conn_enableReading ctl ?p = Inr c"
    "s' = s\<lparr>conns := AList.update (sk_fd sock) c (conns s)\<rparr>"
    using assms by (auto simp: newConnection_def Let_def)
  then have "map_of (conns s') = (map_of (conns s))(sk_fd sock \<mapsto> c)" by (simp add: AList.update_conv')
  moreover have "lastTime c = None" "c_sock c = sock" "messageCB c" "inputbuffer c = Buffer_new"
    using c(1) by (auto simp: conn_enableReading_def on_channel_def Connection_new_def)
  ultimately show thesis by (rule that)
qed

lemma clear_clients_uninit:
  "(fd, c) \<in> set cs \<Longrightarrow> lastTime c = None \<Longrightarrow> clear_clients now limit cs = Inl Uninitialised"
proof (induction cs)
  case (Cons a cs)
  obtain fd' c' where a: "a = (fd', c')" by fastforce
  show ?case
  proof (cases "lastTime c'")
    case None
    then show ?thesis by (simp add: a timeout_def del: bindR_Inl_iff)
  next
    case (Some t)
    then have "(fd, c) \<in> set cs" using Cons.prems a by auto
    then show ?thesis using Cons.IH Cons.prems(2) Some
      by (simp add: a timeout_def del: bindR_Inl_iff)
  qed
qed simp

lemma clear_clients_ok:
  "\<forall>(fd, c) \<in> set cs. lastTime c \<noteq> None \<Longrightarrow> clear_clients now limit cs =
    Inr (map (\<lambda>(fd, c). sk_fd (c_sock c))
      (filter (\<lambda>(fd, c). now - the (lastTime c) > limit \<and> \<not> conn_isWriting c) cs))"
proof (induction cs)
  case (Cons a cs)
  obtain fd c where a: "a = (fd, c)" by fastforce
  obtain t where t: "lastTime c = Some t" using Cons.prems a by auto
  have "clear_clients now limit cs = Inr (map (\<lambda>(fd, c). sk_fd (c_sock c))
      (filter (\<lambda>(fd, c). now - the (lastTime c) > limit \<and> \<not> conn_isWriting c) cs))"
    using Cons.prems by (intro Cons.IH) simp
  then show ?case using t by (cases "limit < now - t") (simp_all add: a timeout_def)
qed simp

section \<open>Properties\<close>

text \<open>
  The idle timer reads uninitialised memory as soon as one client is connected that has
  not sent anything yet: a new connection has no time stamp, and \<open>timeout\<close> reads it. So
  right after \<open>newConnection\<close> the timer's outcome is undefined, whatever else is connected.
\<close>

theorem idle_timer_uninitialised:
  assumes "newConnection ctl sock k u s = Inr s'"
  shows "ClearClientTimerFunc cfg now s' = Inl Uninitialised"
proof -
  obtain c where "map_of (conns s') = (map_of (conns s))(sk_fd sock \<mapsto> c)" "lastTime c = None"
    using newConnection_conns [OF assms] by metis
  then have "(sk_fd sock, c) \<in> set (conns s')" by (intro map_of_SomeD) simp
  then show ?thesis
    using \<open>lastTime c = None\<close> by (simp add: ClearClientTimerFunc_def clear_clients_uninit)
qed

definition sample_socket :: socket where
  "sample_socket = \<lparr>sk_fd = 7, sk_ip = ''1.2.3.4'', sk_port = 80, sk_opts = []\<rparr>"

lemma idle_timer_uninitialised_witness:
  "\<exists>s'. newConnection map_ctl sample_socket Map.empty () \<lparr>conns = []\<rparr>
      = Inr (s' :: (nat, int \<Rightarrow> 32 word option, unit) tcp_server)
    \<and> ClearClientTimerFunc sample_config 0 s' = Inl Uninitialised"
proof -
  have "\<exists>s'. newConnection map_ctl sample_socket Map.empty () \<lparr>conns = []\<rparr>
      = Inr (s' :: (nat, int \<Rightarrow> 32 word option, unit) tcp_server)"
    by (simp add: newConnection_def Let_def conn_enableReading_def on_channel_def Connection_new_def
        enableReading_def setChannel_def useET_def Channel_new_def)
  then obtain s' where s': "newConnection map_ctl sample_socket Map.empty () \<lparr>conns = []\<rparr>
      = Inr (s' :: (nat, int \<Rightarrow> 32 word option, unit) tcp_server)" ..
  from idle_timer_uninitialised [OF this, of sample_config 0] s' show ?thesis by (intro exI [of _ s'] conjI)
qed

text \<open>
  Once every connection has received something, the idle timer shuts down exactly the
  connections that were silent for longer than the configured time-out and have nothing
  left to send.
\<close>

theorem idle_timer_closes_idle:
  assumes "\<forall>(fd, c) \<in> set (conns s). lastTime c \<noteq> None"
  shows "\<exists>fds. ClearClientTimerFunc cfg now s = Inr fds \<and> set fds = {fd. \<exists>f c. (f, c) \<in> set (conns s)
    \<and> fd = sk_fd (c_sock c) \<and> cfg_timeout cfg < now - the (lastTime c) \<and> \<not> conn_isWriting c}"
  using clear_clients_ok [OF assms, of now "cfg_timeout cfg"]
  by (auto simp: ClearClientTimerFunc_def)

lemma idle_timer_closes_idle_witness:
  "\<exists>fds. ClearClientTimerFunc (sample_config\<lparr>cfg_timeout := 10\<rparr>) 20
      \<lparr>conns = [(7, (sample_conn ConnectionByServer)\<lparr>lastTime := Some 5\<rparr>),
                (8, (sample_conn ConnectionByServer)\<lparr>lastTime := Some 15\<rparr>)]\<rparr> = Inr fds
    \<and> set fds = {7}"
proof -
  let ?s = "\<lparr>conns = [(7, (sample_conn ConnectionByServer)\<lparr>lastTime := Some 5\<rparr>),
                (8, (sample_conn ConnectionByServer)\<lparr>lastTime := Some 15\<rparr>)]\<rparr>"
  have k: "\<not> conn_isWriting ((sample_conn ConnectionByServer)\<lparr>lastTime := t\<rparr>)"
    "sk_fd (c_sock (sample_conn ConnectionByServer)) = 7" for t
    by (simp_all add: sample_conn_def conn_isWriting_def channel_isWriting_def useET_def Channel_new_def
        Connection_new_def epoll_bits)
  have "\<forall>(fd, c) \<in> set (conns ?s). lastTime c \<noteq> None" by simp
  from idle_timer_closes_idle [OF this, of "sample_config\<lparr>cfg_timeout := 10\<rparr>" 20]
  obtain fds where f: "ClearClientTimerFunc (sample_config\<lparr>cfg_timeout := 10\<rparr>) 20 ?s = Inr fds"
    "set fds = {fd. \<exists>f c. (f, c) \<in> set (conns ?s) \<and> fd = sk_fd (c_sock c)
      \<and> cfg_timeout (sample_config\<lparr>cfg_timeout := 10\<rparr>) < 20 - the (lastTime c) \<and> \<not> conn_isWriting c}" by blast
  have "set fds = {7}" unfolding f(2) by (simp add: k conj_disj_distribR ex_disj_distrib cong: conj_cong)
  then show ?thesis using f(1) by blast
qed

lemma requests_answered:
  assumes "c_type c = ConnectionByServer" "messageCB c" "\<not> disConnect c" "buffer_wf (inputbuffer c)"
    "arrives as d" "contents (inputbuffer c) @ d = concat (map frame ms)"
    "writeIndex (inputbuffer c) + length d \<le> DECODE_MAX" "length ms \<le> 2147483647"
    "\<And>j. j < length as \<Longrightarrow> ans j = as ! j" "ans (length as) = Read_error EAGAIN"
    "buffer_wf (outputbuffer c)" "rs = map (\<lambda>m. default_id (server_reply sv (c_sock c) (wire m))) ms"
    "sum_list (map package_length rs) \<le> buffer_room (outputbuffer c)"
    "kernel_ok (epoll sv) watched" "in_sync watched (c_channel c, c_kernel c)"
    "cfg_workThread (config sv) = 0" "threadId l = Some me"
  shows "\<exists>c'. onMessage (epoll sv) (message_callback sv me l pool) exec now ans c = Some (Inr c')
    \<and> contents (outputbuffer c') = contents (outputbuffer c) @ concat (map frame rs)
    \<and> contents (inputbuffer c') = [] \<and> lastTime c' = Some now
    \<and> watched (c_kernel c') (ch_fd (c_channel c)) = Some (events (c_channel c) OR EPOLLOUT)
    \<and> in_sync watched (c_channel c', c_kernel c') \<and> c_type c' = ConnectionByServer \<and> \<not> disConnect c'
    \<and> buffer_wf (outputbuffer c') \<and> buffer_wf (inputbuffer c') \<and> c_sent c' = c_sent c"
proof -
  obtain b where b: "onMessage (epoll sv) (message_callback sv me l pool) exec now ans c
      = Some (message_callback sv me l pool (map wire ms) (c\<lparr>lastTime := Some now, inputbuffer := b\<rparr>))"
    "contents b = []" "buffer_wf b"
    using onMessage_requests [OF assms(1,2,4-7,9,10)] by blast
  let ?c = "c\<lparr>lastTime := Some now, inputbuffer := b\<rparr>"
  let ?pkgs = "map (\<lambda>m. server_reply sv (c_sock c) (wire m)) ms"
  have rs: "map default_id ?pkgs = rs" by (simp add: assms(12))
  have "map package_length rs = map (package_length \<circ> default_id) ?pkgs" by (simp flip: rs)
  then have "sum_list (map (package_length \<circ> default_id) ?pkgs) \<le> buffer_room (outputbuffer c)"
    using assms(13) by simp
  then obtain ob where ob: "encode ?pkgs (outputbuffer c) = Inr (rs, ob)"
    using encode_ok [OF assms(11), of ?pkgs] rs by auto
  then have cob: "contents ob = contents (outputbuffer c) @ concat (map frame rs)" "buffer_wf ob"
    using encode_Inr [OF assms(11) ob] by simp_all
  let ?ch = "(c_channel c)\<lparr>events := events (c_channel c) OR EPOLLOUT\<rparr>"
  have "in_sync watched (?ch, c_kernel c)" using assms(15) by (simp add: in_sync_def)
  then obtain ch k where ch: "setChannel (epoll sv) (?ch, c_kernel c) = Inr (ch, k)"
    "watched k = (watched (c_kernel c))(ch_fd ?ch \<mapsto> events ?ch)" "in_sync watched (ch, k)"
    using setChannel_sync [OF assms(14)] by metis
  let ?c' = "?c\<lparr>outputbuffer := ob, c_channel := ch, c_kernel := k\<rparr>"
  have "regSend (epoll sv) ?pkgs ?c = Inr ?c'"
    using assms(3) ob ch(1) by (simp add: regSend_def conn_enableWriting_def on_channel_def enableWriting_def)
  then have "message_callback sv me l pool (map wire ms) ?c = Inr ?c'"
    using assms(3,8,16,17)
    by (simp add: message_callback_def HandleMessage_def OnMassage_def Connection_send_def
        runInLoop_def isLoopThread_def regSend_task_def comp_def)
  then show ?thesis using b cob ch(2,3) assms(1,3) by (intro exI [of _ ?c']) simp
qed

text \<open>
  A server without worker threads answers the requests of a connection in their order: when
  the frames of some requests have arrived (in any chunks), the connection's output buffer
  is extended by the frames of exactly the dispatcher's replies, one per request and in
  the same order, and the kernel is asked to report when it can be written.
\<close>

theorem requests_answered_in_order:
  assumes "c_type c = ConnectionByServer" "messageCB c" "\<not> disConnect c" "buffer_wf (inputbuffer c)"
    "arrives as d" "contents (inputbuffer c) @ d = concat (map frame ms)"
    "writeIndex (inputbuffer c) + length d \<le> DECODE_MAX" "length ms \<le> 2147483647"
    "\<And>j. j < length as \<Longrightarrow> ans j = as ! j" "ans (length as) = Read_error EAGAIN"
    "buffer_wf (outputbuffer c)" "rs = map (\<lambda>m. default_id (server_reply sv (c_sock c) (wire m))) ms"
    "sum_list (map package_length rs) \<le> buffer_room (outputbuffer c)"
    "kernel_ok (epoll sv) watched" "in_sync watched (c_channel c, c_kernel c)"
    "cfg_workThread (config sv) = 0" "threadId l = Some me"
  shows "\<exists>c'. onMessage (epoll sv) (message_callback sv me l pool) exec now ans c = Some (Inr c')
    \<and> contents (outputbuffer c') = contents (outputbuffer c) @ concat (map frame rs)
    \<and> contents (inputbuffer c') = [] \<and> lastTime c' = Some now
    \<and> watched (c_kernel c') (ch_fd (c_channel c)) = Some (events (c_channel c) OR EPOLLOUT)"
  using requests_answered [OF assms] by blast

definition sample_server :: "(unit, string, string, int \<Rightarrow> 32 word option) rpc_server" where
  "sample_server = \<lparr>services = [''Echo'' \<mapsto> echo_service], config = sample_config, epoll = map_ctl,
    inet = (\<lambda>_. 0)\<rparr>"

definition sample_loop :: "(nat, int \<Rightarrow> 32 word option, (nat \<times> tinypb list) list) conn
    \<Rightarrow> (unit, tinypb list, (nat, int \<Rightarrow> 32 word option, (nat \<times> tinypb list) list) conn) el" where
  "sample_loop c = \<lparr>el_channels = (\<lambda>_. Channel_new 0), threadId = Some 1, el_stop = False,
    taskqueue = [], taskMutex = None, wakeup_count = 0, timeoutCallback = None, el_env = c\<rparr>"

lemma requests_answered_in_order_witness:
  "\<exists>c'. onMessage map_ctl (message_callback sample_server 1 (sample_loop (sample_conn ConnectionByServer))
        (ThreadPool_new 0)) log_done 5
      (sample_reads [Read_error EINTR, Read_bytes (frame (sample_msg ''1''))] (Read_error EAGAIN))
      (sample_conn ConnectionByServer) = Some (Inr c')
    \<and> contents (outputbuffer c') = frame ((sample_msg ''1'')\<lparr>error_code := word_of_int ERROR_SERVICE_NOT_FOUND\<rparr>)
    \<and> c_kernel c' 7 = Some ((EPOLLIN OR EPOLLET) OR EPOLLOUT)"
proof -
  let ?c = "sample_conn ConnectionByServer"
  let ?as = "[Read_error EINTR, Read_bytes (frame (sample_msg ''1''))]"
  let ?r = "(sample_msg ''1'')\<lparr>error_code := word_of_int ERROR_SERVICE_NOT_FOUND\<rparr>"
  have r: "default_id (server_reply sample_server (c_sock ?c) (wire (sample_msg ''1''))) = ?r"
    by (simp add: server_reply_def dispatch_def sample_server_def wire_def sample_msg_def TinyPB_new_def
        parseServiceFullName_def default_id_def)
  have "\<exists>c'. onMessage (epoll sample_server) (message_callback sample_server 1 (sample_loop ?c) (ThreadPool_new 0))
      log_done 5 (sample_reads ?as (Read_error EAGAIN)) ?c = Some (Inr c')
    \<and> contents (outputbuffer c') = contents (outputbuffer ?c) @ concat (map frame [?r])
    \<and> contents (inputbuffer c') = [] \<and> lastTime c' = Some 5
    \<and> (c_kernel c') (ch_fd (c_channel ?c)) = Some (events (c_channel ?c) OR EPOLLOUT)"
  proof (rule requests_answered_in_order [where ms = "[sample_msg ''1'']", OF _ _ _ _ sample_arrives])
    show "sum_list (map package_length [?r]) \<le> buffer_room (outputbuffer ?c)"
      using sample_frame by (simp add: package_length_def buffer_room_def Buffer_new_def MAX_SIZE_def)
    show "kernel_ok (epoll sample_server) (\<lambda>k. k)" using map_ctl_ok by (simp add: sample_server_def)
    show "in_sync (\<lambda>k. k) (c_channel ?c, c_kernel ?c)"
      by (simp add: in_sync_def sample_conn_def Connection_new_def useET_def Channel_new_def)
    show "cfg_workThread (config sample_server) = 0" by (simp add: sample_server_def sample_config_def)
  qed (use r in \<open>simp_all add: sample_frame DECODE_MAX_def sample_reads_def sample_loop_def\<close>)
  then show ?thesis
    by (auto simp: sample_server_def sample_conn_def Connection_new_def useET_def Channel_new_def)
qed

end
