(* ===== verification/TimerQueue.thy ===== *)
theory TimerQueue
  imports Prelude "HOL-Library.Signed_Division"
begin

text \<open>
  Timer events and the timer of an event loop, \<open>src/common/TimeEvent.cpp\<close> and
  \<open>src/net/TIme.cpp\<close>. Events are shared objects, so they live in a store indexed by an
  allocation number; \<open>pending_events_\<close> is the list of the entries of the multimap in
  their order. \<open>gettimeofday\<close> is a stream of answers in milliseconds: the argument \<open>clock\<close>
  gives the n-th answer, \<open>clk\<close> counts the calls, as times are added and compared only
  (an \<open>int64_t\<close> of milliseconds does not overflow). \<open>armed\<close> is the last setting the kernel
  accepted for the timer descriptor. Callbacks are of an arbitrary type; \<open>onTime\<close> returns
  those it calls, in order.
\<close>

record 't time_event =
  arrive_time :: int
  interval :: int
  is_repeated :: bool
  is_cancled :: bool
  ev_task :: "'t option"

record 't time_q =
  pending_events :: "(int \<times> nat) list"
  store :: "nat \<Rightarrow> 't time_event"
  next_event :: nat
  armed :: "(int \<times> int) option"
  clk :: nat

definition gettimeofday :: "(nat \<Rightarrow> int) \<Rightarrow> 't time_q \<Rightarrow> int \<times> 't time_q" where
  "gettimeofday clock s = (clock (clk s), s\<lparr>clk := Suc (clk s)\<rparr>)"

section \<open>Events\<close>

definition resetEvent :: "(nat \<Rightarrow> int) \<Rightarrow> nat \<Rightarrow> 't time_q \<Rightarrow> 't time_q" where
  "resetEvent clock e s = (let (now, s1) = gettimeofday clock s in
    s1\<lparr>store := (store s1)(e := (store s1 e)\<lparr>arrive_time := now + interval (store s1 e)\<rparr>)\<rparr>)"

definition TimeEvent_new :: "(nat \<Rightarrow> int) \<Rightarrow> int \<Rightarrow> bool \<Rightarrow> 't option \<Rightarrow> 't time_q \<Rightarrow> nat \<times> 't time_q" where
  "TimeEvent_new clock iv rep cb s = (let e = next_event s in
    (e, resetEvent clock e (s\<lparr>next_event := Suc e,
       store := (store s)(e := \<lparr>arrive_time = 0, interval = iv, is_repeated = rep,
         is_cancled = False, ev_task = cb\<rparr>)\<rparr>)))"

definition setCancled :: "nat \<Rightarrow> bool \<Rightarrow> 't time_q \<Rightarrow> 't time_q" where
  "setCancled e b s = s\<lparr>store := (store s)(e := (store s e)\<lparr>is_cancled := b\<rparr>)\<rparr>"

section \<open>The timer\<close>

text \<open>
  The two fields of an \<open>itimerspec\<close> for a number of milliseconds, with the truncating
  division of C. \<open>timerfd_settime\<close> refuses a negative time and leaves the timer as it was.
\<close>

definition timespec_of :: "int \<Rightarrow> int \<times> int" where
  "timespec_of ms = (ms sdiv 1000, (ms smod 1000) * 1000000)"

definition timerfd_settime :: "int \<times> int \<Rightarrow> 't time_q \<Rightarrow> 't time_q" where
  "timerfd_settime v s = (if 0 \<le> fst v \<and> 0 \<le> snd v \<and> snd v < 1000000000
    then s\<lparr>armed := Some v\<rparr> else s)"

definition createTimefd :: "int \<Rightarrow> 't time_q \<Rightarrow> 't time_q" where
  "createTimefd timeval s = timerfd_settime (timespec_of timeval) s"

definition Time_resetArriveTime :: "int \<Rightarrow> (nat \<Rightarrow> int) \<Rightarrow> 't time_q \<Rightarrow> 't time_q" where
  "Time_resetArriveTime timeout clock s = (case pending_events s of
      [] \<Rightarrow> s
    | (k, e) # _ \<Rightarrow>
        let (now, s1) = gettimeofday clock s;
            inteval = (if arrive_time (store s1 e) > now then arrive_time (store s1 e) - now
                       else timeout)
        in timerfd_settime (timespec_of inteval) s1)"

text \<open>\<open>multimap::emplace\<close>: behind the entries of the same key.\<close>

fun emplace :: "int \<Rightarrow> nat \<Rightarrow> (int \<times> nat) list \<Rightarrow> (int \<times> nat) list" where
  "emplace k e [] = [(k, e)]"
| "emplace k e (p # ps) = (if k < fst p then (k, e) # p # ps else p # emplace k e ps)"

definition addTimerEvent :: "int \<Rightarrow> (nat \<Rightarrow> int) \<Rightarrow> nat \<Rightarrow> 't time_q \<Rightarrow> 't time_q" where
  "addTimerEvent timeout clock e s =
    (let is_reset_timerfd = (case pending_events s of
           [] \<Rightarrow> True
         | (k, e') # _ \<Rightarrow> arrive_time (store s e') > arrive_time (store s e));
         s1 = s\<lparr>pending_events := emplace (arrive_time (store s e)) e (pending_events s)\<rparr>
     in if is_reset_timerfd then Time_resetArriveTime timeout clock s1 else s1)"

fun erase_first :: "nat \<Rightarrow> (int \<times> nat) list \<Rightarrow> (int \<times> nat) list" where
  "erase_first e [] = []"
| "erase_first e (p # ps) = (if snd p = e then ps else p # erase_first e ps)"

definition deleteTimerEvent :: "nat \<Rightarrow> 't time_q \<Rightarrow> 't time_q" where
  "deleteTimerEvent e s = (let s1 = setCancled e True s; k = arrive_time (store s1 e);
      lo = takeWhile (\<lambda>p. fst p < k) (pending_events s1);
      rest = dropWhile (\<lambda>p. fst p < k) (pending_events s1);
      range = takeWhile (\<lambda>p. fst p \<le> k) rest;
      hi = dropWhile (\<lambda>p. fst p \<le> k) rest
    in s1\<lparr>pending_events := lo @ erase_first e range @ hi\<rparr>)"

text \<open>The loop of \<open>onTime\<close> that adds the repeated events again.\<close>

fun readd :: "int \<Rightarrow> (nat \<Rightarrow> int) \<Rightarrow> nat list \<Rightarrow> 't time_q \<Rightarrow> 't time_q" where
  "readd timeout clock [] s = s"
| "readd timeout clock (e # es) s = readd timeout clock es
    (if is_repeated (store s e) then addTimerEvent timeout clock e (resetEvent clock e s) else s)"

definition onTime :: "int \<Rightarrow> (nat \<Rightarrow> int) \<Rightarrow> 't time_q \<Rightarrow> 't list \<times> 't time_q" where
  "onTime timeout clock s = (
    let (now, s1) = gettimeofday clock s;
        expired = takeWhile (\<lambda>p. fst p \<le> now) (pending_events s1);
        tmps = filter (\<lambda>e. \<not> is_cancled (store s1 e)) (map snd expired);
        tasks = map (\<lambda>e. ev_task (store s1 e)) tmps;
        s2 = s1\<lparr>pending_events := dropWhile (\<lambda>p. fst p \<le> now) (pending_events s1)\<rparr>;
        s3 = readd timeout clock tmps s2;
        s4 = Time_resetArriveTime timeout clock s3
    in (map the (filter (\<lambda>t. t \<noteq> None) tasks), s4))"

section \<open>Invariant\<close>

definition timer_wf :: "'t time_q \<Rightarrow> bool" where
  "timer_wf s \<longleftrightarrow> sorted (map fst (pending_events s)) \<and> distinct (map snd (pending_events s))
    \<and> (\<forall>(k, e) \<in> set (pending_events s). k = arrive_time (store s e))"

definition pending :: "'t time_q \<Rightarrow> nat set" where
  "pending s = snd ` set (pending_events s)"

lemma set_emplace [simp]: "set (emplace k e ps) = insert (k, e) (set ps)"
  by (induction ps) auto

lemma sorted_emplace: "sorted (map fst ps) \<Longrightarrow> sorted (map fst (emplace k e ps))"
  by (induction ps) (auto simp: not_less)

lemma distinct_emplace:
  "distinct (map snd ps) \<Longrightarrow> e \<notin> snd ` set ps \<Longrightarrow> distinct (map snd (emplace k e ps))"
  by (induction ps) auto

lemma timerfd_settime_simps [simp]:
  "pending_events (timerfd_settime v s) = pending_events s"
  "store (timerfd_settime v s) = store s" "next_event (timerfd_settime v s) = next_event s"
  "clk (timerfd_settime v s) = clk s"
  by (simp_all add: timerfd_settime_def)

lemma Time_resetArriveTime_simps [simp]:
  "pending_events (Time_resetArriveTime to c s) = pending_events s"
  "store (Time_resetArriveTime to c s) = store s"
  "next_event (Time_resetArriveTime to c s) = next_event s"
  "clk s \<le> clk (Time_resetArriveTime to c s)"
  by (auto simp: Time_resetArriveTime_def gettimeofday_def split: list.splits)

lemma resetEvent_simps [simp]:
  "pending_events (resetEvent c e s) = pending_events s"
  "store (resetEvent c e s) = (store s)(e := (store s e)\<lparr>arrive_time := c (clk s) + interval (store s e)\<rparr>)"
  "clk (resetEvent c e s) = Suc (clk s)"
  by (simp_all add: resetEvent_def gettimeofday_def)

lemma addTimerEvent_simps [simp]:
  "pending_events (addTimerEvent to c e s) = emplace (arrive_time (store s e)) e (pending_events s)"
  "store (addTimerEvent to c e s) = store s"
  "clk s \<le> clk (addTimerEvent to c e s)"
  by (auto simp: addTimerEvent_def Let_def intro: order_trans [OF _ Time_resetArriveTime_simps(4)])

lemma addTimerEvent_wf:
  assumes "timer_wf s" "e \<notin> pending s"
  shows "timer_wf (addTimerEvent to c e s)" "pending (addTimerEvent to c e s) = insert e (pending s)"
  using assms by (auto simp: timer_wf_def pending_def sorted_emplace distinct_emplace)

lemma timer_wf_store:
  "timer_wf s \<Longrightarrow> (\<And>e. e \<in> pending s \<Longrightarrow> arrive_time (store s' e) = arrive_time (store s e)) \<Longrightarrow>
    pending_events s' = pending_events s \<Longrightarrow> timer_wf s'"
  by (force simp: timer_wf_def pending_def)

lemma resetEvent_wf:
  "timer_wf s \<Longrightarrow> e \<notin> pending s \<Longrightarrow> timer_wf (resetEvent c e s)"
  by (erule timer_wf_store) auto

text \<open>What the re-adding loop does to pending and other events.\<close>

lemma readd_effect:
  assumes "timer_wf s" "distinct es" "set es \<inter> pending s = {}" "mono c"
  shows "timer_wf (readd to c es s)
    \<and> pending (readd to c es s) = pending s \<union> {e \<in> set es. is_repeated (store s e)}
    \<and> (\<forall>e. e \<notin> set es \<or> \<not> is_repeated (store s e) \<longrightarrow> store (readd to c es s) e = store s e)
    \<and> (\<forall>e \<in> set es. is_repeated (store s e) \<longrightarrow>
        (\<exists>now \<ge> c (clk s). store (readd to c es s) e
          = (store s e)\<lparr>arrive_time := now + interval (store s e)\<rparr>))"
  using assms
proof (induction es arbitrary: s)
  case (Cons e es)
  define s1 where "s1 = (if is_repeated (store s e)
    then addTimerEvent to c e (resetEvent c e s) else s)"
  have p: "pending (resetEvent c e s) = pending s" by (simp add: pending_def)
  have e: "e \<notin> pending s" using Cons.prems by auto
  have w1: "timer_wf s1"
    using Cons.prems e p by (auto simp: s1_def intro!: addTimerEvent_wf resetEvent_wf)
  have pe: "pending s1 = pending s \<union> (if is_repeated (store s e) then {e} else {})"
    using Cons.prems e p addTimerEvent_wf(2) [OF resetEvent_wf, of s e]
    by (auto simp: s1_def)
  have st: "store s1 = (if is_repeated (store s e)
      then (store s)(e := (store s e)\<lparr>arrive_time := c (clk s) + interval (store s e)\<rparr>) else store s)"
    by (simp add: s1_def)
  have ck: "clk s \<le> clk s1"
    using addTimerEvent_simps(3) [of "resetEvent c e s" to c e] by (auto simp: s1_def)
  have cm: "c (clk s) \<le> c (clk s1)" using \<open>mono c\<close> ck by (rule monoD)
  have d: "e \<notin> set es" "distinct es" "set es \<inter> pending s1 = {}"
    using Cons.prems pe by auto
  note IH = Cons.IH [OF w1 d(2,3) \<open>mono c\<close>]
  have r: "readd to c (e # es) s = readd to c es s1" by (simp add: s1_def)
  have same: "store s1 x = store s x" if "x \<noteq> e" for x using that st by simp
  have late: "\<exists>now\<ge>c (clk s). store (readd to c es s1) x = (store s x)\<lparr>arrive_time := now + interval (store s x)\<rparr>"
    if x: "x \<in> set es" "is_repeated (store s x)" for x
  proof -
    have "x \<noteq> e" using d x by auto
    then have "store s1 x = store s x" by (rule same)
    then have "is_repeated (store s1 x)" using x by simp
    then obtain now where "c (clk s1) \<le> now"
      "store (readd to c es s1) x = (store s1 x)\<lparr>arrive_time := now + interval (store s1 x)\<rparr>"
      using IH x(1) by blast
    then show ?thesis using cm same [OF \<open>x \<noteq> e\<close>] by (intro exI [of _ now]) simp
  qed
  have here: "store (readd to c es s1) e = store s1 e" using IH d by blast
  have "store (readd to c es s1) x = store s x"
    if x: "x \<notin> set (e # es) \<or> \<not> is_repeated (store s x)" for x
  proof (cases "x = e")
    case True
    then show ?thesis using x here st by auto
  next
    case False
    then show ?thesis using x IH same [OF False] by auto
  qed
  moreover have "{x \<in> set es. is_repeated (store s1 x)} = {x \<in> set es. is_repeated (store s x)}"
    using same d by (metis (no_types, lifting))
  then have "pending (readd to c es s1) = pending s \<union> {x \<in> set (e # es). is_repeated (store s x)}"
    using IH pe by auto
  moreover have "\<exists>now\<ge>c (clk s). store (readd to c es s1) x
      = (store s x)\<lparr>arrive_time := now + interval (store s x)\<rparr>"
    if "x \<in> set (e # es)" "is_repeated (store s x)" for x
    using that late here st by (cases "x = e") auto
  ultimately show ?case using IH unfolding r by blast
qed simp

lemma sorted_take_drop:
  "sorted (map fst ps) \<Longrightarrow> set (takeWhile (\<lambda>p. fst p \<le> (now :: int)) ps) = {p \<in> set ps. fst p \<le> now}
    \<and> set (dropWhile (\<lambda>p. fst p \<le> now) ps) = {p \<in> set ps. \<not> fst p \<le> now}"
proof (induction ps)
  case (Cons p ps)
  have "\<not> fst q \<le> now" if "\<not> fst p \<le> now" "q \<in> set ps" for q
    using Cons.prems that by force
  then show ?case using Cons by auto
qed simp

text \<open>The state after the expired events were taken out.\<close>

lemma split_expired:
  fixes now :: int
  assumes "timer_wf s"
  defines "ex \<equiv> takeWhile (\<lambda>p. fst p \<le> now) (pending_events s)"
    and "s2 \<equiv> s\<lparr>clk := Suc (clk s), pending_events := dropWhile (\<lambda>p. fst p \<le> now) (pending_events s)\<rparr>"
  shows "timer_wf s2" "snd ` set ex = {e \<in> pending s. arrive_time (store s e) \<le> now}"
    "pending s2 = {e \<in> pending s. \<not> arrive_time (store s e) \<le> now}"
    "distinct (map snd ex)" "sorted (map (\<lambda>e. arrive_time (store s e)) (map snd ex))"
proof -
  let ?P = "\<lambda>p. fst p \<le> now"
  have srt: "sorted (map fst (pending_events s))" and dis: "distinct (map snd (pending_events s))"
    and key: "\<And>k e. (k, e) \<in> set (pending_events s) \<Longrightarrow> k = arrive_time (store s e)"
    using assms(1) by (auto simp: timer_wf_def)
  have app: "pending_events s = ex @ dropWhile ?P (pending_events s)" by (simp add: ex_def)
  have "sorted (map fst ex)" "sorted (map fst (dropWhile ?P (pending_events s)))"
    "distinct (map snd ex)" "distinct (map snd (dropWhile ?P (pending_events s)))"
    using srt dis unfolding arg_cong [OF app, of "map fst"] arg_cong [OF app, of "map snd"]
    by (auto simp: sorted_append)
  note parts = this
  show "distinct (map snd ex)" by (rule parts(3))
  show "timer_wf s2"
    using parts key by (auto simp: timer_wf_def s2_def dest: set_dropWhileD)
  show "snd ` set ex = {e \<in> pending s. arrive_time (store s e) \<le> now}"
    unfolding ex_def conjunct1 [OF sorted_take_drop [OF srt]] pending_def using key by force
  show "pending s2 = {e \<in> pending s. \<not> arrive_time (store s e) \<le> now}"
    unfolding s2_def pending_def using sorted_take_drop [OF srt] key by force
  have eq: "map (\<lambda>e. arrive_time (store s e)) (map snd ex) = map fst ex"
    using key by (auto simp: ex_def dest: set_takeWhileD)
  show "sorted (map (\<lambda>e. arrive_time (store s e)) (map snd ex))" unfolding eq by (rule parts(1))
qed

lemma onTime_effect:
  assumes "timer_wf s" "mono clock" "onTime timeout clock s = (ts, s')" "now = clock (clk s)"
  shows "timer_wf s'
    \<and> (\<exists>es. ts = map the (filter (\<lambda>t. t \<noteq> None) (map (\<lambda>e. ev_task (store s e)) es))
        \<and> distinct es \<and> sorted (map (\<lambda>e. arrive_time (store s e)) es)
        \<and> set es = {e \<in> pending s. arrive_time (store s e) \<le> now \<and> \<not> is_cancled (store s e)})
    \<and> pending s' = {e \<in> pending s. now < arrive_time (store s e)}
        \<union> {e \<in> pending s. arrive_time (store s e) \<le> now \<and> \<not> is_cancled (store s e)
            \<and> is_repeated (store s e)}
    \<and> (\<forall>e \<in> pending s'. arrive_time (store s e) \<le> now \<and> 0 < interval (store s e) \<longrightarrow>
        now < arrive_time (store s' e))"
proof -
  define s2 where "s2 = s\<lparr>clk := Suc (clk s),
    pending_events := dropWhile (\<lambda>p. fst p \<le> now) (pending_events s)\<rparr>"
  define ex where "ex = takeWhile (\<lambda>p. fst p \<le> now) (pending_events s)"
  define es where "es = filter (\<lambda>e. \<not> is_cancled (store s e)) (map snd ex)"
  note sp = split_expired [OF assms(1), of now, folded s2_def ex_def]
  have run: "ts = map the (filter (\<lambda>t. t \<noteq> None) (map (\<lambda>e. ev_task (store s e)) es))"
    "s' = Time_resetArriveTime timeout clock (readd timeout clock es s2)"
    using assms by (auto simp: onTime_def gettimeofday_def s2_def es_def ex_def Let_def)
  have des: "distinct es" using sp(4) by (simp add: es_def)
  have ses: "set es = {e \<in> pending s. arrive_time (store s e) \<le> now \<and> \<not> is_cancled (store s e)}"
    using sp(2) by (auto simp: es_def)
  have srt: "sorted (map (\<lambda>e. arrive_time (store s e)) es)"
    using sorted_filter [OF sp(5), of "\<lambda>e. \<not> is_cancled (store s e)"] by (simp add: es_def)
  have dj: "set es \<inter> pending s2 = {}" using ses sp(3) by auto
  have s2s: "store s2 = store s" "clk s2 = Suc (clk s)" by (simp_all add: s2_def)
  note rd = readd_effect [OF sp(1) des dj assms(2), of timeout, unfolded s2s]
  have "clock (clk s) \<le> clock (Suc (clk s))" using assms(2) by (simp add: monoD)
  then have later: "now < arrive_time (store (readd timeout clock es s2) e)"
    if "e \<in> set es" "is_repeated (store s e)" "0 < interval (store s e)" for e
    using rd that assms(4) by fastforce
  have ps: "pending s' = pending (readd timeout clock es s2)" "store s' = store (readd timeout clock es s2)"
    "timer_wf s' = timer_wf (readd timeout clock es s2)"
    by (simp_all add: run pending_def timer_wf_def)
  have pend: "pending s' = {e \<in> pending s. now < arrive_time (store s e)}
        \<union> {e \<in> pending s. arrive_time (store s e) \<le> now \<and> \<not> is_cancled (store s e)
            \<and> is_repeated (store s e)}"
    using rd sp(3) ses by (auto simp: ps not_le)
  have "timer_wf s'" using rd ps by simp
  moreover have "\<forall>e \<in> pending s'. arrive_time (store s e) \<le> now \<and> 0 < interval (store s e) \<longrightarrow>
        now < arrive_time (store s' e)"
    using later ses pend by (auto simp: ps)
  ultimately show ?thesis using run(1) des srt ses pend by blast
qed

section \<open>Properties\<close>

text \<open>C19.
  When the timer fires at time \<open>now\<close>, the callbacks that run are those of the pending
  events that are due and not cancelled, each once, in the order of their arrival times.
  Afterwards the events that were not due and the repeated ones among those that ran are
  pending, nothing else; a repeated event with a positive interval is due again only
  later, and the queue is still well-formed.
\<close>

theorem onTime_runs_due_events:
  assumes "timer_wf s" "mono clock" "onTime timeout clock s = (ts, s')" "now = clock (clk s)"
  shows "timer_wf s'
    \<and> (\<exists>es. ts = map the (filter (\<lambda>t. t \<noteq> None) (map (\<lambda>e. ev_task (store s e)) es))
        \<and> distinct es \<and> sorted (map (\<lambda>e. arrive_time (store s e)) es)
        \<and> set es = {e \<in> pending s. arrive_time (store s e) \<le> now \<and> \<not> is_cancled (store s e)})
    \<and> pending s' = {e \<in> pending s. now < arrive_time (store s e)}
        \<union> {e \<in> pending s. arrive_time (store s e) \<le> now \<and> \<not> is_cancled (store s e)
            \<and> is_repeated (store s e)}
    \<and> (\<forall>e \<in> pending s'. arrive_time (store s e) \<le> now \<and> 0 < interval (store s e) \<longrightarrow>
        now < arrive_time (store s' e))"
  by (rule onTime_effect [OF assms])

definition sample_timer :: "nat time_q" where
  "sample_timer = \<lparr>pending_events = [(5, 0), (9, 1)],
    store = (\<lambda>e. \<lparr>arrive_time = (if e = 0 then 5 else 9), interval = 4, is_repeated = (e = 0),
      is_cancled = False, ev_task = Some e\<rparr>), next_event = 2, armed = None, clk = 7\<rparr>"

lemma sample_timer_wf: "timer_wf sample_timer"
  by (simp add: sample_timer_def timer_wf_def)

lemma onTime_runs_due_events_witness:
  "\<exists>ts s'. onTime 100 int sample_timer = (ts, s') \<and> timer_wf s'
    \<and> pending s' = {e \<in> pending sample_timer. 7 < arrive_time (store sample_timer e)}
        \<union> {e \<in> pending sample_timer. arrive_time (store sample_timer e) \<le> 7
            \<and> \<not> is_cancled (store sample_timer e) \<and> is_repeated (store sample_timer e)}"
proof -
  obtain ts s' where o: "onTime 100 int sample_timer = (ts, s')" by fastforce
  have m: "mono int" by (simp add: mono_def)
  have "7 = int (clk sample_timer)" by (simp add: sample_timer_def)
  from onTime_runs_due_events [OF sample_timer_wf m o this] o show ?thesis by blast
qed

lemma sorted_mid:
  "sorted (xs @ ys @ zs) \<Longrightarrow> sorted vs \<Longrightarrow> set vs \<subseteq> set ys \<Longrightarrow> sorted (xs @ vs @ zs)"
  by (auto simp: sorted_append)

lemma erase_first_simps:
  "distinct (map snd ps) \<Longrightarrow> set (erase_first e ps) = {p \<in> set ps. snd p \<noteq> e}
    \<and> distinct (map snd (erase_first e ps))
    \<and> (sorted (map fst ps) \<longrightarrow> sorted (map fst (erase_first e ps)))"
proof (induction ps)
  case (Cons p ps)
  then show ?case by (cases "snd p = e") (auto simp: image_iff)
qed simp

lemma deleteTimerEvent_effect:
  assumes "timer_wf s"
  shows "timer_wf (deleteTimerEvent e s) \<and> pending (deleteTimerEvent e s) = pending s - {e}
    \<and> is_cancled (store (deleteTimerEvent e s) e)
    \<and> (\<forall>e'. e' \<noteq> e \<longrightarrow> store (deleteTimerEvent e s) e' = store s e')"
proof -
  define s1 where "s1 = setCancled e True s"
  define k where "k = arrive_time (store s e)"
  let ?ps = "pending_events s"
  define lo rest where "lo = takeWhile (\<lambda>p. fst p < k) ?ps" and "rest = dropWhile (\<lambda>p. fst p < k) ?ps"
  define rng hi where "rng = takeWhile (\<lambda>p. fst p \<le> k) rest" and "hi = dropWhile (\<lambda>p. fst p \<le> k) rest"
  have app: "?ps = lo @ rng @ hi" by (simp add: lo_def rest_def rng_def hi_def)
  have s1: "pending_events s1 = ?ps" "arrive_time (store s1 x) = arrive_time (store s x)"
    "is_cancled (store s1 e)" "x \<noteq> e \<Longrightarrow> store s1 x = store s x" for x
    by (auto simp: s1_def setCancled_def)
  have d: "deleteTimerEvent e s = s1\<lparr>pending_events := lo @ erase_first e rng @ hi\<rparr>"
    unfolding deleteTimerEvent_def Let_def s1_def [symmetric] s1(1,2) k_def [symmetric]
      lo_def rng_def hi_def rest_def ..
  have srt: "sorted (map fst (lo @ rng @ hi))" and dis: "distinct (map snd (lo @ rng @ hi))"
    and key: "\<And>k e. (k, e) \<in> set (lo @ rng @ hi) \<Longrightarrow> k = arrive_time (store s e)"
    using assms unfolding app [symmetric] timer_wf_def by auto
  have hi: "k < fst p" if "p \<in> set hi" for p
  proof -
    have "hi \<noteq> []" using that by auto
    then have "\<not> fst (hd hi) \<le> k" unfolding hi_def by (rule hd_dropWhile)
    moreover have "sorted (map fst hi)" using srt by (simp add: sorted_append)
    then have "fst (hd hi) \<le> fst p" using that by (cases hi) auto
    ultimately show ?thesis by simp
  qed
  have lo: "fst p < k" if "p \<in> set lo" for p
    using that set_takeWhileD [of p "\<lambda>p. fst p < k"] by (simp add: lo_def)
  have only: "snd p \<noteq> e" if "p \<in> set lo \<union> set hi" for p
  proof
    assume "snd p = e"
    then have "fst p = k" using key [of "fst p" "snd p"] that k_def by auto
    then show False using lo hi that by fastforce
  qed
  have dr: "distinct (map snd rng)" "sorted (map fst rng)" using dis srt by (auto simp: sorted_append)
  note er = erase_first_simps [OF dr(1), of e]
  have set': "set (lo @ erase_first e rng @ hi) = {p \<in> set ?ps. snd p \<noteq> e}"
    unfolding app using er only by auto
  have "set (map fst (erase_first e rng)) \<subseteq> set (map fst rng)" using er by auto
  then have "sorted (map fst (lo @ erase_first e rng @ hi))"
    using sorted_mid [of "map fst lo" "map fst rng" "map fst hi" "map fst (erase_first e rng)"] srt er dr
    by simp
  moreover have "distinct (map snd (lo @ erase_first e rng @ hi))"
    using dis er by auto
  ultimately have "timer_wf (deleteTimerEvent e s)"
    using key set' unfolding d timer_wf_def app by (auto simp: s1)
  moreover have "pending (deleteTimerEvent e s) = pending s - {e}"
    using set' by (auto simp: d pending_def)
  ultimately show ?thesis using s1 by (auto simp: d)
qed

text \<open>
  A deleted event is marked as cancelled and is no longer pending, whatever other events
  share its arrival time; all other events stay pending and unchanged. So its callback
  never runs again.
\<close>

theorem deleteTimerEvent_removes:
  assumes "timer_wf s"
  shows "timer_wf (deleteTimerEvent e s) \<and> pending (deleteTimerEvent e s) = pending s - {e}
    \<and> is_cancled (store (deleteTimerEvent e s) e)
    \<and> (\<forall>e'. e' \<noteq> e \<longrightarrow> store (deleteTimerEvent e s) e' = store s e')"
  by (rule deleteTimerEvent_effect [OF assms])

lemma deleteTimerEvent_removes_witness:
  "timer_wf (deleteTimerEvent 1 sample_timer)
    \<and> pending (deleteTimerEvent 1 sample_timer) = pending sample_timer - {1}
    \<and> is_cancled (store (deleteTimerEvent 1 sample_timer) 1)
    \<and> store (deleteTimerEvent 1 sample_timer) 0 = store sample_timer 0"
  using deleteTimerEvent_removes [OF sample_timer_wf, of 1] by simp

lemma timespec_of_nonneg:
  assumes "0 \<le> ms"
  shows "fst (timespec_of ms) * 1000000000 + snd (timespec_of ms) = ms * 1000000"
    "0 \<le> fst (timespec_of ms)" "0 \<le> snd (timespec_of ms)" "snd (timespec_of ms) < 1000000000"
proof -
  have d: "ms sdiv 1000 = ms div 1000" "ms smod 1000 = ms mod 1000"
    using assms by (simp_all add: signed_divide_int_def signed_modulo_int_def sgn_if)
  show "fst (timespec_of ms) * 1000000000 + snd (timespec_of ms) = ms * 1000000"
    unfolding timespec_of_def d fst_conv snd_conv using div_mult_mod_eq [of ms 1000] by linarith
  show "0 \<le> fst (timespec_of ms)" "0 \<le> snd (timespec_of ms)" "snd (timespec_of ms) < 1000000000"
    using assms by (auto simp: timespec_of_def d pos_imp_zdiv_nonneg_iff)
qed

text \<open>
  Adding an event that is due before all pending ones arms the timer: for the time left if
  the event is due in the future, but for the configured default time-out (30 seconds)
  if it is due already, so such an event fires late. An event that is not the earliest
  leaves the timer as it was. (Times in nanoseconds.)
\<close>

theorem addTimerEvent_arms:
  assumes "timer_wf s" "0 \<le> timeout" "now = clock (clk s)" "due = arrive_time (store s e)"
  shows "if \<forall>e' \<in> pending s. due < arrive_time (store s e')
    then \<exists>sec ns. armed (addTimerEvent timeout clock e s) = Some (sec, ns)
      \<and> sec * 1000000000 + ns = (if now < due then due - now else timeout) * 1000000
    else armed (addTimerEvent timeout clock e s) = armed s"
proof -
  let ?first = "case pending_events s of [] \<Rightarrow> True
    | (k, e') # _ \<Rightarrow> arrive_time (store s e') > due"
  have first: "?first \<longleftrightarrow> (\<forall>e' \<in> pending s. due < arrive_time (store s e'))"
    using assms(1) by (cases "pending_events s") (force simp: timer_wf_def pending_def)+
  let ?s1 = "s\<lparr>pending_events := emplace due e (pending_events s)\<rparr>"
  show ?thesis
  proof (cases ?first)
    case True
    then obtain ps where ps: "pending_events ?s1 = (due, e) # ps"
      using assms(1) by (cases "pending_events s") (force simp: timer_wf_def)+
    let ?iv = "if now < due then due - now else timeout"
    have "addTimerEvent timeout clock e s = timerfd_settime (timespec_of ?iv) (?s1\<lparr>clk := Suc (clk s)\<rparr>)"
      using True [unfolded assms(4)] ps [unfolded assms(4)]
      by (simp add: addTimerEvent_def Time_resetArriveTime_def gettimeofday_def
          Let_def assms(3,4) if_distrib)
    moreover have "0 \<le> ?iv" using assms by simp
    ultimately have "armed (addTimerEvent timeout clock e s) = Some (timespec_of ?iv)"
      using timespec_of_nonneg [of ?iv] by (simp add: timerfd_settime_def)
    then have "\<exists>sec ns. armed (addTimerEvent timeout clock e s) = Some (sec, ns)
      \<and> sec * 1000000000 + ns = ?iv * 1000000"
      using timespec_of_nonneg(1) [OF \<open>0 \<le> ?iv\<close>] by (cases "timespec_of ?iv") auto
    then show ?thesis using True first by simp
  next
    case False
    then have "addTimerEvent timeout clock e s = ?s1"
      unfolding addTimerEvent_def Let_def assms(4) [symmetric] using False by (simp only: if_False)
    then have "armed (addTimerEvent timeout clock e s) = armed s" by simp
    then show ?thesis using False unfolding first by (simp only: if_False)
  qed
qed

lemma addTimerEvent_arms_witness:
  "let s = sample_timer\<lparr>store := (store sample_timer)(2 := \<lparr>arrive_time = 3, interval = 0,
      is_repeated = False, is_cancled = False, ev_task = None\<rparr>)\<rparr> in
    if \<forall>e' \<in> pending s. 3 < arrive_time (store s e')
    then \<exists>sec ns. armed (addTimerEvent 30000 int 2 s) = Some (sec, ns)
      \<and> sec * 1000000000 + ns = (if 7 < (3 :: int) then 3 - 7 else 30000) * 1000000
    else armed (addTimerEvent 30000 int 2 s) = armed s"
  unfolding Let_def
  by (rule addTimerEvent_arms) (simp_all add: sample_timer_def timer_wf_def)

section \<open>The timer is armed while events are pending\<close>

text \<open>
  What the users of a timer do: they create an event and add it, cancel one, delete one; and the
  kernel's timer, which fires once for each setting, expires.
\<close>

datatype 't timer_op = Add_new int bool "'t option" | Cancel nat | Delete nat | Expire

fun timer_act :: "int \<Rightarrow> (nat \<Rightarrow> int) \<Rightarrow> 't timer_op \<Rightarrow> 't time_q \<Rightarrow> 't time_q" where
  "timer_act timeout clock (Add_new iv rep cb) s = (let (e, s) = TimeEvent_new clock iv rep cb s
    in addTimerEvent timeout clock e s)"
| "timer_act timeout clock (Cancel e) s = setCancled e True s"
| "timer_act timeout clock (Delete e) s = deleteTimerEvent e s"
| "timer_act timeout clock Expire s = snd (onTime timeout clock (s\<lparr>armed := None\<rparr>))"

definition timer_live :: "'t time_q \<Rightarrow> bool" where
  "timer_live s \<longleftrightarrow> timer_wf s \<and> (\<forall>e \<in> pending s. e < next_event s)
    \<and> (pending s \<noteq> {} \<longrightarrow> (\<exists>v. armed s = Some v \<and> v \<noteq> (0, 0)))"

lemma timespec_of_pos: "0 < ms \<Longrightarrow> timespec_of ms \<noteq> (0, 0)"
  using timespec_of_nonneg(1) [of ms] by (cases "timespec_of ms") auto

lemma resetArriveTime_arms:
  assumes "0 < timeout" "pending s \<noteq> {}"
  shows "\<exists>v. armed (Time_resetArriveTime timeout clock s) = Some v \<and> v \<noteq> (0, 0)"
proof -
  obtain k e ps where ps: "pending_events s = (k, e) # ps" using assms(2) by (cases "pending_events s") (auto simp: pending_def)
  let ?now = "clock (clk s)" and ?t = "arrive_time (store s e)"
  let ?iv = "if ?t > ?now then ?t - ?now else timeout"
  have pos: "0 < ?iv" using assms(1) by simp
  have "Time_resetArriveTime timeout clock s = timerfd_settime (timespec_of ?iv) (s\<lparr>clk := Suc (clk s)\<rparr>)"
    by (simp add: Time_resetArriveTime_def ps gettimeofday_def Let_def)
  then have "armed (Time_resetArriveTime timeout clock s) = Some (timespec_of ?iv)"
    using timespec_of_nonneg [of ?iv] pos by (simp add: timerfd_settime_def)
  then show ?thesis using timespec_of_pos [OF pos] by blast
qed

lemma addTimerEvent_arm:
  assumes "0 < timeout" "pending s \<noteq> {} \<longrightarrow> (\<exists>v. armed s = Some v \<and> v \<noteq> (0, 0))"
  shows "\<exists>v. armed (addTimerEvent timeout clock e s) = Some v \<and> v \<noteq> (0, 0)"
proof -
  let ?s = "s\<lparr>pending_events := emplace (arrive_time (store s e)) e (pending_events s)\<rparr>"
  have "pending ?s \<noteq> {}" by (simp add: pending_def)
  from resetArriveTime_arms [OF assms(1) this, of clock] assms(2) show ?thesis
    by (auto simp: addTimerEvent_def pending_def Let_def split: list.splits)
qed

lemma timer_next [simp]:
  "next_event (addTimerEvent timeout clock e s) = next_event s"
  "next_event (resetEvent clock e s) = next_event s"
  by (auto simp: addTimerEvent_def resetEvent_def gettimeofday_def Let_def)

lemma readd_next [simp]: "next_event (readd timeout clock es s) = next_event s"
  by (induction es arbitrary: s) auto

lemma onTime_live:
  assumes "0 < timeout" "mono clock" "timer_wf s" "\<forall>e \<in> pending s. e < next_event s"
  shows "timer_live (snd (onTime timeout clock s))"
proof -
  obtain ts s' where r: "onTime timeout clock s = (ts, s')" by fastforce
  note e = onTime_effect [OF assms(3,2) r refl]
  obtain s3 where s3: "s' = Time_resetArriveTime timeout clock s3" "next_event s3 = next_event s"
    using r by (auto simp: onTime_def gettimeofday_def Let_def)
  have "pending s3 = pending s'" using s3(1) by (simp add: pending_def)
  then have "pending s' \<noteq> {} \<longrightarrow> (\<exists>v. armed s' = Some v \<and> v \<noteq> (0, 0))"
    using resetArriveTime_arms [OF assms(1), of s3 clock] s3(1) by simp
  moreover have "next_event s' = next_event s" using s3 by simp
  moreover have "pending s' \<subseteq> pending s" using e by blast
  ultimately show ?thesis using e assms(4) r by (auto simp: timer_live_def)
qed

lemma timer_act_live:
  assumes "0 < timeout" "mono clock" "timer_live s"
  shows "timer_live (timer_act timeout clock a s)"
proof (cases a)
  case (Add_new iv rep cb)
  obtain e s1 where n: "TimeEvent_new clock iv rep cb s = (e, s1)" by fastforce
  have e: "e = next_event s" "next_event s1 = Suc (next_event s)" "pending s1 = pending s" "armed s1 = armed s"
    "e' \<noteq> e \<Longrightarrow> store s1 e' = store s e'" "pending_events s1 = pending_events s" for e'
    using n by (auto simp: TimeEvent_new_def Let_def pending_def resetEvent_def gettimeofday_def)
  have ne: "e \<notin> pending s1" using assms(3) e(1,3) by (auto simp: timer_live_def)
  have "timer_wf s1" by (rule timer_wf_store [of s]) (use assms(3) e ne in \<open>auto simp: timer_live_def\<close>)
  from addTimerEvent_wf [OF this ne, of timeout clock] have
    w: "timer_wf (addTimerEvent timeout clock e s1)" "pending (addTimerEvent timeout clock e s1) = insert e (pending s)"
    by (simp_all add: e(3))
  have "\<exists>v. armed (addTimerEvent timeout clock e s1) = Some v \<and> v \<noteq> (0, 0)"
    by (rule addTimerEvent_arm [OF assms(1)]) (use assms(3) e in \<open>simp add: timer_live_def\<close>)
  moreover have "next_event (addTimerEvent timeout clock e s1) = Suc (next_event s)" using e(2) by simp
  ultimately show ?thesis using w assms(3) e(1) by (auto simp: Add_new n timer_live_def less_Suc_eq)
next
  case (Cancel e)
  have "timer_wf (setCancled e True s)"
    by (rule timer_wf_store [of s]) (use assms(3) in \<open>auto simp: timer_live_def setCancled_def\<close>)
  then show ?thesis using assms(3) by (simp add: Cancel timer_live_def setCancled_def pending_def)
next
  case (Delete e)
  have "next_event (deleteTimerEvent e s) = next_event s" "armed (deleteTimerEvent e s) = armed s"
    by (simp_all add: deleteTimerEvent_def setCancled_def Let_def)
  then show ?thesis using deleteTimerEvent_effect [of s e] assms(3) by (auto simp: Delete timer_live_def)
next
  case Expire
  show ?thesis unfolding Expire timer_act.simps
    by (rule onTime_live [OF assms(1,2)]) (use assms(3) in \<open>auto simp: timer_live_def timer_wf_def pending_def\<close>)
qed

text \<open>C20.
  The timer of an event loop stays well-formed and alive. For every sequence of additions,
  cancellations, deletions and expirations, with a clock that does not run backwards and a
  positive default time-out, the multimap is sorted, holds each event once under its own
  arrival time, and whenever an event is pending the kernel's timer is running: no event is
  stranded, although a deletion and an event that is not the earliest do not touch the timer.
\<close>

theorem timer_never_stranded:
  assumes "0 < timeout" "mono clock" "pending_events s = []"
  shows "timer_wf (fold (timer_act timeout clock) ops s)
    \<and> (pending (fold (timer_act timeout clock) ops s) \<noteq> {}
      \<longrightarrow> (\<exists>sec ns. armed (fold (timer_act timeout clock) ops s) = Some (sec, ns) \<and> (sec, ns) \<noteq> (0, 0)))"
proof -
  have "timer_live s" using assms(3) by (simp add: timer_live_def timer_wf_def pending_def)
  then have "timer_live (fold (timer_act timeout clock) ops s)"
    by (induction ops arbitrary: s) (use timer_act_live [OF assms(1,2)] in auto)
  then show ?thesis by (auto simp: timer_live_def)
qed

lemma timer_never_stranded_witness:
  "let s = fold (timer_act 30000 int) [Add_new 5 True (Some 1), Add_new 3 False (Some 2), Expire, Delete 1]
      (sample_timer\<lparr>pending_events := []\<rparr>)
    in timer_wf s \<and> (pending s = {} \<or> (\<exists>sec ns. armed s = Some (sec, ns) \<and> (sec, ns) \<noteq> (0, 0)))"
proof -
  have "(0 :: int) < 30000" "mono int" "pending_events (sample_timer\<lparr>pending_events := []\<rparr>) = []"
    by (simp_all add: mono_def)
  from timer_never_stranded [OF this, of "[Add_new 5 True (Some 1), Add_new 3 False (Some 2), Expire, Delete 1]"]
  show ?thesis unfolding Let_def by blast
qed

end
