(* ===== verification/Threads.thy ===== *)
theory Threads
  imports TcpClient TcpServer TimerQueue
begin

text \<open>
  Which threads run what: the group of event loops (\<open>src/net/EventLoopGroup.h\<close>), whose loops
  are tasks of the thread pool, the client's heartbeat loop, which is another one
  (the constructor in \<open>src/net/TcpClient.cpp\<close>), and the server's start and stop
  (\<open>src/net/TcpServer.cpp\<close>).
\<close>

datatype pool_task = Heartbeat_loop | Io_loop nat | Handle_requests "tinypb list"

section \<open>The event loop group\<close>

text \<open>
  A loop of the group: the loop and its timer. The constructor makes one per I/O thread and
  adds its \<open>run\<close> to the pool.
\<close>

record ('cb, 't, 'u, 'e) group_loop =
  gl_loop :: "('cb, 't, 'u) el"
  gl_timer :: "'e time_q"

fun group_loops :: "nat \<Rightarrow> nat \<Rightarrow> ('cb, 't, 'u, 'e) group_loop \<Rightarrow> pool_task pool
    \<Rightarrow> ('cb, 't, 'u, 'e) group_loop list \<times> pool_task pool" where
  "group_loops i 0 new pool = ([], pool)"
| "group_loops i (Suc n) new pool = (let (ls, pool) = group_loops (Suc i) n new (addtask (Io_loop i) pool) in (new # ls, pool))"

definition EventLoopGroup_new :: "cconfig \<Rightarrow> ('cb, 't, 'u, 'e) group_loop \<Rightarrow> pool_task pool
    \<Rightarrow> ('cb, 't, 'u, 'e) group_loop list \<times> pool_task pool" where
  "EventLoopGroup_new cfg new pool = group_loops 0 (nat (cfg_ioThread cfg)) new pool"

definition stopLoop :: "('cb, 't, 'u, 'e) group_loop list \<Rightarrow> ('cb, 't, 'u, 'e) group_loop list" where
  "stopLoop ls = map (\<lambda>l. l\<lparr>gl_loop := EventLoop_stop (gl_loop l)\<rparr>) ls"

section \<open>The client's heartbeat loop\<close>

definition TcpClient_new :: "cconfig \<Rightarrow> (nat \<Rightarrow> int) \<Rightarrow> 'e \<Rightarrow> ('cb, 't, 'u, 'e) group_loop \<Rightarrow> pool_task pool
    \<Rightarrow> ('cb, 't, 'u, 'e) group_loop \<times> pool_task pool" where
  "TcpClient_new cfg clock heartbeat new pool = (
    let (ev, q) = TimeEvent_new clock (cfg_timeout cfg) True (Some heartbeat) (gl_timer new);
        q = addTimerEvent (cfg_timeout cfg) clock ev q
    in (new\<lparr>gl_timer := q\<rparr>, addtask Heartbeat_loop pool))"

definition TcpClient_stopLoop :: "('cb, 't, 'u, 'e) group_loop \<Rightarrow> ('cb, 't, 'u, 'e) group_loop" where
  "TcpClient_stopLoop l = l\<lparr>gl_loop := EventLoop_stop (gl_loop l)\<rparr>"

section \<open>The server's loops\<close>

record ('cb, 't, 'u, 'e) server_loops =
  mainloop :: "('cb, 't, 'u, 'e) group_loop"
  io_loops :: "('cb, 't, 'u, 'e) group_loop list"
  sv_pool :: "pool_task pool"

text \<open>
  The constructor, after the group exists: the callback for \<open>epoll_wait\<close> time-outs on every
  loop (which \<open>getEventLoop(i)\<close> finds by index) and the repeated timer of the main loop
  that checks for idle clients.
\<close>

definition TcpServer_new :: "cconfig \<Rightarrow> (nat \<Rightarrow> int) \<Rightarrow> 'cb \<Rightarrow> 'e
    \<Rightarrow> ('cb, 't, 'u, 'e) server_loops \<Rightarrow> ('cb, 't, 'u, 'e) server_loops" where
  "TcpServer_new cfg clock epollTimeout clear s = (
    let cb = (\<lambda>l. l\<lparr>gl_loop := setepollTimeoutCallback (Some epollTimeout) (gl_loop l)\<rparr>);
        main = cb (mainloop s);
        (ev, q) = TimeEvent_new clock (cfg_timeout cfg) True (Some clear) (gl_timer main);
        q = addTimerEvent (cfg_timeout cfg) clock ev q
    in s\<lparr>mainloop := main\<lparr>gl_timer := q\<rparr>, io_loops := map cb (io_loops s)\<rparr>)"

definition TcpServer_stop :: "('cb, 't, 'u, 'e) server_loops \<Rightarrow> ('cb, 't, 'u, 'e) server_loops" where
  "TcpServer_stop s = s\<lparr>mainloop := (mainloop s)\<lparr>gl_loop := EventLoop_stop (gl_loop (mainloop s))\<rparr>,
    io_loops := stopLoop (io_loops s), sv_pool := ThreadPool_stop (sv_pool s)\<rparr>"

section \<open>The loops as tasks\<close>

lemma group_loops_tasks:
  "length (fst (group_loops i n new p)) = n
    \<and> added (snd (group_loops i n new p)) = added p @ map Io_loop [i..<i + n]
    \<and> workers (snd (group_loops i n new p)) = workers p"
proof (induction n arbitrary: i p)
  case (Suc n)
  have "[i..<i + Suc n] = i # [Suc i..<Suc i + n]" by (simp add: upt_conv_Cons)
  then show ?case using Suc [of "Suc i" "addtask (Io_loop i) p"]
    by (simp add: split_beta Let_def addtask_def)
qed simp

text \<open>The tasks of a client, in the order in which \<open>CallMethod\<close> creates them: first the
  \<open>TcpClient\<close> with its heartbeat, then the group.\<close>

definition client_loops :: "cconfig \<Rightarrow> pool_task list" where
  "client_loops cfg = Heartbeat_loop # map Io_loop [0..<nat (cfg_ioThread cfg)]"

lemma client_loops_added:
  "added (snd (EventLoopGroup_new cfg new (snd (TcpClient_new cfg clock hb new' (ThreadPool_new n))))) = client_loops cfg"
  using group_loops_tasks [of 0 "nat (cfg_ioThread cfg)" new "snd (TcpClient_new cfg clock hb new' (ThreadPool_new n))"]
  by (simp add: EventLoopGroup_new_def client_loops_def TcpClient_new_def Let_def split_beta addtask_def ThreadPool_new_def)

text \<open>Runs of the pool in which no task ends: event loops run until they are stopped.\<close>

fun endless_run :: "'t pool_label list \<Rightarrow> 't pool \<Rightarrow> 't pool \<Rightarrow> bool" where
  "endless_run [] s s' \<longleftrightarrow> s' = s"
| "endless_run (l # ls) s s' \<longleftrightarrow> (\<exists>s1. pool_step l s s1 \<and> (\<forall>i t. l = Work i \<longrightarrow> workers s ! i \<noteq> Running t)
    \<and> endless_run ls s1 s')"

definition running :: "'t worker \<Rightarrow> bool" where
  "running w \<longleftrightarrow> (\<exists>t. w = Running t)"

lemma running_simps [simp]: "running (Running t)" "\<not> running Top" "\<not> running Locking" "\<not> running Holding"
  "\<not> running Sleepy" "\<not> running Asleep" "\<not> running Exited" "running (wake w) = running w"
  by (auto simp: running_def wake_def split: worker.splits)

lemma count_update:
  assumes "i < length ws"
  shows "length (filter running (ws[i := w])) + (if running (ws ! i) then 1 else 0)
    = length (filter running ws) + (if running w then 1 else 0)"
  using assms
proof (induction ws arbitrary: i)
  case (Cons x ws)
  then show ?case by (cases i) auto
qed simp

lemma running_wake: "running \<circ> wake = running"
  by (rule ext) simp

definition one_each :: "'t pool \<Rightarrow> bool" where
  "one_each s \<longleftrightarrow> length (started s) = length (filter running (workers s))"

lemma one_each_step:
  "pool_step l s s' \<Longrightarrow> (\<forall>i t. l = Work i \<longrightarrow> workers s ! i \<noteq> Running t) \<Longrightarrow> one_each s \<Longrightarrow> one_each s'"
proof (induction rule: pool_step.induct)
  case (step_signal s p)
  then show ?case using count_update [of "the p" "workers s" "wake (workers s ! the p)"]
    by (auto simp: one_each_def notify_one_def split: option.splits)
next
  case (step_work i s s')
  then have nr: "\<not> running (workers s ! i)" by (auto simp: running_def)
  note c = count_update [OF step_work(1)]
  show ?case using step_work(2,4) nr c
    by (auto simp: one_each_def worker_step_def split: worker.splits if_splits list.splits)
next
  case (step_spurious i s)
  then show ?case using count_update [of i "workers s" Locking] by (simp add: one_each_def)
qed (auto simp: one_each_def addtask_def ThreadPool_stop_def notify_all_def running_wake filter_map)

lemma endless_run_inv:
  assumes "endless_run ls s s'" "one_each s"
  shows "one_each s' \<and> pool_run ls s s'"
  using assms
proof (induction ls arbitrary: s)
  case (Cons l ls)
  then obtain s1 where s1: "pool_step l s s1" "\<forall>i t. l = Work i \<longrightarrow> workers s ! i \<noteq> Running t" "endless_run ls s1 s'" by auto
  from Cons.IH [OF s1(3) one_each_step [OF s1(1,2) Cons.prems(2)]] show ?case using s1(1) by auto
qed simp

lemma endless_starts:
  assumes "endless_run ls (ThreadPool_new n) s"
  shows "started s = take (length (started s)) (added s)" "length (started s) \<le> n"
proof -
  have "one_each (ThreadPool_new n :: 'a pool)" by (simp add: one_each_def ThreadPool_new_def)
  from endless_run_inv [OF assms this] have o: "one_each s" and r: "pool_run ls (ThreadPool_new n) s" by auto
  have "started s @ pool_tasks s = added s" using pool_run_invs(1) [OF r] by (simp add: pool_inv_def)
  then show "started s = take (length (started s)) (added s)" by (metis append_eq_conv_conj)
  have "length (workers s) = n" using pool_run_invs(2) [OF r] by simp
  then show "length (started s) \<le> n" using o length_filter_le [of running "workers s"] by (simp add: one_each_def)
qed



end
