(* ===== verification/RpcChannel.thy ===== *)
theory RpcChannel
  imports TcpClient Controller ErrorCode TimerQueue
begin

text \<open>
  The client side of a call, \<open>src/rpc/rpc_channel.cpp\<close>: \<open>CallMethod\<close> and the three callbacks
  it creates, for the time-out, for the moment the request is sent and for the reply. The
  objects of a call (controllers, channels with their messages and closures, the timers of
  the event loops) are shared, so they are the environment of the client's connections, an
  extension of the client's table. Protobuf's serialization and parsing are functions of
  the model; \<open>runs\<close> records which channel's closure was run, and what it called.
\<close>

section \<open>State\<close>

text \<open>The request and the response are null (\<open>None\<close>) until \<open>init\<close>.\<close>

record ('q, 'r, 'f) rpc_channel =
  ch_controller :: "nat option"
  ch_request :: "'q option"
  ch_response :: "'r option"
  ch_closure :: "'f rpc_closure option"
  ch_timer :: "(nat \<times> nat) option"
  ch_init :: bool

record ('q, 'r, 'f) rpc_env = client_shared +
  controllers :: "nat \<Rightarrow> rpc_controller"
  channels :: "nat \<Rightarrow> ('q, 'r, 'f) rpc_channel"
  timers :: "nat \<Rightarrow> (nat \<times> nat) time_q"
  runs :: "(nat \<times> 'f list) list"

datatype call_done = On_sent nat nat | On_reply nat nat

type_synonym ('q, 'r, 'f) env_more = "('q, 'r, 'f, unit) rpc_env_ext"
type_synonym ('q, 'r, 'f, 'k) rpc_conn = "(call_done, 'k, ('q, 'r, 'f) env_more) client_conn"

record ('q, 'r, 'k) rpc_sys =
  sys_inet :: "string \<Rightarrow> 32 word"
  sys_cfg :: cconfig
  sys_epoll :: "'k epoll_ctl"
  sys_clock :: "nat \<Rightarrow> int"
  sys_serialize :: "'q \<Rightarrow> bool \<times> string"
  sys_parse :: "string \<Rightarrow> bool \<times> 'r"

definition RpcChannel_new :: "('q, 'r, 'f) rpc_channel" where
  "RpcChannel_new = \<lparr>ch_controller = None, ch_request = None, ch_response = None, ch_closure = None,
    ch_timer = None, ch_init = False\<rparr>"

definition channel_init :: "nat option \<Rightarrow> 'q option \<Rightarrow> 'r option \<Rightarrow> 'f rpc_closure option
    \<Rightarrow> ('q, 'r, 'f) rpc_channel \<Rightarrow> ('q, 'r, 'f) rpc_channel" where
  "channel_init controller req rsp cl ch = (if ch_init ch then ch
    else ch\<lparr>ch_controller := controller, ch_request := req, ch_response := rsp, ch_closure := cl, ch_init := True\<rparr>)"

definition on_controller :: "nat \<Rightarrow> (rpc_controller \<Rightarrow> rpc_controller) \<Rightarrow> ('q, 'r, 'f) rpc_env \<Rightarrow> ('q, 'r, 'f) rpc_env" where
  "on_controller mc f e = e\<lparr>controllers := (controllers e)(mc := f (controllers e mc))\<rparr>"

definition on_rpc_channel :: "nat \<Rightarrow> (('q, 'r, 'f) rpc_channel \<Rightarrow> ('q, 'r, 'f) rpc_channel)
    \<Rightarrow> ('q, 'r, 'f) rpc_env \<Rightarrow> ('q, 'r, 'f) rpc_env" where
  "on_rpc_channel ch f e = e\<lparr>channels := (channels e)(ch := f (channels e ch))\<rparr>"

definition on_timers :: "nat \<Rightarrow> ((nat \<times> nat) time_q \<Rightarrow> (nat \<times> nat) time_q) \<Rightarrow> ('q, 'r, 'f) rpc_env \<Rightarrow> ('q, 'r, 'f) rpc_env" where
  "on_timers loop f e = e\<lparr>timers := (timers e)(loop := f (timers e loop))\<rparr>"

text \<open>\<open>closure_->Run()\<close>, if there is a closure.\<close>

definition run_closure :: "nat \<Rightarrow> ('q, 'r, 'f) rpc_env \<Rightarrow> ('q, 'r, 'f) rpc_env" where
  "run_closure ch e = (case ch_closure (channels e ch) of None \<Rightarrow> e
    | Some cl \<Rightarrow> e\<lparr>runs := runs e @ [(ch, Run cl)]\<rparr>)"

section \<open>The callbacks of a call\<close>

definition on_timeout :: "nat \<times> nat \<Rightarrow> ('q, 'r, 'f) rpc_env \<Rightarrow> ('q, 'r, 'f) rpc_env" where
  "on_timeout = (\<lambda>(ch, mc) e. run_closure ch (on_controller mc (\<lambda>c. let c = StartCancel c in
    SetError ERROR_RPC_CALL_TIMEOUT (''rpc call timeout '' @ to_string (GetTimeOut c)) c) e))"

definition on_reply :: "(string \<Rightarrow> bool \<times> 'r) \<Rightarrow> nat \<Rightarrow> nat \<Rightarrow> tinypb \<Rightarrow> ('q, 'r, 'f) rpc_env \<Rightarrow> ('q, 'r, 'f) rpc_env res" where
  "on_reply parse ch mc rsp e = (case ch_timer (channels e ch) of
      None \<Rightarrow> Inl Null_deref
    | Some (loop, ev) \<Rightarrow>
      let e = on_timers loop (setCancled ev True) e in
      if ch_response (channels e ch) = None then Inl Null_deref
      else
        let (ok, r) = parse (pb_data rsp);
            e = on_rpc_channel ch (\<lambda>c. c\<lparr>ch_response := Some r\<rparr>) e in
        if \<not> ok then Inr (on_controller mc (SetError ERROR_FAILED_SERIALIZE ''deserialize error'') e)
        else
          let e = (if error_code rsp \<noteq> 0
            then on_controller mc (SetError (sint (error_code rsp)) (getErrorInfo (sint (error_code rsp)))) e else e) in
          (case ch_controller (channels e ch) of
            None \<Rightarrow> Inl Null_deref
          | Some cc \<Rightarrow> Inr (if \<not> IsCanceled (controllers e cc) then run_closure ch e else e)))"

fun call_exec :: "('q, 'r, 'k) rpc_sys \<Rightarrow> call_done \<Rightarrow> tinypb \<Rightarrow> ('q, 'r, 'f, 'k) rpc_conn
    \<Rightarrow> ('q, 'r, 'f, 'k) rpc_conn res" where
  "call_exec sys (On_sent ch mc) m c =
    bindR (pushReadMessage (msg_id m) (Call_done (On_reply ch mc)) c) (conn_enableReading (sys_epoll sys))"
| "call_exec sys (On_reply ch mc) m c =
    bindR (on_reply (sys_parse sys) ch mc m (c_env c)) (\<lambda>e. Inr (c\<lparr>c_env := e\<rparr>))"

abbreviation rpc_exec :: "('q, 'r, 'k) rpc_sys \<Rightarrow> call_done client_done \<Rightarrow> tinypb \<Rightarrow> ('q, 'r, 'f, 'k) rpc_conn
    \<Rightarrow> ('q, 'r, 'f, 'k) rpc_conn res" where
  "rpc_exec sys \<equiv> client_exec (call_exec sys)"

section \<open>CallMethod\<close>

text \<open>The end of \<open>CallMethod\<close>: the timer, the registration of the request, the write event.\<close>

definition issue_call :: "('q, 'r, 'k) rpc_sys \<Rightarrow> nat \<Rightarrow> nat \<Rightarrow> nat \<Rightarrow> tinypb \<Rightarrow> ('q, 'r, 'f, 'k) rpc_conn
    \<Rightarrow> ('q, 'r, 'f, 'k) rpc_conn res" where
  "issue_call sys loop ch mc req c = (
    let e = c_env c;
        (ev, tq) = TimeEvent_new (sys_clock sys) (GetTimeOut (controllers e mc)) False (Some (ch, mc)) (timers e loop);
        e = on_rpc_channel ch (\<lambda>x. x\<lparr>ch_timer := Some (loop, ev)\<rparr>) e;
        e = on_timers loop (\<lambda>_. addTimerEvent (cfg_timeout (sys_cfg sys)) (sys_clock sys) ev tq) e in
    bindR (pushSendMessage req (Call_done (On_sent ch mc)) (c\<lparr>c_env := e\<rparr>)) (conn_enableWriting (sys_epoll sys)))"

definition with_env :: "(('q, 'r, 'f) rpc_env \<Rightarrow> ('q, 'r, 'f) rpc_env)
    \<Rightarrow> (call_done, 'k, ('q, 'r, 'f) env_more) tcp_client \<Rightarrow> (call_done, 'k, ('q, 'r, 'f) env_more) tcp_client" where
  "with_env f s = s\<lparr>client_env := f (client_env s)\<rparr>"

text \<open>
  \<open>CallMethod\<close> on channel \<open>ch\<close>. \<open>controller\<close> is \<open>None\<close> if it is no \<open>RpcController\<close>; \<open>dis\<close>, \<open>fd\<close>
  and \<open>connect\<close> are the answers the identifiers and the connection need.
\<close>

definition CallMethod_channel :: "('q, 'r, 'k) rpc_sys \<Rightarrow> nat list \<Rightarrow> int \<Rightarrow> (inter_address \<Rightarrow> connect_answer)
    \<Rightarrow> 'k \<Rightarrow> string \<Rightarrow> nat option \<Rightarrow> 'q \<Rightarrow> nat
    \<Rightarrow> msg_id_util \<times> rpc_server_list \<times> (call_done, 'k, ('q, 'r, 'f) env_more) tcp_client
    \<Rightarrow> (msg_id_util \<times> rpc_server_list \<times> (call_done, 'k, ('q, 'r, 'f) env_more) tcp_client) res" where
  "CallMethod_channel sys dis fd connect k full_name controller request ch = (\<lambda>(ids, l, s).
    case controller of None \<Rightarrow> Inr (ids, l, s)
    | Some mc \<Rightarrow>
      bindR (GetMsgId dis ids) (\<lambda>(mid, ids).
      let s = with_env (on_controller mc (SetMsgId mid)) s;
          req = TinyPB_new\<lparr>msg_id := mid, method_name := full_name\<rparr>;
          server_method = takeWhile (\<lambda>c. c \<noteq> CHR ''.'') full_name in
      bindR (getConnection (sys_inet sys) (sys_cfg sys) fd connect k server_method (s, l)) (\<lambda>(peer, s, l).
      case peer of
        None \<Rightarrow> Inr (ids, l, with_env (on_controller mc (SetError ERROR_FAILED_CONNECT (getErrorInfo ERROR_FAILED_CONNECT))) s)
      | Some i \<Rightarrow>
        if \<not> ch_init (channels (client_env s) ch)
        then Inr (ids, l, with_env (on_controller mc (SetError ERROR_RPC_CHANNEL_INIT ''RpcChannel not init'')) s)
        else
          let (ok, data) = sys_serialize sys request; req = req\<lparr>pb_data := data\<rparr> in
          if \<not> ok
          then Inr (ids, l, with_env (on_controller mc (SetError ERROR_FAILED_SERIALIZE ''failed to serialize'')) s)
          else bindR (on_conn i (issue_call sys (conn_loop s i) ch mc req) s) (\<lambda>s. Inr (ids, l, s)))))"

section \<open>Runs of a connection\<close>

text \<open>The timer of a loop fires: the callbacks \<open>onTime\<close> returns are run in order.\<close>

definition timers_fire :: "('q, 'r, 'k) rpc_sys \<Rightarrow> nat \<Rightarrow> ('q, 'r, 'f) rpc_env \<Rightarrow> ('q, 'r, 'f) rpc_env" where
  "timers_fire sys loop e = (let (tasks, tq) = onTime (cfg_timeout (sys_cfg sys)) (sys_clock sys) (timers e loop)
    in fold on_timeout tasks (on_timers loop (\<lambda>_. tq) e))"

text \<open>
  What happens to the calls of one connection: a call is made on a channel (each channel is
  initialised with the call's controller and used for one call), the pending requests are
  sent, a package arrives, the timer of a loop fires, and the heartbeat queues a package,
  withdraws its registration or ages an entry.
\<close>

datatype call_event = Issue nat nat nat tinypb | Flush | Reply tinypb | Fire nat
  | Ping tinypb string nat | Unping string | Age string

definition fresh_channel :: "nat \<Rightarrow> nat \<Rightarrow> ('q, 'r, 'f) rpc_env \<Rightarrow> bool" where
  "fresh_channel ch mc e \<longleftrightarrow> ch_init (channels e ch) \<and> ch_controller (channels e ch) = Some mc
    \<and> ch_timer (channels e ch) = None"

fun call_act :: "('q, 'r, 'k) rpc_sys \<Rightarrow> call_event \<Rightarrow> ('q, 'r, 'f, 'k) rpc_conn \<Rightarrow> ('q, 'r, 'f, 'k) rpc_conn res" where
  "call_act sys (Issue loop ch mc req) c =
    (if fresh_channel ch mc (c_env c) then issue_call sys loop ch mc req c else Inr c)"
| "call_act sys Flush c = flush_requests (rpc_exec sys) c"
| "call_act sys (Reply pkg) c = reply_step (rpc_exec sys) pkg c"
| "call_act sys (Fire loop) c = Inr (c\<lparr>c_env := timers_fire sys loop (c_env c)\<rparr>)"
| "call_act sys (Ping m name i) c = pushSendMessage m (Send_keepalive name i) c"
| "call_act sys (Unping mid) c = popReadMessage mid c"
| "call_act sys (Age name) c = Inr (c\<lparr>c_env := age name (c_env c)\<rparr>)"

section \<open>When a closure can still run\<close>

fun sent_of :: "call_done client_done \<Rightarrow> nat option" where
  "sent_of (Call_done (On_sent ch mc)) = Some ch"
| "sent_of _ = None"

fun reply_of :: "call_done client_done \<Rightarrow> nat option" where
  "reply_of (Call_done (On_reply ch mc)) = Some ch"
| "reply_of _ = None"

fun is_send :: "call_done client_done \<Rightarrow> bool" where
  "is_send (Call_done (On_sent ch mc)) = True"
| "is_send (Send_keepalive n i) = True"
| "is_send _ = False"

type_synonym writes = "(tinypb \<times> call_done client_done) list"
type_synonym reads = "string \<rightharpoonup> call_done client_done"

definition to_send :: "writes \<Rightarrow> nat \<Rightarrow> bool" where
  "to_send ws ch \<longleftrightarrow> (\<exists>p \<in> set ws. sent_of (snd p) = Some ch)"

definition waits :: "reads \<Rightarrow> string \<Rightarrow> nat \<Rightarrow> bool" where
  "waits rd k ch \<longleftrightarrow> (\<exists>d. rd k = Some d \<and> reply_of d = Some ch)"

definition live :: "('q, 'r, 'f) rpc_env \<Rightarrow> nat \<Rightarrow> bool" where
  "live e ch \<longleftrightarrow> (\<exists>loop ev. ch_timer (channels e ch) = Some (loop, ev) \<and> ev \<in> pending (timers e loop)
    \<and> \<not> is_cancled (store (timers e loop) ev))"

definition canceled :: "('q, 'r, 'f) rpc_env \<Rightarrow> nat \<Rightarrow> bool" where
  "canceled e ch \<longleftrightarrow> (\<exists>cc. ch_controller (channels e ch) = Some cc \<and> is_cancle (controllers e cc))"

definition can_run :: "writes \<Rightarrow> reads \<Rightarrow> (nat \<times> nat) list \<Rightarrow> ('q, 'r, 'f) rpc_env \<Rightarrow> nat \<Rightarrow> bool" where
  "can_run ws rd ts e ch \<longleftrightarrow> (to_send ws ch \<or> (\<exists>k. waits rd k ch)) \<and> \<not> canceled e ch \<or> live e ch
    \<or> ch \<in> fst ` set ts"

definition nruns :: "('q, 'r, 'f) rpc_env \<Rightarrow> nat \<Rightarrow> nat" where
  "nruns e ch = length (filter (\<lambda>p. fst p = ch) (runs e))"

definition timers_ok :: "('q, 'r, 'f) rpc_env \<Rightarrow> bool" where
  "timers_ok e \<longleftrightarrow> (\<forall>loop. timer_wf (timers e loop)
      \<and> (\<forall>ev \<in> pending (timers e loop). \<not> is_repeated (store (timers e loop) ev) \<and> (\<exists>ch mc.
          ev_task (store (timers e loop) ev) = Some (ch, mc) \<and> ch_timer (channels e ch) = Some (loop, ev)
          \<and> ch_controller (channels e ch) = Some mc)))
    \<and> (\<forall>ch loop ev. ch_timer (channels e ch) = Some (loop, ev) \<longrightarrow> ev < next_event (timers e loop))
    \<and> (\<forall>ch ch' t. ch_timer (channels e ch) = Some t \<longrightarrow> ch_timer (channels e ch') = Some t \<longrightarrow> ch = ch')"

definition chan_ok :: "writes \<Rightarrow> reads \<Rightarrow> (nat \<times> nat) list \<Rightarrow> ('q, 'r, 'f) rpc_env \<Rightarrow> nat \<Rightarrow> bool" where
  "chan_ok ws rd ts e ch \<longleftrightarrow> length (filter (\<lambda>p. sent_of (snd p) = Some ch) ws) \<le> 1
    \<and> (\<forall>k k'. waits rd k ch \<longrightarrow> waits rd k' ch \<longrightarrow> k = k')
    \<and> (to_send ws ch \<longrightarrow> \<not> (\<exists>k. waits rd k ch))
    \<and> nruns e ch + (if can_run ws rd ts e ch then 1 else 0) \<le> 1
    \<and> (ch_timer (channels e ch) = None \<longrightarrow>
        \<not> to_send ws ch \<and> \<not> (\<exists>k. waits rd k ch) \<and> ch \<notin> fst ` set ts \<and> nruns e ch = 0)"

definition call_inv :: "writes \<Rightarrow> reads \<Rightarrow> (nat \<times> nat) list \<Rightarrow> ('q, 'r, 'f) rpc_env \<Rightarrow> bool" where
  "call_inv ws rd ts e \<longleftrightarrow> timers_ok e \<and> (\<forall>ch. chan_ok ws rd ts e ch)
    \<and> (\<forall>p \<in> set ws. is_send (snd p)) \<and> (\<forall>k d. rd k = Some d \<longrightarrow> \<not> is_send d)
    \<and> distinct (map fst ts) \<and> (\<forall>(ch, mc) \<in> set ts. \<not> live e ch \<and> ch_controller (channels e ch) = Some mc)"

text \<open>A channel whose call was made and whose closure cannot run any more stays so.\<close>

definition spent :: "writes \<Rightarrow> reads \<Rightarrow> (nat \<times> nat) list \<Rightarrow> ('q, 'r, 'f) rpc_env \<Rightarrow> nat \<Rightarrow> bool" where
  "spent ws rd ts e ch \<longleftrightarrow> ch_timer (channels e ch) \<noteq> None \<and> \<not> can_run ws rd ts e ch"

lemma to_send_Cons [simp]: "to_send (p # ws) ch \<longleftrightarrow> sent_of (snd p) = Some ch \<or> to_send ws ch"
  by (auto simp: to_send_def)

lemma to_send_Nil [simp]: "\<not> to_send [] ch"
  by (simp add: to_send_def)

lemma to_send_append [simp]: "to_send (ws @ vs) ch \<longleftrightarrow> to_send ws ch \<or> to_send vs ch"
  by (auto simp: to_send_def)

lemma to_send_filter: "filter (\<lambda>p. sent_of (snd p) = Some ch) ws = [] \<longleftrightarrow> \<not> to_send ws ch"
  by (auto simp: to_send_def filter_empty_conv)

lemma not_is_send: "\<not> is_send d \<Longrightarrow> (\<exists>n i. d = Reply_keepalive n i) \<or> (\<exists>ch mc. d = Call_done (On_reply ch mc))"
  by (cases d rule: is_send.cases) auto

lemma is_send: "is_send d \<Longrightarrow> (\<exists>n i. d = Send_keepalive n i) \<or> (\<exists>ch mc. d = Call_done (On_sent ch mc))"
  by (cases d rule: is_send.cases) auto

lemma sent_is_send: "sent_of d = Some ch \<Longrightarrow> is_send d" "reply_of d = Some ch \<Longrightarrow> \<not> is_send d"
  by (cases d rule: is_send.cases; simp)+

section \<open>What the steps do to it\<close>

text \<open>An environment in which everything that counts for the calls is as before.\<close>

definition same_calls :: "('q, 'r, 'f) rpc_env \<Rightarrow> ('q, 'r, 'f) rpc_env \<Rightarrow> bool" where
  "same_calls e e' \<longleftrightarrow> channels e' = channels e \<and> timers e' = timers e \<and> runs e' = runs e
    \<and> (\<forall>x. is_cancle (controllers e' x) = is_cancle (controllers e x))"

lemma same_calls_simps:
  assumes "same_calls e e'"
  shows "live e' = live e" "canceled e' = canceled e" "nruns e' = nruns e" "timers_ok e' = timers_ok e"
    "can_run ws rd ts e' = can_run ws rd ts e" "call_inv ws rd ts e' = call_inv ws rd ts e"
    "spent ws rd ts e' = spent ws rd ts e"
proof -
  show a: "live e' = live e" "canceled e' = canceled e" "nruns e' = nruns e"
    using assms by (auto simp: same_calls_def live_def canceled_def nruns_def fun_eq_iff)
  show t: "timers_ok e' = timers_ok e" using assms by (simp add: same_calls_def timers_ok_def)
  show c: "can_run ws rd ts e' = can_run ws rd ts e" for ws rd ts by (simp add: can_run_def fun_eq_iff a)
  have "chan_ok ws rd ts e' = chan_ok ws rd ts e" for ws rd ts
    using assms by (simp add: chan_ok_def fun_eq_iff a c same_calls_def)
  then show "call_inv ws rd ts e' = call_inv ws rd ts e"
    using assms by (simp add: call_inv_def t a same_calls_def)
  show "spent ws rd ts e' = spent ws rd ts e" using assms by (simp add: spent_def fun_eq_iff c same_calls_def)
qed

lemma call_invD:
  assumes "call_inv ws rd ts e"
  shows "timers_ok e" "chan_ok ws rd ts e ch" "p \<in> set ws \<Longrightarrow> is_send (snd p)" "rd k = Some d \<Longrightarrow> \<not> is_send d"
  using assms by (auto simp: call_inv_def)

text \<open>Fewer registrations keep a channel in order.\<close>

lemma chan_ok_fewer:
  assumes "chan_ok ws rd ts e x"
    "length (filter (\<lambda>p. sent_of (snd p) = Some x) ws') \<le> length (filter (\<lambda>p. sent_of (snd p) = Some x) ws)"
    "\<And>k. waits rd' k x \<Longrightarrow> waits rd k x" "x \<in> fst ` set ts' \<Longrightarrow> x \<in> fst ` set ts"
    "nruns e' x + (if can_run ws' rd' ts' e' x then 1 else 0) \<le> nruns e x + (if can_run ws rd ts e x then 1 else 0)"
    "ch_timer (channels e' x) = ch_timer (channels e x)"
    "ch_timer (channels e x) = None \<Longrightarrow> nruns e' x = nruns e x"
  shows "chan_ok ws' rd' ts' e' x"
proof -
  have ts: "to_send ws x" if "to_send ws' x"
  proof -
    have "0 < length (filter (\<lambda>p. sent_of (snd p) = Some x) ws')" using that to_send_filter [of x ws'] by simp
    then have "filter (\<lambda>p. sent_of (snd p) = Some x) ws \<noteq> []" using assms(2) by auto
    then show ?thesis using to_send_filter by blast
  qed
  have a: "length (filter (\<lambda>p. sent_of (snd p) = Some x) ws) \<le> 1"
    "\<And>k k'. waits rd k x \<Longrightarrow> waits rd k' x \<Longrightarrow> k = k'" "to_send ws x \<Longrightarrow> \<not> waits rd k x"
    "nruns e x + (if can_run ws rd ts e x then 1 else 0) \<le> 1"
    "ch_timer (channels e x) = None \<Longrightarrow> \<not> to_send ws x \<and> \<not> waits rd k x \<and> x \<notin> fst ` set ts \<and> nruns e x = 0" for k
    using assms(1) unfolding chan_ok_def by blast+
  show ?thesis unfolding chan_ok_def
  proof (intro conjI impI allI)
    show "length (filter (\<lambda>p. sent_of (snd p) = Some x) ws') \<le> 1" using a(1) assms(2) by linarith
    show "nruns e' x + (if can_run ws' rd' ts' e' x then 1 else 0) \<le> 1" using a(4) assms(5) by linarith
    show "k = k'" if "waits rd' k x" "waits rd' k' x" for k k' using that a(2) assms(3) by blast
    show "\<not> (\<exists>k. waits rd' k x)" if "to_send ws' x" using that ts a(3) assms(3) by blast
    assume "ch_timer (channels e' x) = None"
    then have n: "ch_timer (channels e x) = None" using assms(6) by simp
    show "\<not> to_send ws' x" "x \<notin> fst ` set ts'" "\<not> (\<exists>k. waits rd' k x)" "nruns e' x = 0"
      using a(5) [OF n] ts assms(3,4) assms(7) [OF n] by auto
  qed
qed

text \<open>A request is sent: its callback leaves the list and its registration, if the identifier is new, enters.\<close>

lemma inv_sent:
  assumes "call_inv ((m, d) # ws) rd ts e" "\<not> is_send d'" "reply_of d' = sent_of d"
    "rd' = (if rd k = None then rd(k \<mapsto> d') else rd)"
  shows "call_inv ws rd' ts e" "spent ((m, d) # ws) rd ts e x \<Longrightarrow> spent ws rd' ts e x"
proof -
  have w: "waits rd' j x \<longleftrightarrow> waits rd j x \<or> (rd k = None \<and> j = k \<and> sent_of d = Some x)" for j x
    using assms(3,4) by (auto simp: waits_def)
  have ok: "chan_ok ((m, d) # ws) rd ts e x" for x using assms(1) by (simp add: call_inv_def)
  have once: "\<not> to_send ws x" if "sent_of d = Some x" for x
    using ok [of x] that to_send_filter [of x ws] by (auto simp: chan_ok_def)
  have run: "can_run ws rd' ts e x \<Longrightarrow> can_run ((m, d) # ws) rd ts e x" for x
    using w by (auto simp: can_run_def)
  show "spent ((m, d) # ws) rd ts e x \<Longrightarrow> spent ws rd' ts e x" using run by (auto simp: spent_def)
  have "chan_ok ws rd' ts e x" for x
  proof (cases "sent_of d = Some x")
    case True
    then have "\<not> waits rd j x" for j using ok [of x] by (auto simp: chan_ok_def)
    moreover have "filter (\<lambda>p. sent_of (snd p) = Some x) ws = []" using once [OF True] to_send_filter by blast
    ultimately show ?thesis using ok [of x] run [of x] once [OF True] True w
      by (auto simp: chan_ok_def split: if_splits)
  next
    case False
    then show ?thesis using ok [of x] run [of x] w by (auto simp: chan_ok_def split: if_splits)
  qed
  then show "call_inv ws rd' ts e" using assms(1,2,4) by (auto simp: call_inv_def split: if_splits)
qed

text \<open>A registration is withdrawn.\<close>

lemma inv_forget:
  assumes "call_inv ws rd ts e"
  shows "call_inv ws (rd(k := None)) ts e" "spent ws rd ts e x \<Longrightarrow> spent ws (rd(k := None)) ts e x"
proof -
  have w: "waits (rd(k := None)) j x \<Longrightarrow> waits rd j x" for j x by (auto simp: waits_def split: if_splits)
  have run: "can_run ws (rd(k := None)) ts e x \<Longrightarrow> can_run ws rd ts e x" for x
    using w by (fastforce simp: can_run_def)
  show "spent ws rd ts e x \<Longrightarrow> spent ws (rd(k := None)) ts e x" using run by (auto simp: spent_def)
  have "chan_ok ws (rd(k := None)) ts e x" for x
    by (rule chan_ok_fewer [OF call_invD(2) [OF assms]]) (use w run [of x] in auto)
  then show "call_inv ws (rd(k := None)) ts e" using assms by (auto simp: call_inv_def)
qed

text \<open>The heartbeat queues a package.\<close>

lemma inv_ping:
  assumes "call_inv ws rd ts e" "is_send d" "sent_of d = None"
  shows "call_inv (ws @ [(m, d)]) rd ts e" "spent ws rd ts e x \<Longrightarrow> spent (ws @ [(m, d)]) rd ts e x"
proof -
  have run: "can_run (ws @ [(m, d)]) rd ts e x \<longleftrightarrow> can_run ws rd ts e x" for x
    using assms(3) by (simp add: can_run_def)
  show "spent ws rd ts e x \<Longrightarrow> spent (ws @ [(m, d)]) rd ts e x" by (simp add: spent_def run)
  have "chan_ok (ws @ [(m, d)]) rd ts e x" for x
    by (rule chan_ok_fewer [OF call_invD(2) [OF assms(1)]]) (use run assms(3) in auto)
  then show "call_inv (ws @ [(m, d)]) rd ts e" using assms(1,2) by (auto simp: call_inv_def)
qed

lemma nruns_append [simp]:
  "runs e' = runs e @ [(ch, fs)] \<Longrightarrow> nruns e' x = nruns e x + (if x = ch then 1 else 0)"
  by (simp add: nruns_def)

lemma controllers_on_controller:
  "(\<And>c. is_cancle (f c) = is_cancle c) \<Longrightarrow> is_cancle (controllers (on_controller mc f e) x) = is_cancle (controllers e x)"
  by (simp add: on_controller_def)

lemma on_controller_simps [simp]:
  "channels (on_controller mc f e) = channels e" "timers (on_controller mc f e) = timers e"
  "runs (on_controller mc f e) = runs e"
  by (simp_all add: on_controller_def)

lemma on_rpc_channel_simps [simp]:
  "controllers (on_rpc_channel ch f e) = controllers e" "timers (on_rpc_channel ch f e) = timers e"
  "runs (on_rpc_channel ch f e) = runs e" "channels (on_rpc_channel ch f e) = (channels e)(ch := f (channels e ch))"
  by (simp_all add: on_rpc_channel_def)

lemma on_timers_simps [simp]:
  "controllers (on_timers loop f e) = controllers e" "channels (on_timers loop f e) = channels e"
  "runs (on_timers loop f e) = runs e" "timers (on_timers loop f e) = (timers e)(loop := f (timers e loop))"
  by (simp_all add: on_timers_def)

lemma run_closure_simps [simp]:
  "controllers (run_closure ch e) = controllers e" "channels (run_closure ch e) = channels e"
  "timers (run_closure ch e) = timers e"
  by (simp_all add: run_closure_def split: option.splits)

lemma run_closure_runs:
  "runs (run_closure ch e) = runs e \<or> (\<exists>fs. runs (run_closure ch e) = runs e @ [(ch, fs)])"
  by (simp add: run_closure_def split: option.splits)

lemma SetError_cancle [simp]: "is_cancle (SetError code info c) = is_cancle c"
  by (simp add: controller_defs)

text \<open>What a reply changes: the timer is cancelled, and the closure runs at most once, and not if the call was cancelled.\<close>

lemma on_reply_effect:
  assumes "on_reply parse ch mc p e = Inr e'"
  obtains loop ev where "ch_timer (channels e ch) = Some (loop, ev)"
    "timers e' = (timers e)(loop := setCancled ev True (timers e loop))"
    "\<And>x. ch_timer (channels e' x) = ch_timer (channels e x)"
    "\<And>x. ch_controller (channels e' x) = ch_controller (channels e x)"
    "\<And>x. is_cancle (controllers e' x) = is_cancle (controllers e x)"
    "runs e' = runs e \<or> (\<exists>fs. runs e' = runs e @ [(ch, fs)]) \<and> \<not> canceled e ch \<and> fst (parse (pb_data p))"
proof -
  obtain loop ev where t: "ch_timer (channels e ch) = Some (loop, ev)"
    using assms by (auto simp: on_reply_def split: option.splits)
  define e1 where "e1 = on_rpc_channel ch (\<lambda>c. c\<lparr>ch_response := Some (snd (parse (pb_data p)))\<rparr>)
    (on_timers loop (setCancled ev True) e)"
  define e2 where "e2 = (if error_code p \<noteq> 0
    then on_controller mc (SetError (sint (error_code p)) (getErrorInfo (sint (error_code p)))) e1 else e1)"
  have e1: "timers e1 = (timers e)(loop := setCancled ev True (timers e loop))" "runs e1 = runs e"
    "controllers e1 = controllers e" "ch_timer (channels e1 x) = ch_timer (channels e x)"
    "ch_controller (channels e1 x) = ch_controller (channels e x)" for x
    by (simp_all add: e1_def)
  have e2: "timers e2 = timers e1" "runs e2 = runs e" "is_cancle (controllers e2 x) = is_cancle (controllers e x)"
    "channels e2 = channels e1" for x
    using e1 by (simp_all add: e2_def on_controller_def)
  show thesis
  proof (cases "fst (parse (pb_data p))")
    case False
    then have "e' = on_controller mc (SetError ERROR_FAILED_SERIALIZE ''deserialize error'') e1"
      using assms t by (simp add: on_reply_def e1_def Let_def split_beta split: if_splits)
    then show thesis using e1 t by (intro that [of loop ev]) (simp_all add: on_controller_def)
  next
    case True
    then have "(case ch_controller (channels e2 ch) of None \<Rightarrow> Inl Null_deref
        | Some cc \<Rightarrow> Inr (if \<not> IsCanceled (controllers e2 cc) then run_closure ch e2 else e2)) = Inr e'"
      unfolding e2_def e1_def using assms t
      by (simp add: on_reply_def Let_def split_beta split: if_splits cong: option.case_cong if_cong)
    then obtain cc where cc: "ch_controller (channels e2 ch) = Some cc"
      "e' = (if \<not> IsCanceled (controllers e2 cc) then run_closure ch e2 else e2)"
      by (auto split: option.splits)
    have "canceled e ch \<longleftrightarrow> is_cancle (controllers e2 cc)" using cc(1) e1 e2 by (simp add: canceled_def)
    then show thesis using e1 e2 t cc(2) run_closure_runs [of ch e2] True
      by (intro that [of loop ev]) (simp_all add: controller_defs)
  qed
qed

lemma inv_reply:
  assumes "call_inv ws rd [] e" "rd k = Some (Call_done (On_reply ch mc))" "on_reply parse ch mc p e = Inr e'"
  shows "call_inv ws (rd(k := None)) [] e'" "spent ws rd [] e x \<Longrightarrow> spent ws (rd(k := None)) [] e' x"
    "spent ws (rd(k := None)) [] e' ch" "spent ws rd [] e x \<Longrightarrow> nruns e' x = nruns e x"
    "\<not> fst (parse (pb_data p)) \<Longrightarrow> runs e' = runs e"
proof -
  obtain loop ev where t: "ch_timer (channels e ch) = Some (loop, ev)"
    "timers e' = (timers e)(loop := setCancled ev True (timers e loop))"
    "\<And>x. ch_timer (channels e' x) = ch_timer (channels e x)"
    "\<And>x. ch_controller (channels e' x) = ch_controller (channels e x)"
    "\<And>x. is_cancle (controllers e' x) = is_cancle (controllers e x)"
    "runs e' = runs e \<or> (\<exists>fs. runs e' = runs e @ [(ch, fs)]) \<and> \<not> canceled e ch \<and> fst (parse (pb_data p))"
    using on_reply_effect [OF assms(3)] by blast
  have tq: "pending (timers e' l) = pending (timers e l)" "next_event (timers e' l) = next_event (timers e l)"
    "pending_events (timers e' l) = pending_events (timers e l)"
    "is_repeated (store (timers e' l) v) = is_repeated (store (timers e l) v)"
    "ev_task (store (timers e' l) v) = ev_task (store (timers e l) v)"
    "is_cancled (store (timers e' l) v) \<longleftrightarrow> is_cancled (store (timers e l) v) \<or> (l = loop \<and> v = ev)"
    "timer_wf (timers e' l) = timer_wf (timers e l)" for l v
    by (auto simp: t(2) setCancled_def pending_def timer_wf_def)
  have lv: "live e' x \<Longrightarrow> live e x" "\<not> live e' ch" for x using t(1,3) tq by (auto simp: live_def)
  have cn: "canceled e' x = canceled e x" for x using t(4,5) by (simp add: canceled_def)
  have w: "waits (rd(k := None)) j x \<longleftrightarrow> waits rd j x \<and> j \<noteq> k" for j x by (auto simp: waits_def)
  have k: "waits rd k ch" using assms(2) by (simp add: waits_def)
  have ok: "chan_ok ws rd [] e x" for x by (rule call_invD(2) [OF assms(1)])
  have "\<not> to_send ws ch" "\<not> waits (rd(k := None)) j ch" for j using ok [of ch] k w by (auto simp: chan_ok_def)
  then have nrun: "\<not> can_run ws (rd(k := None)) [] e' ch" using lv(2) by (auto simp: can_run_def)
  have run: "can_run ws (rd(k := None)) [] e' x \<Longrightarrow> can_run ws rd [] e x" for x
    using w lv(1) cn by (auto simp: can_run_def)
  have can: "\<not> canceled e ch \<Longrightarrow> can_run ws rd [] e ch" using k by (auto simp: can_run_def)
  show "spent ws rd [] e x \<Longrightarrow> spent ws (rd(k := None)) [] e' x" using run t(3) by (auto simp: spent_def)
  show "spent ws (rd(k := None)) [] e' ch" using nrun t(1,3) by (simp add: spent_def)
  show "\<not> fst (parse (pb_data p)) \<Longrightarrow> runs e' = runs e" using t(6) by blast
  show nr: "nruns e' x = nruns e x" if "spent ws rd [] e x" for x
    using t(6) that can by (auto simp: spent_def) (simp add: nruns_def)
  have nn: "nruns e' x + (if can_run ws (rd(k := None)) [] e' x then 1 else 0)
      \<le> nruns e x + (if can_run ws rd [] e x then 1 else 0)" for x
    using t(6) run [of x] nrun can by (cases "x = ch") (auto simp: nruns_def [of e'] nruns_def [of e])
  have "chan_ok ws (rd(k := None)) [] e' x" for x
    by (rule chan_ok_fewer [OF ok]) (use w nn t(1,3,6) in \<open>auto simp: nruns_def\<close>)
  moreover have "timers_ok e'" using call_invD(1) [OF assms(1)] t(3,4) unfolding timers_ok_def tq by simp
  ultimately show "call_inv ws (rd(k := None)) [] e'" using assms(1) by (auto simp: call_inv_def)
qed

text \<open>The timer: the events that are due leave the queue, and their callbacks are to be run.\<close>

lemma readd_none: "\<forall>v \<in> set es. \<not> is_repeated (store s v) \<Longrightarrow> readd to c es s = s"
  by (induction es) auto

lemma onTime_once:
  fixes s :: "'t time_q"
  assumes "\<And>v. v \<in> pending s \<Longrightarrow> \<not> is_repeated (store s v) \<and> ev_task (store s v) \<noteq> None"
    "onTime to c s = (tasks, tq)"
  shows "\<exists>ex dr. pending_events s = ex @ dr \<and> pending_events tq = dr \<and> store tq = store s \<and> next_event tq = next_event s
    \<and> ex = takeWhile (\<lambda>p. fst p \<le> c (clk s)) (pending_events s)
    \<and> tasks = map (\<lambda>v. the (ev_task (store s v))) (filter (\<lambda>v. \<not> is_cancled (store s v)) (map snd ex))"
proof -
  define now where "now = c (clk s)"
  define ex where "ex = takeWhile (\<lambda>p. fst p \<le> now) (pending_events s)"
  define dr where "dr = dropWhile (\<lambda>p. fst p \<le> now) (pending_events s)"
  define es where "es = filter (\<lambda>v. \<not> is_cancled (store s v)) (map snd ex)"
  have sub: "set es \<subseteq> pending s" by (auto simp: es_def ex_def pending_def dest: set_takeWhileD)
  have r: "readd to c es (s\<lparr>clk := Suc (clk s), pending_events := dr\<rparr>) = s\<lparr>clk := Suc (clk s), pending_events := dr\<rparr>"
    by (rule readd_none) (use sub assms(1) in auto)
  have "map the (filter (\<lambda>t. t \<noteq> None) (map (\<lambda>v. ev_task (store s v)) es)) = map (\<lambda>v. the (ev_task (store s v))) es"
    using sub assms(1) by (induction es) auto
  then have "tasks = map (\<lambda>v. the (ev_task (store s v))) es"
    "tq = Time_resetArriveTime to c (s\<lparr>clk := Suc (clk s), pending_events := dr\<rparr>)"
    using assms(2) r by (auto simp: onTime_def gettimeofday_def Let_def es_def ex_def dr_def now_def)
  then show ?thesis by (intro exI [of _ ex] exI [of _ dr]) (simp add: es_def ex_def dr_def now_def)
qed

lemma timers_okD:
  assumes "timers_ok e"
  shows "distinct (map snd (pending_events (timers e loop)))"
    "v \<in> pending (timers e loop) \<Longrightarrow> \<not> is_repeated (store (timers e loop) v)"
    "v \<in> pending (timers e loop) \<Longrightarrow> \<exists>ch mc. ev_task (store (timers e loop) v) = Some (ch, mc)
      \<and> ch_timer (channels e ch) = Some (loop, v) \<and> ch_controller (channels e ch) = Some mc"
    "ch_timer (channels e ch) = Some (loop, v) \<Longrightarrow> v < next_event (timers e loop)"
    "timer_wf (timers e loop)"
    "ch_timer (channels e ch) = Some t \<Longrightarrow> ch_timer (channels e ch') = Some t \<Longrightarrow> ch = ch'"
proof -
  show wf: "timer_wf (timers e loop)" using assms unfolding timers_ok_def by blast
  then show "distinct (map snd (pending_events (timers e loop)))" by (simp add: timer_wf_def)
qed (use assms in \<open>unfold timers_ok_def, blast+\<close>)

text \<open>Dropping the first events of a loop's timers keeps the others in order.\<close>

lemma timers_ok_drop:
  assumes ok: "timers_ok e" and o: "pending_events (timers e loop) = ex @ dr" "pending_events tq = dr"
    "store tq = store (timers e loop)" "next_event tq = next_event (timers e loop)"
  shows "timers_ok (on_timers loop (\<lambda>_. tq) e)"
proof -
  let ?s = "timers e loop" and ?e = "on_timers loop (\<lambda>_. tq) e"
  note d = timers_okD [OF ok]
  have psub: "v \<in> pending tq \<Longrightarrow> v \<in> pending ?s" for v by (auto simp: pending_def o(1,2))
  show ?thesis unfolding timers_ok_def
  proof (intro conjI allI ballI impI)
    have "timer_wf tq" using d(5) [of loop] o(1-3) by (auto simp: timer_wf_def sorted_append)
    then show "timer_wf (timers ?e l)" for l using d(5) [of l] by simp
    fix l
    fix v assume v: "v \<in> pending (timers ?e l)"
    have v': "v \<in> pending (timers e l)" "store (timers ?e l) = store (timers e l)"
      using v psub o(3) by (auto split: if_splits)
    show "\<not> is_repeated (store (timers ?e l) v)" using d(2) [OF v'(1)] v'(2) by simp
    show "\<exists>ch mc. ev_task (store (timers ?e l) v) = Some (ch, mc) \<and> ch_timer (channels ?e ch) = Some (l, v)
        \<and> ch_controller (channels ?e ch) = Some mc" using d(3) [OF v'(1)] v'(2) by simp
  next
    fix ch l v assume "ch_timer (channels ?e ch) = Some (l, v)"
    then show "v < next_event (timers ?e l)" using d(4) [of ch l v] o(4) by auto
  qed (use d(6) in simp)
qed

lemma inv_fire:
  assumes "call_inv ws rd [] e" "onTime to c (timers e loop) = (tasks, tq)"
  shows "call_inv ws rd tasks (on_timers loop (\<lambda>_. tq) e)"
    "spent ws rd [] e x \<Longrightarrow> spent ws rd tasks (on_timers loop (\<lambda>_. tq) e) x"
proof -
  let ?s = "timers e loop" and ?e = "on_timers loop (\<lambda>_. tq) e"
  note ok = call_invD(1) [OF assms(1)]
  note d = timers_okD [OF ok]
  have p: "\<not> is_repeated (store ?s v) \<and> ev_task (store ?s v) \<noteq> None" if "v \<in> pending ?s" for v
    using d(2,3) [OF that] by auto
  obtain ex dr where o: "pending_events ?s = ex @ dr" "pending_events tq = dr" "store tq = store ?s"
    "next_event tq = next_event ?s" "ex = takeWhile (\<lambda>p. fst p \<le> c (clk ?s)) (pending_events ?s)"
    "tasks = map (\<lambda>v. the (ev_task (store ?s v))) (filter (\<lambda>v. \<not> is_cancled (store ?s v)) (map snd ex))"
    using onTime_once [OF p assms(2)] by blast
  have sub: "snd ` set dr \<subseteq> pending ?s" "snd ` set ex \<subseteq> pending ?s" by (auto simp: pending_def o(1))
  have psub: "v \<in> pending tq \<Longrightarrow> v \<in> pending ?s" for v using sub(1) o(2) by (auto simp: pending_def)
  have dj: "snd ` set ex \<inter> snd ` set dr = {}" "distinct (map snd ex)" "distinct (map snd dr)"
    using d(1) [of loop] by (auto simp: o(1))
  have task: "\<exists>v \<in> snd ` set ex. \<not> is_cancled (store ?s v) \<and> ch_timer (channels e ch) = Some (loop, v)
      \<and> ch_controller (channels e ch) = Some mc" if "(ch, mc) \<in> set tasks" for ch mc
  proof -
    obtain v where v: "v \<in> snd ` set ex" "\<not> is_cancled (store ?s v)" "(ch, mc) = the (ev_task (store ?s v))"
      using \<open>(ch, mc) \<in> set tasks\<close> unfolding o(6) by auto
    then obtain ch' mc' where "ev_task (store ?s v) = Some (ch', mc')" "ch_timer (channels e ch') = Some (loop, v)"
      "ch_controller (channels e ch') = Some mc'" using d(3) [of v loop] sub(2) by blast
    then show ?thesis using v by auto
  qed
  have lv: "live ?e x \<Longrightarrow> live e x" for x using psub o(3) by (auto simp: live_def split: if_splits)
  have tl: "live e ch" "\<not> live ?e ch" if m: "(ch, mc) \<in> set tasks" for ch mc
  proof -
    obtain v where v: "v \<in> snd ` set ex" "\<not> is_cancled (store ?s v)" "ch_timer (channels e ch) = Some (loop, v)"
      using task [OF m] by blast
    have "v \<in> pending ?s" "v \<notin> pending tq" using v(1) sub(2) dj(1) o(2) unfolding pending_def by blast+
    then show "live e ch" "\<not> live ?e ch" using v by (simp_all add: live_def)
  qed
  have run: "can_run ws rd tasks ?e x \<Longrightarrow> can_run ws rd [] e x" for x
    using lv tl(1) by (auto simp: can_run_def canceled_def)
  show "spent ws rd [] e x \<Longrightarrow> spent ws rd tasks ?e x" using run by (auto simp: spent_def)
  have inj: "inj_on (\<lambda>v. fst (the (ev_task (store ?s v)))) (snd ` set ex)"
  proof (rule inj_onI)
    fix v v' assume v: "v \<in> snd ` set ex" "v' \<in> snd ` set ex"
      "fst (the (ev_task (store ?s v))) = fst (the (ev_task (store ?s v')))"
    then show "v = v'" using d(3) [of v loop] d(3) [of v' loop] sub(2) by fastforce
  qed
  have "distinct (map fst tasks)" unfolding o(6) map_map
    using dj(2) inj by (auto simp: comp_def distinct_map intro: inj_on_subset)
  moreover have "timers_ok ?e" by (rule timers_ok_drop [OF ok o(1-4)])
  moreover have "chan_ok ws rd tasks ?e x" for x
    using call_invD(2) [OF assms(1), of x] run [of x] task
    by (fastforce simp: chan_ok_def nruns_def split: if_splits)
  ultimately show "call_inv ws rd tasks ?e" using assms(1) tl(2) task by (fastforce simp: call_inv_def)
qed

text \<open>A time-out callback: it cancels the call and runs its closure.\<close>

lemma on_timeout_effect:
  "channels (on_timeout (ch, mc) e) = channels e" "timers (on_timeout (ch, mc) e) = timers e"
  "runs (on_timeout (ch, mc) e) = runs e \<or> (\<exists>fs. runs (on_timeout (ch, mc) e) = runs e @ [(ch, fs)])"
  "is_cancle (controllers (on_timeout (ch, mc) e) x) \<longleftrightarrow> x = mc \<or> is_cancle (controllers e x)"
  using run_closure_runs [of ch "on_controller mc (\<lambda>c. let c = StartCancel c in
    SetError ERROR_RPC_CALL_TIMEOUT (''rpc call timeout '' @ to_string (GetTimeOut c)) c) e"]
  by (simp_all add: on_timeout_def on_controller_def controller_defs)

lemma inv_timeout:
  assumes "call_inv ws rd ((ch, mc) # ts) e"
  shows "call_inv ws rd ts (on_timeout (ch, mc) e)"
    "spent ws rd ((ch, mc) # ts) e x \<Longrightarrow> spent ws rd ts (on_timeout (ch, mc) e) x"
    "spent ws rd ((ch, mc) # ts) e x \<Longrightarrow> nruns (on_timeout (ch, mc) e) x = nruns e x"
proof -
  let ?e = "on_timeout (ch, mc) e"
  note t = on_timeout_effect [of ch mc e]
  have i: "\<not> live e ch" "ch_controller (channels e ch) = Some mc" "ch \<notin> fst ` set ts"
    using assms by (auto simp: call_inv_def)
  have lv: "live ?e x = live e x" for x by (simp add: live_def t)
  have cn: "canceled ?e x \<longleftrightarrow> canceled e x \<or> ch_controller (channels e x) = Some mc" for x
    by (auto simp: canceled_def t)
  have no: "\<not> can_run ws rd ts ?e ch" using i by (simp add: can_run_def lv cn)
  have run: "can_run ws rd ts ?e x \<Longrightarrow> can_run ws rd ((ch, mc) # ts) e x" for x
    using lv cn by (auto simp: can_run_def)
  have had: "can_run ws rd ((ch, mc) # ts) e ch" by (simp add: can_run_def)
  show "spent ws rd ((ch, mc) # ts) e x \<Longrightarrow> spent ws rd ts ?e x" using run t(1) by (auto simp: spent_def)
  show "nruns ?e x = nruns e x" if "spent ws rd ((ch, mc) # ts) e x"
  proof -
    have "x \<noteq> ch" using that had by (auto simp: spent_def)
    then show ?thesis using t(3) by (auto simp: nruns_def)
  qed
  have nn: "nruns ?e x + (if can_run ws rd ts ?e x then 1 else 0)
      \<le> nruns e x + (if can_run ws rd ((ch, mc) # ts) e x then 1 else 0)" for x
    using t(3) run [of x] no had by (cases "x = ch") (auto simp: nruns_def)
  have "ch_timer (channels e ch) \<noteq> None" using call_invD(2) [OF assms, of ch] by (auto simp: chan_ok_def)
  then have "ch_timer (channels e x) = None \<Longrightarrow> nruns ?e x = nruns e x" for x
    using t(3) by (auto simp: nruns_def)
  then have "chan_ok ws rd ts ?e x" for x
    by (intro chan_ok_fewer [OF call_invD(2) [OF assms]]) (use nn t(1) in auto)
  moreover have "timers_ok ?e" using call_invD(1) [OF assms] by (simp add: timers_ok_def t)
  ultimately show "call_inv ws rd ts ?e" using assms lv t(1) by (auto simp: call_inv_def)
qed

lemma inv_timeouts:
  assumes "call_inv ws rd ts e"
  shows "call_inv ws rd [] (fold on_timeout ts e)
    \<and> (spent ws rd ts e x \<longrightarrow> spent ws rd [] (fold on_timeout ts e) x \<and> nruns (fold on_timeout ts e) x = nruns e x)"
  using assms
proof (induction ts arbitrary: e)
  case (Cons t ts)
  obtain ch mc where t: "t = (ch, mc)" by fastforce
  note i = inv_timeout [OF Cons.prems [unfolded t]]
  show ?case using Cons.IH [OF i(1)] i(2,3) by (auto simp: t)
qed simp

text \<open>A call is issued on a fresh channel.\<close>

lemma addTimerEvent_next [simp]: "next_event (addTimerEvent to c v s) = next_event s"
  by (simp add: addTimerEvent_def Let_def)

lemma resetEvent_next [simp]: "next_event (resetEvent c v s) = next_event s"
  by (simp add: resetEvent_def gettimeofday_def)

lemma pending_addTimerEvent: "pending (addTimerEvent to c v s) = insert v (pending s)"
  by (simp add: pending_def)

lemma on_channel_keeps:
  "on_channel f c = Inr c' \<Longrightarrow> write_dones c' = write_dones c \<and> read_dones c' = read_dones c
    \<and> c_env c' = c_env c \<and> read_locked c' = read_locked c \<and> write_locked c' = write_locked c
    \<and> c_type c' = c_type c \<and> inputbuffer c' = inputbuffer c \<and> outputbuffer c' = outputbuffer c \<and> disConnect c' = disConnect c"
  by (auto simp: on_channel_def)

lemma issue_call_effect:
  assumes "issue_call sys loop ch mc req c = Inr c'"
  obtains tq k where "write_dones c' = write_dones c @ [(req, Call_done (On_sent ch mc))]"
    "read_dones c' = read_dones c" "runs (c_env c') = runs (c_env c)"
    "controllers (c_env c') = controllers (c_env c)"
    "channels (c_env c') = (channels (c_env c))(ch := (channels (c_env c) ch)\<lparr>ch_timer := Some (loop, next_event (timers (c_env c) loop))\<rparr>)"
    "timers (c_env c') = (timers (c_env c))(loop := tq)" "next_event tq = Suc (next_event (timers (c_env c) loop))"
    "\<forall>v. v \<noteq> next_event (timers (c_env c) loop) \<longrightarrow> store tq v = store (timers (c_env c) loop) v"
    "\<not> is_repeated (store tq (next_event (timers (c_env c) loop)))"
    "ev_task (store tq (next_event (timers (c_env c) loop))) = Some (ch, mc)"
    "pending_events tq = emplace k (next_event (timers (c_env c) loop)) (pending_events (timers (c_env c) loop))"
    "k = arrive_time (store tq (next_event (timers (c_env c) loop)))"
    "read_locked c' = read_locked c"
proof -
  let ?s = "timers (c_env c) loop"
  let ?q = "addTimerEvent (cfg_timeout (sys_cfg sys)) (sys_clock sys) (next_event ?s)
    (snd (TimeEvent_new (sys_clock sys) (GetTimeOut (controllers (c_env c) mc)) False (Some (ch, mc)) ?s))"
  let ?e = "on_timers loop (\<lambda>_. ?q)
    (on_rpc_channel ch (\<lambda>x. x\<lparr>ch_timer := Some (loop, next_event ?s)\<rparr>) (c_env c))"
  have "bindR (pushSendMessage req (Call_done (On_sent ch mc)) (c\<lparr>c_env := ?e\<rparr>)) (conn_enableWriting (sys_epoll sys)) = Inr c'"
    using assms by (simp add: issue_call_def TimeEvent_new_def Let_def del: bindR_Inr_iff)
  then have c': "write_dones c' = write_dones c @ [(req, Call_done (On_sent ch mc))]" "read_dones c' = read_dones c"
    "c_env c' = ?e" "read_locked c' = read_locked c"
    by (auto simp: pushSendMessage_def conn_enableWriting_def dest: on_channel_keeps split: if_splits)
  show thesis
    by (rule that [of ?q, OF c'(1,2)]) (auto simp: c'(3,4) TimeEvent_new_def Let_def)
qed

text \<open>A new timer event of a channel without one keeps the timers in order.\<close>

lemma timers_ok_issue:
  assumes ok: "timers_ok e" and fr: "ch_timer (channels e ch) = None" "ch_controller (channels e ch) = Some mc"
    and s_def: "s = timers e loop" and v_def: "v = next_event s"
    and n: "channels e' = (channels e)(ch := (channels e ch)\<lparr>ch_timer := Some (loop, v)\<rparr>)"
    "timers e' = (timers e)(loop := tq)" "next_event tq = Suc v" "\<forall>u. u \<noteq> v \<longrightarrow> store tq u = store s u"
    "\<not> is_repeated (store tq v)" "ev_task (store tq v) = Some (ch, mc)" "pending_events tq = emplace k v (pending_events s)"
    "k = arrive_time (store tq v)"
  shows "timers_ok e'"
proof -
  note dd = timers_okD [OF ok]
  have pend: "pending tq = insert v (pending s)" by (simp add: n(7) pending_def)
  have lt: "u < v" if "u \<in> pending s" for u using dd(3) [of u loop] dd(4) that unfolding s_def v_def by blast
  have old: "u < v" if "ch_timer (channels e x) = Some (loop, u)" for x u using dd(4) [OF that] by (simp add: v_def s_def)
  show ?thesis unfolding timers_ok_def
  proof (intro conjI allI ballI impI)
    have "v \<notin> snd ` set (pending_events s)" using lt [of v] by (auto simp: pending_def)
    moreover have "j \<noteq> v" if "(i, j) \<in> set (pending_events s)" for i j using that calculation by force
    ultimately have "timer_wf tq" using dd(5) [of loop] n(4) unfolding s_def [symmetric]
      by (auto simp: timer_wf_def n(7,8) sorted_emplace distinct_emplace)
    then show "timer_wf (timers e' l)" for l using dd(5) [of l] by (simp add: n(2))
    fix l
    fix u assume u: "u \<in> pending (timers e' l)"
    show "\<not> is_repeated (store (timers e' l) u)"
      using u dd(2) [of u l] n(4,5) pend by (auto simp: n(2) s_def split: if_splits)
    show "\<exists>ch mc. ev_task (store (timers e' l) u) = Some (ch, mc) \<and> ch_timer (channels e' ch) = Some (l, u)
        \<and> ch_controller (channels e' ch) = Some mc"
    proof (cases "l = loop \<and> u = v")
      case True
      then show ?thesis using n(6) fr(2) by (simp add: n(1,2))
    next
      case False
      then have "u \<in> pending (timers e l)" "store (timers e' l) u = store (timers e l) u"
        using u pend n(4) by (auto simp: n(2) s_def split: if_splits)
      then obtain y m where "ev_task (store (timers e' l) u) = Some (y, m)"
        "ch_timer (channels e y) = Some (l, u)" "ch_controller (channels e y) = Some m" using dd(3) [of u l] by auto
      then show ?thesis using fr(1) by (intro exI [of _ y] exI [of _ m]) (auto simp: n(1))
    qed
  next
    fix y l u assume "ch_timer (channels e' y) = Some (l, u)"
    then show "u < next_event (timers e' l)"
      using dd(4) [of y l u] n(3) by (auto simp: n(1,2) v_def s_def split: if_splits)
  next
    fix y z t assume "ch_timer (channels e' y) = Some t" "ch_timer (channels e' z) = Some t"
    then show "y = z" using dd(6) [of y t z] old [of y v] old [of z v] by (auto simp: n(1) split: if_splits)
  qed
qed

lemma inv_issue:
  assumes "call_inv (write_dones c) (read_dones c) [] (c_env c)" "fresh_channel ch mc (c_env c)"
    "issue_call sys loop ch mc req c = Inr c'"
  shows "call_inv (write_dones c') (read_dones c') [] (c_env c')"
    "spent (write_dones c) (read_dones c) [] (c_env c) x \<Longrightarrow> spent (write_dones c') (read_dones c') [] (c_env c') x"
    "runs (c_env c') = runs (c_env c)"
proof -
  define e where "e = c_env c"
  define s where "s = timers e loop"
  define v where "v = next_event s"
  define d where "d = Call_done (On_sent ch mc)"
  obtain tq k where n: "write_dones c' = write_dones c @ [(req, d)]" "read_dones c' = read_dones c"
    "runs (c_env c') = runs e" "controllers (c_env c') = controllers e"
    "channels (c_env c') = (channels e)(ch := (channels e ch)\<lparr>ch_timer := Some (loop, v)\<rparr>)"
    "timers (c_env c') = (timers e)(loop := tq)" "next_event tq = Suc v" "\<forall>u. u \<noteq> v \<longrightarrow> store tq u = store s u"
    "\<not> is_repeated (store tq v)" "ev_task (store tq v) = Some (ch, mc)" "pending_events tq = emplace k v (pending_events s)"
    "k = arrive_time (store tq v)" "read_locked c' = read_locked c"
    by (rule issue_call_effect [OF assms(3), folded e_def, folded s_def, folded v_def d_def]) (rule that)
  note inv = assms(1) [folded e_def]
  note dd = timers_okD [OF call_invD(1) [OF inv]]
  have fr: "ch_timer (channels e ch) = None" "ch_controller (channels e ch) = Some mc"
    using assms(2) by (auto simp: fresh_channel_def e_def)
  have pend: "pending tq = insert v (pending s)" by (simp add: n(11) pending_def)
  have old: "u < v" if "ch_timer (channels e x) = Some (loop, u)" for x u using dd(4) [OF that] by (simp add: v_def s_def)
  have lv: "live (c_env c') x = live e x" if "x \<noteq> ch" for x
  proof (cases "ch_timer (channels e x)")
    case (Some t)
    obtain l u where t: "t = (l, u)" by fastforce
    have "u \<noteq> v \<and> store tq u = store s u" if "l = loop" using old [of x u] Some t that n(8) by auto
    then show ?thesis using that pend Some t by (cases "l = loop") (auto simp: live_def n(5,6) s_def)
  qed (use that in \<open>simp add: live_def n(5)\<close>)
  have cn: "canceled (c_env c') x = canceled e x" for x by (simp add: canceled_def n(4,5))
  have ts: "to_send (write_dones c') x \<longleftrightarrow> to_send (write_dones c) x \<or> x = ch" for x by (auto simp: n(1) d_def)
  have run: "can_run (write_dones c') (read_dones c') [] (c_env c') x = can_run (write_dones c) (read_dones c) [] e x"
    if "x \<noteq> ch" for x using that by (simp add: can_run_def n(2) lv cn ts)
  show "runs (c_env c') = runs (c_env c)" using n(3) by (simp add: e_def)
  show "spent (write_dones c) (read_dones c) [] (c_env c) x \<Longrightarrow> spent (write_dones c') (read_dones c') [] (c_env c') x"
    using run [of x] fr(1) unfolding e_def [symmetric] by (auto simp: spent_def n(5))
  have "chan_ok (write_dones c') (read_dones c') [] (c_env c') x" for x
  proof (cases "x = ch")
    case True
    have o: "\<not> to_send (write_dones c) ch" "\<not> waits (read_dones c) j ch" "nruns e ch = 0" for j
      using call_invD(2) [OF inv, of ch] fr(1) by (auto simp: chan_ok_def)
    moreover have "filter (\<lambda>p. sent_of (snd p) = Some ch) (write_dones c) = []" using o(1) to_send_filter by blast
    moreover have "nruns (c_env c') ch = nruns e ch" by (simp add: nruns_def n(3))
    ultimately show ?thesis by (simp add: True chan_ok_def n(1,2,5) d_def)
  next
    case False
    then show ?thesis
      by (intro chan_ok_fewer [OF call_invD(2) [OF inv]]) (use run [OF False] in \<open>auto simp: n nruns_def d_def\<close>)
  qed
  moreover have "timers_ok (c_env c')" by (rule timers_ok_issue [OF call_invD(1) [OF inv] fr s_def v_def n(5-12)])
  ultimately show "call_inv (write_dones c') (read_dones c') [] (c_env c')"
    using inv by (auto simp: call_inv_def n(1,2) d_def)
qed

text \<open>Sending the pending requests.\<close>

lemma inv_send:
  assumes "call_inv ((m, d) # ws) (read_dones c) [] (c_env c)" "rpc_exec sys d m c = Inr c'"
  shows "call_inv ws (read_dones c') [] (c_env c') \<and> c_env c' = c_env c \<and> read_locked c' = read_locked c
    \<and> (\<forall>x. spent ((m, d) # ws) (read_dones c) [] (c_env c) x \<longrightarrow> spent ws (read_dones c') [] (c_env c') x)"
proof -
  have "is_send d" using call_invD(3) [OF assms(1), of "(m, d)"] by simp
  then consider n i where "d = Send_keepalive n i" | ch mc where "d = Call_done (On_sent ch mc)"
    using is_send by blast
  then obtain d' where d': "\<not> is_send d'" "reply_of d' = sent_of d"
    "read_dones c' = (if read_dones c (msg_id m) = None then (read_dones c)(msg_id m \<mapsto> d') else read_dones c)"
    "c_env c' = c_env c" "read_locked c' = read_locked c"
  proof cases
    case 1
    then show ?thesis using assms(2)
      by (intro that [of "Reply_keepalive n i"]) (auto simp: pushReadMessage_def split: if_splits)
  next
    case 2
    then obtain c1 where "pushReadMessage (msg_id m) (Call_done (On_reply ch mc)) c = Inr c1"
      "conn_enableReading (sys_epoll sys) c1 = Inr c'" using assms(2) by auto
    then show ?thesis using 2
      by (intro that [of "Call_done (On_reply ch mc)"])
        (auto simp: pushReadMessage_def conn_enableReading_def dest!: on_channel_keeps split: if_splits)
  qed
  from inv_sent [OF assms(1) d'(1-3)] show ?thesis using d'(4,5) by metis
qed

lemma inv_sends:
  assumes "call_inv ws (read_dones c) [] (c_env c)" "foldR (\<lambda>(m, d) c. rpc_exec sys d m c) ws c = Inr c'"
  shows "call_inv [] (read_dones c') [] (c_env c') \<and> c_env c' = c_env c \<and> read_locked c' = read_locked c
    \<and> (\<forall>x. spent ws (read_dones c) [] (c_env c) x \<longrightarrow> spent [] (read_dones c') [] (c_env c') x)"
  using assms
proof (induction ws arbitrary: c)
  case (Cons p ws)
  obtain m d where p: "p = (m, d)" by fastforce
  obtain c1 where c1: "rpc_exec sys d m c = Inr c1" "foldR (\<lambda>(m, d) c. rpc_exec sys d m c) ws c1 = Inr c'"
    using Cons.prems(2) by (auto simp: p)
  note i = inv_send [OF Cons.prems(1) [unfolded p] c1(1)]
  then have "call_inv ws (read_dones c1) [] (c_env c1)" by blast
  from Cons.IH [OF this c1(2)] i show ?case by (auto simp: p)
qed auto

text \<open>The calls of a connection are in order; a channel is spent; and no callback list is in use.\<close>

definition calls_ok :: "('q, 'r, 'f, 'k) rpc_conn \<Rightarrow> bool" where
  "calls_ok c \<longleftrightarrow> call_inv (write_dones c) (read_dones c) [] (c_env c) \<and> \<not> read_locked c"

definition call_spent :: "('q, 'r, 'f, 'k) rpc_conn \<Rightarrow> nat \<Rightarrow> bool" where
  "call_spent c ch \<longleftrightarrow> spent (write_dones c) (read_dones c) [] (c_env c) ch"

lemma same_calls_count:
  "same_calls e (e\<lparr>keepalive_count := k\<rparr>)" "same_calls e (e\<lparr>keepalive_count := k, server_conns := l\<rparr>)"
  by (simp_all add: same_calls_def)

lemma act_reply:
  assumes "calls_ok c" "reply_step (rpc_exec sys) p c = Inr c'"
  shows "calls_ok c' \<and> (\<forall>x. call_spent c x \<longrightarrow> call_spent c' x \<and> nruns (c_env c') x = nruns (c_env c) x)"
proof (cases "read_dones c (msg_id p)")
  case None
  then show ?thesis using assms by (simp add: reply_step_def calls_ok_def split: if_splits)
next
  case (Some d)
  have inv: "call_inv (write_dones c) (read_dones c) [] (c_env c)" and nl: "\<not> read_locked c"
    using assms(1) by (auto simp: calls_ok_def)
  obtain c1 where c1: "rpc_exec sys d p (c\<lparr>read_locked := True\<rparr>) = Inr c1"
    "c' = c1\<lparr>read_dones := (read_dones c1)(msg_id p := None), read_locked := False\<rparr>"
    using assms(2) Some nl by (auto simp: reply_step_def)
  consider n i where "d = Reply_keepalive n i" | ch mc where "d = Call_done (On_reply ch mc)"
    using not_is_send [OF call_invD(4) [OF inv Some]] by blast
  then show ?thesis
  proof cases
    case 1
    then have c': "c1 = (c\<lparr>read_locked := True\<rparr>)\<lparr>c_env := (c_env c)\<lparr>keepalive_count := (keepalive_count (c_env c))(n := - 1)\<rparr>\<rparr>"
      using c1(1) by (simp split: if_splits)
    note s = same_calls_simps [OF same_calls_count(1) [of "c_env c" "(keepalive_count (c_env c))(n := - 1)"]]
    show ?thesis using inv_forget [OF inv, where k = "msg_id p"]
      by (simp add: c' c1(2) calls_ok_def call_spent_def s)
  next
    case 2
    then obtain e where e: "on_reply (sys_parse sys) ch mc p (c_env c) = Inr e"
      "c1 = (c\<lparr>read_locked := True\<rparr>)\<lparr>c_env := e\<rparr>"
      using c1(1) by auto
    note i = inv_reply [OF inv Some [unfolded 2] e(1)]
    show ?thesis using i(1,2,4) by (simp add: c1(2) e(2) calls_ok_def call_spent_def)
  qed
qed

lemma act_ok:
  assumes "calls_ok c" "call_act sys a c = Inr c'"
  shows "calls_ok c' \<and> (\<forall>x. call_spent c x \<longrightarrow> call_spent c' x \<and> nruns (c_env c') x = nruns (c_env c) x)"
proof -
  have inv: "call_inv (write_dones c) (read_dones c) [] (c_env c)" and nl: "\<not> read_locked c"
    using assms(1) by (auto simp: calls_ok_def)
  show ?thesis
  proof (cases a)
    case (Issue loop ch mc req)
    show ?thesis
    proof (cases "fresh_channel ch mc (c_env c)")
      case True
      then have iss: "issue_call sys loop ch mc req c = Inr c'" using assms(2) by (simp add: Issue)
      have "read_locked c' = read_locked c" by (rule issue_call_effect [OF iss])
      then show ?thesis using inv_issue [OF inv True iss] nl by (auto simp: calls_ok_def call_spent_def nruns_def)
    qed (use assms in \<open>simp add: Issue\<close>)
  next
    case Flush
    then obtain c1 b where c1: "foldR (\<lambda>(m, d) c. rpc_exec sys d m c) (write_dones c) (c\<lparr>write_locked := True\<rparr>) = Inr c1"
      "c' = c1\<lparr>write_dones := [], write_locked := False, outputbuffer := b\<rparr>"
      using assms(2) by (auto simp: flush_requests_def split: if_splits)
    have "call_inv (write_dones c) (read_dones (c\<lparr>write_locked := True\<rparr>)) [] (c_env (c\<lparr>write_locked := True\<rparr>))"
      using inv by simp
    from inv_sends [OF this c1(1)] show ?thesis using nl by (auto simp: c1(2) calls_ok_def call_spent_def)
  next
    case (Reply p)
    then show ?thesis using act_reply [OF assms(1)] assms(2) by simp
  next
    case (Fire loop)
    obtain ts tq where o: "onTime (cfg_timeout (sys_cfg sys)) (sys_clock sys) (timers (c_env c) loop) = (ts, tq)" by fastforce
    have c': "c' = c\<lparr>c_env := fold on_timeout ts (on_timers loop (\<lambda>_. tq) (c_env c))\<rparr>"
      using assms(2) o by (simp add: Fire timers_fire_def)
    note f = inv_fire [OF inv o]
    have "nruns (on_timers loop (\<lambda>_. tq) (c_env c)) x = nruns (c_env c) x" for x by (simp add: nruns_def)
    then show ?thesis using inv_timeouts [OF f(1)] f(2) nl by (auto simp: c' calls_ok_def call_spent_def)
  next
    case (Ping m name i)
    then show ?thesis using assms(2) inv_ping [OF inv, where d = "Send_keepalive name i" and m = m] nl
      by (auto simp: pushSendMessage_def calls_ok_def call_spent_def split: if_splits)
  next
    case (Unping mid)
    then show ?thesis using assms(2) inv_forget [OF inv, where k = mid] nl
      by (auto simp: popReadMessage_def calls_ok_def call_spent_def split: if_splits)
  next
    case (Age name)
    have "same_calls (c_env c) (age name (c_env c))" by (simp add: same_calls_def age_def Let_def)
    from same_calls_simps [OF this] show ?thesis using assms by (auto simp: Age calls_ok_def call_spent_def)
  qed
qed

lemma acts_ok:
  assumes "calls_ok c" "foldR (call_act sys) as c = Inr c'"
  shows "calls_ok c' \<and> (\<forall>x. call_spent c x \<longrightarrow> call_spent c' x \<and> nruns (c_env c') x = nruns (c_env c) x)"
  using assms
proof (induction as arbitrary: c)
  case (Cons a as)
  then obtain c1 where c1: "call_act sys a c = Inr c1" "foldR (call_act sys) as c1 = Inr c'" by auto
  show ?case using act_ok [OF Cons.prems(1) c1(1)] Cons.IH [OF _ c1(2)] by auto
qed simp

section \<open>Properties\<close>

text \<open>A connection on which no call has been made yet, and the connections a run leads to.\<close>

definition no_calls :: "('q, 'r, 'f, 'k) rpc_conn \<Rightarrow> bool" where
  "no_calls c \<longleftrightarrow> write_dones c = [] \<and> read_dones c = Map.empty \<and> \<not> read_locked c \<and> runs (c_env c) = []
    \<and> (\<forall>ch. ch_timer (channels (c_env c) ch) = None) \<and> (\<forall>loop. pending_events (timers (c_env c) loop) = [])"

definition after_calls :: "('q, 'r, 'k) rpc_sys \<Rightarrow> ('q, 'r, 'f, 'k) rpc_conn \<Rightarrow> bool" where
  "after_calls sys c \<longleftrightarrow> (\<exists>c0 as. no_calls c0 \<and> foldR (call_act sys) as c0 = Inr c)"

lemma no_calls_ok: "no_calls c \<Longrightarrow> calls_ok c"
  by (auto simp: no_calls_def calls_ok_def call_inv_def timers_ok_def timer_wf_def pending_def chan_ok_def
      nruns_def can_run_def live_def waits_def)

lemma after_calls_ok: "after_calls sys c \<Longrightarrow> calls_ok c"
  using acts_ok no_calls_ok unfolding after_calls_def by blast

lemma nruns_le: "calls_ok c \<Longrightarrow> nruns (c_env c) ch \<le> 1"
proof -
  assume "calls_ok c"
  then have "chan_ok (write_dones c) (read_dones c) [] (c_env c) ch" by (auto simp: calls_ok_def call_inv_def)
  then show ?thesis by (simp add: chan_ok_def)
qed


text \<open>C31.
  A reply that Protobuf cannot parse loses the call: the callback cancels the time-out and
  returns before the closure, and its registration is erased, so in every continuation the
  closure never runs; the caller waits for ever.
\<close>

theorem unreadable_reply_never_completes:
  assumes "after_calls sys c" "read_dones c (msg_id p) = Some (Call_done (On_reply ch mc))"
    "ch \<notin> fst ` set (runs (c_env c))" "\<not> fst (sys_parse sys (pb_data p))"
    "foldR (call_act sys) (Reply p # as) c = Inr c'"
  shows "ch \<notin> fst ` set (runs (c_env c'))"
proof -
  note ok = after_calls_ok [OF assms(1)]
  obtain c1 where c1: "reply_step (rpc_exec sys) p c = Inr c1" "foldR (call_act sys) as c1 = Inr c'"
    using assms(5) by auto
  obtain e where e: "on_reply (sys_parse sys) ch mc p (c_env c) = Inr e"
    "c1 = c\<lparr>c_env := e, read_dones := (read_dones c)(msg_id p := None), read_locked := False\<rparr>"
    using c1(1) assms(2) by (auto simp: reply_step_def split: if_splits)
  have inv: "call_inv (write_dones c) (read_dones c) [] (c_env c)" using ok by (simp add: calls_ok_def)
  note i = inv_reply [OF inv assms(2) e(1)]
  have ok1: "calls_ok c1" and sp: "call_spent c1 ch" using i(1,3) e(2) by (simp_all add: calls_ok_def call_spent_def)
  have "nruns (c_env c1) ch = 0" using i(5) [OF assms(4)] e(2) assms(3) by (auto simp: nruns_def filter_empty_conv image_iff)
  then have "nruns (c_env c') ch = 0" using acts_ok [OF ok1 c1(2)] sp by simp
  then show ?thesis by (auto simp: nruns_def filter_empty_conv)
qed

text \<open>What a readable reply to a call that was not cancelled does, and what it leaves alone.\<close>

definition outcome :: "tinypb \<Rightarrow> rpc_controller \<Rightarrow> rpc_controller" where
  "outcome p c = (if error_code p \<noteq> 0 then SetError (sint (error_code p)) (getErrorInfo (sint (error_code p))) c else c)"

lemma on_reply_completes:
  assumes "ch_timer (channels e ch) = Some (loop, ev)" "ch_controller (channels e ch) = Some mc"
    "\<not> is_cancle (controllers e mc)" "ch_response (channels e ch) \<noteq> None"
    "ch_closure (channels e ch) = Some cl" "parse (pb_data p) = (True, r)"
  obtains e' where "on_reply parse ch mc p e = Inr e'" "runs e' = runs e @ [(ch, Run cl)]"
    "channels e' = (channels e)(ch := (channels e ch)\<lparr>ch_response := Some r\<rparr>)"
    "controllers e' = (controllers e)(mc := outcome p (controllers e mc))"
proof -
  define e1 where "e1 = on_rpc_channel ch (\<lambda>c. c\<lparr>ch_response := Some r\<rparr>) (on_timers loop (setCancled ev True) e)"
  define e2 where "e2 = (if error_code p \<noteq> 0
    then on_controller mc (SetError (sint (error_code p)) (getErrorInfo (sint (error_code p)))) e1 else e1)"
  have e2: "channels e2 = (channels e)(ch := (channels e ch)\<lparr>ch_response := Some r\<rparr>)" "runs e2 = runs e"
    "controllers e2 = (controllers e)(mc := outcome p (controllers e mc))"
    by (simp_all add: e2_def e1_def on_controller_def outcome_def)
  have c2: "ch_controller (channels e2 ch) = Some mc" "is_cancle (controllers e2 mc) = is_cancle (controllers e mc)"
    using assms(2) by (simp_all add: e2 outcome_def)
  obtain y where y: "ch_response (channels e ch) = Some y" using assms(4) by blast
  have "on_reply parse ch mc p e = (case ch_controller (channels e2 ch) of None \<Rightarrow> Inl Null_deref
      | Some cc \<Rightarrow> Inr (if \<not> IsCanceled (controllers e2 cc) then run_closure ch e2 else e2))"
    unfolding e2_def e1_def using assms(1,6) y
    by (simp add: on_reply_def Let_def cong: option.case_cong if_cong)
  then have r: "on_reply parse ch mc p e = Inr (run_closure ch e2)"
    using assms(3) c2 by (simp add: IsCanceled_def)
  have "runs (run_closure ch e2) = runs e @ [(ch, Run cl)]" using e2 assms(5) by (simp add: run_closure_def)
  then show thesis using r e2 by (intro that [of "run_closure ch e2"]) simp_all
qed

lemma on_reply_runs:
  assumes "ch_timer (channels e ch) = Some (loop, ev)" "ch_controller (channels e ch) = Some mc"
    "\<not> is_cancle (controllers e mc)" "ch_response (channels e ch) \<noteq> None"
    "ch_closure (channels e ch) = Some cl" "parse (pb_data p) = (True, r)"
  obtains e' where "on_reply parse ch mc p e = Inr e'" "runs e' = runs e @ [(ch, Run cl)]"
    "ch_response (channels e' ch) = Some r"
    "error_code p \<noteq> 0 \<Longrightarrow> GetErrorCode (controllers e' mc) = sint (error_code p)
      \<and> GetErrorInfo (controllers e' mc) = getErrorInfo (sint (error_code p))"
    "error_code p = 0 \<Longrightarrow> controllers e' = controllers e"
proof -
  obtain e' where e: "on_reply parse ch mc p e = Inr e'" "runs e' = runs e @ [(ch, Run cl)]"
    "channels e' = (channels e)(ch := (channels e ch)\<lparr>ch_response := Some r\<rparr>)"
    "controllers e' = (controllers e)(mc := outcome p (controllers e mc))"
    by (rule on_reply_completes [where parse = parse, OF assms])
  show thesis by (rule that [OF e(1,2)]) (simp_all add: e(3,4) outcome_def controller_defs)
qed

text \<open>C12.
  A readable reply to a call that has not timed out completes it, once: the response is
  parsed, a non-zero error code of the reply is put into the controller with its text, the
  closure is called, and whatever happens afterwards it is not called again.
\<close>

theorem reply_completes_call:
  assumes "after_calls sys c" "read_dones c (msg_id p) = Some (Call_done (On_reply ch mc))"
    "ch_controller (channels (c_env c) ch) = Some mc" "\<not> is_cancle (controllers (c_env c) mc)"
    "ch_response (channels (c_env c) ch) \<noteq> None" "ch_closure (channels (c_env c) ch) = Some cl"
    "sys_parse sys (pb_data p) = (True, r)"
  shows "\<exists>c'. call_act sys (Reply p) c = Inr c' \<and> runs (c_env c') = runs (c_env c) @ [(ch, Run cl)]
    \<and> ch_response (channels (c_env c') ch) = Some r
    \<and> (error_code p \<noteq> 0 \<longrightarrow> GetErrorCode (controllers (c_env c') mc) = sint (error_code p)
        \<and> GetErrorInfo (controllers (c_env c') mc) = getErrorInfo (sint (error_code p)))
    \<and> (error_code p = 0 \<longrightarrow> controllers (c_env c') = controllers (c_env c))
    \<and> (\<forall>as c''. foldR (call_act sys) as c' = Inr c'' \<longrightarrow> length (filter (\<lambda>x. fst x = ch) (runs (c_env c''))) = 1)"
proof -
  have inv: "call_inv (write_dones c) (read_dones c) [] (c_env c)" and nl: "\<not> read_locked c"
    using after_calls_ok [OF assms(1)] by (auto simp: calls_ok_def)
  have ok: "chan_ok (write_dones c) (read_dones c) [] (c_env c) ch" by (rule call_invD(2) [OF inv])
  have w: "waits (read_dones c) (msg_id p) ch" using assms(2) by (simp add: waits_def)
  then obtain loop ev where t: "ch_timer (channels (c_env c) ch) = Some (loop, ev)"
    using ok by (cases "ch_timer (channels (c_env c) ch)") (auto simp: chan_ok_def)
  have "can_run (write_dones c) (read_dones c) [] (c_env c) ch"
    using w assms(3,4) by (auto simp: can_run_def canceled_def)
  then have none: "nruns (c_env c) ch = 0" using ok by (auto simp: chan_ok_def split: if_splits)
  obtain e' where r: "on_reply (sys_parse sys) ch mc p (c_env c) = Inr e'"
    and rn: "runs e' = runs (c_env c) @ [(ch, Run cl)]" and rs: "ch_response (channels e' ch) = Some r"
    and er: "error_code p \<noteq> 0 \<Longrightarrow> GetErrorCode (controllers e' mc) = sint (error_code p)
      \<and> GetErrorInfo (controllers e' mc) = getErrorInfo (sint (error_code p))"
      "error_code p = 0 \<Longrightarrow> controllers e' = controllers (c_env c)"
    by (rule on_reply_runs [where parse = "sys_parse sys" and p = p, OF t assms(3-7)]) (rule that)
  let ?c' = "c\<lparr>c_env := e', read_dones := (read_dones c)(msg_id p := None), read_locked := False\<rparr>"
  have step: "call_act sys (Reply p) c = Inr ?c'"
    using assms(2) nl r by (simp add: reply_step_def)
  note i = inv_reply [OF inv assms(2) r]
  have ok1: "calls_ok ?c'" and sp: "call_spent ?c' ch" using i(1,3) by (simp_all add: calls_ok_def call_spent_def)
  have one: "nruns (c_env ?c') ch = 1" using none rn by (simp add: nruns_def)
  have "length (filter (\<lambda>x. fst x = ch) (runs (c_env c''))) = 1" if "foldR (call_act sys) as ?c' = Inr c''" for as c''
    using acts_ok [OF ok1 that] sp one by (simp add: nruns_def)
  then show ?thesis using step rn rs er by (intro exI [of _ ?c']) simp
qed

lemma timeouts_run:
  assumes "(ch, mc) \<in> set ts" "ch_closure (channels e ch) = Some cl"
  shows "(ch, Run cl) \<in> set (runs (fold on_timeout ts (e :: ('q, 'r, 'f) rpc_env)))
    \<and> GetErrorCode (controllers (fold on_timeout ts e) mc) = ERROR_RPC_CALL_TIMEOUT
    \<and> IsCanceled (controllers (fold on_timeout ts e) mc)"
proof -
  have k1: "x \<in> set (runs e) \<Longrightarrow> x \<in> set (runs (on_timeout t e))" for x e t
    by (cases t) (use on_timeout_effect(3) [of "fst t" "snd t" e] in auto)
  have keep: "x \<in> set (runs e) \<Longrightarrow> x \<in> set (runs (fold on_timeout ts e))" for x e ts
    by (induction ts arbitrary: e) (simp_all add: k1)
  define ended where "ended e \<longleftrightarrow> GetErrorCode (controllers e mc) = ERROR_RPC_CALL_TIMEOUT \<and> IsCanceled (controllers e mc)"
    for e :: "('q, 'r, 'f) rpc_env"
  have k2: "ended (on_timeout (a, b) e)" if "ended e \<or> b = mc" for a b e
    using that by (auto simp: ended_def on_timeout_def on_controller_def controller_defs Let_def)
  have kc: "ended (fold on_timeout ts e)" if "ended e" for e ts
    using that by (induction ts arbitrary: e) (auto simp: k2)
  show ?thesis using assms
  proof (induction ts arbitrary: e)
    case (Cons t ts)
    show ?case
    proof (cases "t = (ch, mc)")
      case True
      let ?e = "on_timeout (ch, mc) e"
      have "(ch, Run cl) \<in> set (runs ?e)" using Cons.prems(2) by (simp add: on_timeout_def run_closure_def)
      moreover have "ended ?e" by (rule k2) simp
      ultimately show ?thesis using keep kc [of ?e ts] True by (simp add: ended_def)
    next
      case False
      obtain a b where "t = (a, b)" by fastforce
      moreover have "(ch, mc) \<in> set ts" using Cons.prems(1) False by auto
      ultimately show ?thesis using Cons.IH [of "on_timeout t e"] Cons.prems(2) by (simp add: on_timeout_effect(1))
    qed
  qed simp
qed

text \<open>C13.
  A call without a reply ends with its time-out, once: when the loop's timer fires after the
  call's time, the closure is called with the time-out error in the controller, and
  whatever happens afterwards (a late reply included) it is not called again.
\<close>

theorem timeout_completes_call:
  assumes "after_calls sys c" "ch_timer (channels (c_env c) ch) = Some (loop, ev)" "ev \<in> pending (timers (c_env c) loop)"
    "\<not> is_cancled (store (timers (c_env c) loop) ev)"
    "arrive_time (store (timers (c_env c) loop) ev) \<le> sys_clock sys (clk (timers (c_env c) loop))"
    "ch_closure (channels (c_env c) ch) = Some cl" "ch_controller (channels (c_env c) ch) = Some mc"
  shows "\<exists>c'. call_act sys (Fire loop) c = Inr c' \<and> (ch, Run cl) \<in> set (runs (c_env c'))
    \<and> GetErrorCode (controllers (c_env c') mc) = ERROR_RPC_CALL_TIMEOUT \<and> IsCanceled (controllers (c_env c') mc)
    \<and> (\<forall>as c''. foldR (call_act sys) as c' = Inr c'' \<longrightarrow> length (filter (\<lambda>x. fst x = ch) (runs (c_env c''))) = 1)"
proof -
  note ok = after_calls_ok [OF assms(1)]
  have inv: "call_inv (write_dones c) (read_dones c) [] (c_env c)" using ok by (simp add: calls_ok_def)
  let ?s = "timers (c_env c) loop"
  note d = timers_okD [OF call_invD(1) [OF inv]]
  obtain ts tq where o: "onTime (cfg_timeout (sys_cfg sys)) (sys_clock sys) ?s = (ts, tq)" by fastforce
  have p: "\<not> is_repeated (store ?s v) \<and> ev_task (store ?s v) \<noteq> None" if "v \<in> pending ?s" for v
    using d(2,3) [OF that] by auto
  obtain ex where x: "ex = takeWhile (\<lambda>p. fst p \<le> sys_clock sys (clk ?s)) (pending_events ?s)"
    "ts = map (\<lambda>v. the (ev_task (store ?s v))) (filter (\<lambda>v. \<not> is_cancled (store ?s v)) (map snd ex))"
    using onTime_once [OF p o] by blast
  have "ev \<in> snd ` set ex"
    using split_expired(2) [OF d(5), where now = "sys_clock sys (clk ?s)"] assms(3,5) unfolding x(1) by blast
  moreover have "ev_task (store ?s ev) = Some (ch, mc)"
    using d(3) [OF assms(3)] d(6) [OF assms(2)] assms(7) by fastforce
  ultimately have m: "(ch, mc) \<in> set ts" using assms(4) unfolding x(2) by force
  let ?e = "on_timers loop (\<lambda>_. tq) (c_env c)"
  let ?c' = "c\<lparr>c_env := fold on_timeout ts ?e\<rparr>"
  have step: "call_act sys (Fire loop) c = Inr ?c'" using o by (simp add: timers_fire_def)
  have r: "(ch, Run cl) \<in> set (runs (c_env ?c'))"
    "GetErrorCode (controllers (c_env ?c') mc) = ERROR_RPC_CALL_TIMEOUT" "IsCanceled (controllers (c_env ?c') mc)"
    using timeouts_run [OF m, of ?e cl] assms(6) by simp_all
  have ok1: "calls_ok ?c'" using act_ok [OF ok step] by blast
  have "0 < nruns (c_env ?c') ch" using r(1) by (force simp: nruns_def filter_empty_conv)
  then have one: "nruns (c_env ?c') ch = 1" using nruns_le [OF ok1, of ch] by simp
  have ok2: "chan_ok (write_dones ?c') (read_dones ?c') [] (c_env ?c') ch"
    using ok1 by (auto simp: calls_ok_def call_inv_def)
  have sp: "call_spent ?c' ch" using ok2 one by (auto simp: call_spent_def spent_def chan_ok_def split: if_splits)
  have "length (filter (\<lambda>x. fst x = ch) (runs (c_env c''))) = 1" if "foldR (call_act sys) as ?c' = Inr c''" for as c''
    using acts_ok [OF ok1 that] sp one by (simp add: nruns_def)
  then show ?thesis using step r by blast
qed

section \<open>Sample\<close>

text \<open>One connection, one channel whose closure calls 42; replies are parsed unless they are empty.\<close>

definition sample_sys :: "(string, string, int \<Rightarrow> 32 word option) rpc_sys" where
  "sample_sys = \<lparr>sys_inet = (\<lambda>_. 0), sys_cfg = sample_config\<lparr>cfg_ioThread := 1\<rparr>, sys_epoll = map_ctl,
    sys_clock = (\<lambda>n. int n * 1000), sys_serialize = (\<lambda>q. (True, q)), sys_parse = (\<lambda>d. (d \<noteq> [], d))\<rparr>"

definition sample_env :: "(string, string, nat) rpc_env" where
  "sample_env = \<lparr>server_conns = [], keepalive_count = (\<lambda>_. 0),
    controllers = (\<lambda>_. RpcController_new (\<lambda>_. 0) sample_config),
    channels = (\<lambda>_. channel_init (Some 0) (Some []) (Some []) (Some (RpcClosure_new (Some 42))) RpcChannel_new),
    timers = (\<lambda>_. \<lparr>pending_events = [], store = (\<lambda>_. \<lparr>arrive_time = 0, interval = 0, is_repeated = False,
      is_cancled = False, ev_task = None\<rparr>), next_event = 0, armed = None, clk = 0\<rparr>), runs = []\<rparr>"

type_synonym sample_conn_t = "(string, string, nat, int \<Rightarrow> 32 word option) rpc_conn"

definition sample_rpc_conn :: sample_conn_t where
  "sample_rpc_conn = Connection_new \<lparr>sk_fd = 7, sk_ip = [], sk_port = 0, sk_opts = []\<rparr> ConnectionByClient Map.empty sample_env"

definition sample_req :: tinypb where
  "sample_req = TinyPB_new\<lparr>msg_id := ''7'', method_name := ''Echo.echo'', pb_data := ''ab''\<rparr>"

definition sample_call :: "call_event list" where
  "sample_call = [Issue 0 0 0 sample_req, Flush]"

lemma sample_no_calls: "no_calls sample_rpc_conn"
  by (simp add: no_calls_def sample_rpc_conn_def Connection_new_def sample_env_def channel_init_def RpcChannel_new_def)

lemmas sample_defs = sample_rpc_conn_def Connection_new_def sample_env_def channel_init_def RpcChannel_new_def
  RpcController_new_def sample_sys_def sample_config_def

lemma sample_issue:
  "\<exists>c ch k. call_act sample_sys (Issue 0 0 0 sample_req) sample_rpc_conn = Inr c
    \<and> write_dones c = [(sample_req, Call_done (On_sent 0 0))] \<and> read_dones c = Map.empty
    \<and> \<not> write_locked c \<and> outputbuffer c = Buffer_new
    \<and> c_channel c = ch \<and> c_kernel c = k \<and> inepoll ch \<and> k (ch_fd ch) \<noteq> None
    \<and> runs (c_env c) = [] \<and> ch_timer (channels (c_env c) 0) = Some (0, 0)
    \<and> ch_controller (channels (c_env c) 0) = Some 0 \<and> ch_closure (channels (c_env c) 0) = Some \<lparr>cb = Some 42\<rparr>
    \<and> ch_response (channels (c_env c) 0) = Some [] \<and> \<not> is_cancle (controllers (c_env c) 0)
    \<and> pending_events (timers (c_env c) 0) = [(1000, 0)] \<and> clk (timers (c_env c) 0) = 2
    \<and> arrive_time (store (timers (c_env c) 0) 0) = 1000 \<and> \<not> is_cancled (store (timers (c_env c) 0) 0)"
  by (simp add: sample_defs fresh_channel_def RpcClosure_new_def issue_call_def TimeEvent_new_def resetEvent_def
      gettimeofday_def GetTimeOut_def addTimerEvent_def Time_resetArriveTime_def timerfd_settime_def timespec_of_def
      pushSendMessage_def conn_enableWriting_def on_channel_def enableWriting_def setChannel_def useET_def
      Channel_new_def Let_def)

lemma sample_sent:
  obtains c :: sample_conn_t where
    "foldR (call_act sample_sys) sample_call sample_rpc_conn = Inr c" "after_calls sample_sys c" "read_dones c ''7'' = Some (Call_done (On_reply 0 0))"
    "runs (c_env c) = []" "ch_timer (channels (c_env c) 0) = Some (0, 0)"
    "ch_controller (channels (c_env c) 0) = Some 0" "ch_closure (channels (c_env c) 0) = Some \<lparr>cb = Some 42\<rparr>"
    "ch_response (channels (c_env c) 0) = Some []" "\<not> is_cancle (controllers (c_env c) 0)"
    "pending_events (timers (c_env c) 0) = [(1000, 0)]" "clk (timers (c_env c) 0) = 2"
    "arrive_time (store (timers (c_env c) 0) 0) = 1000" "\<not> is_cancled (store (timers (c_env c) 0) 0)"
proof -
  from sample_issue obtain c ch k where c: "call_act sample_sys (Issue 0 0 0 sample_req) sample_rpc_conn = Inr c"
    "write_dones c = [(sample_req, Call_done (On_sent 0 0))]" "read_dones c = Map.empty"
    "\<not> write_locked c" "outputbuffer c = Buffer_new"
    "c_channel c = ch" "c_kernel c = k" "inepoll ch" "k (ch_fd ch) \<noteq> None" "runs (c_env c) = []"
    "ch_timer (channels (c_env c) 0) = Some (0, 0)"
    "ch_controller (channels (c_env c) 0) = Some 0" "ch_closure (channels (c_env c) 0) = Some \<lparr>cb = Some 42\<rparr>"
    "ch_response (channels (c_env c) 0) = Some []" "\<not> is_cancle (controllers (c_env c) 0)"
    "pending_events (timers (c_env c) 0) = [(1000, 0)]" "clk (timers (c_env c) 0) = 2"
    "arrive_time (store (timers (c_env c) 0) 0) = 1000" "\<not> is_cancled (store (timers (c_env c) 0) 0)"
    by blast
  have nl: "\<not> read_locked c" using act_ok [OF no_calls_ok [OF sample_no_calls] c(1)] by (simp add: calls_ok_def)
  have r: "default_id sample_req = sample_req" "package_length sample_req = 35" "msg_id sample_req = ''7''"
    by (simp_all add: default_id_def sample_req_def package_length_def TinyPB_new_def)
  then obtain b where b: "encode [sample_req] Buffer_new = Inr ([sample_req], b)"
    using encode_ok [of Buffer_new "[sample_req]"] by (auto simp: MAX_SIZE_def)
  let ?c = "(c\<lparr>write_locked := True, read_dones := [''7'' \<mapsto> Call_done (On_reply 0 0)],
    c_channel := ch\<lparr>events := events ch OR EPOLLIN\<rparr>, c_kernel := k(ch_fd ch \<mapsto> events ch OR EPOLLIN)\<rparr>)
    \<lparr>write_dones := [], write_locked := False, outputbuffer := b\<rparr>"
  have "call_act sample_sys Flush c = Inr ?c"
    using c(2-9) nl r b by (auto simp: flush_requests_def pushReadMessage_def conn_enableReading_def on_channel_def
        enableReading_def setChannel_def sample_sys_def)
  then have run: "foldR (call_act sample_sys) sample_call sample_rpc_conn = Inr ?c"
    using c(1) by (simp add: sample_call_def del: call_act.simps)
  then have "after_calls sample_sys ?c" unfolding after_calls_def using sample_no_calls by blast
  then show thesis using c run by (intro that [of ?c]) simp_all
qed


text \<open>An empty reply cannot be parsed; the later time-out and a second reply change nothing.\<close>

lemma unreadable_reply_never_completes_witness:
  "\<exists>c :: sample_conn_t. read_dones c ''7'' = Some (Call_done (On_reply 0 0))
    \<and> (\<forall>c'. \<not> (foldR (call_act sample_sys) (Reply (TinyPB_new\<lparr>msg_id := ''7''\<rparr>)
        # [Fire 0, Reply (sample_req\<lparr>error_code := 0\<rparr>)]) c = Inr c' \<and> 0 \<in> fst ` set (runs (c_env c'))))"
proof -
  let ?p = "TinyPB_new\<lparr>msg_id := ''7''\<rparr>"
  obtain c :: sample_conn_t where c: "after_calls sample_sys c" "read_dones c ''7'' = Some (Call_done (On_reply 0 0))"
    "runs (c_env c) = []" by (rule sample_sent)
  have "read_dones c (msg_id ?p) = Some (Call_done (On_reply 0 0))" "0 \<notin> fst ` set (runs (c_env c))"
    "\<not> fst (sys_parse sample_sys (pb_data ?p))"
    using c(2,3) by (simp_all add: sample_sys_def TinyPB_new_def)
  from unreadable_reply_never_completes [OF c(1) this] c(2) show ?thesis by blast
qed

lemma reply_completes_call_witness:
  "\<exists>(c :: sample_conn_t) c'. after_calls sample_sys c \<and> call_act sample_sys (Reply (sample_req\<lparr>error_code := 5\<rparr>)) c = Inr c'
    \<and> runs (c_env c') = [(0, [42])] \<and> ch_response (channels (c_env c') 0) = Some ''ab''
    \<and> GetErrorCode (controllers (c_env c') 0) = 5"
proof -
  let ?p = "sample_req\<lparr>error_code := 5\<rparr>"
  obtain c :: sample_conn_t where c: "after_calls sample_sys c" "read_dones c ''7'' = Some (Call_done (On_reply 0 0))"
    "runs (c_env c) = []" "ch_controller (channels (c_env c) 0) = Some 0"
    "ch_closure (channels (c_env c) 0) = Some \<lparr>cb = Some 42\<rparr>" "ch_response (channels (c_env c) 0) = Some []"
    "\<not> is_cancle (controllers (c_env c) 0)" by (rule sample_sent)
  have "read_dones c (msg_id ?p) = Some (Call_done (On_reply 0 0))" "ch_response (channels (c_env c) 0) \<noteq> None"
    "sys_parse sample_sys (pb_data ?p) = (True, ''ab'')"
    using c(2,6) by (simp_all add: sample_sys_def sample_req_def TinyPB_new_def)
  from reply_completes_call [OF c(1) this(1) c(4,7) this(2) c(5) this(3)] c(1,3)
  show ?thesis by (auto simp: Run_def)
qed

lemma timeout_completes_call_witness:
  "\<exists>(c :: sample_conn_t) c'. after_calls sample_sys c \<and> call_act sample_sys (Fire 0) c = Inr c' \<and> (0, [42]) \<in> set (runs (c_env c'))
    \<and> GetErrorCode (controllers (c_env c') 0) = ERROR_RPC_CALL_TIMEOUT"
proof -
  obtain c :: sample_conn_t where c: "after_calls sample_sys c" "ch_timer (channels (c_env c) 0) = Some (0, 0)"
    "ch_controller (channels (c_env c) 0) = Some 0" "ch_closure (channels (c_env c) 0) = Some \<lparr>cb = Some 42\<rparr>"
    "pending_events (timers (c_env c) 0) = [(1000, 0)]" "clk (timers (c_env c) 0) = 2"
    "arrive_time (store (timers (c_env c) 0) 0) = 1000" "\<not> is_cancled (store (timers (c_env c) 0) 0)"
    by (rule sample_sent)
  have "0 \<in> pending (timers (c_env c) 0)"
    "arrive_time (store (timers (c_env c) 0) 0) \<le> sys_clock sample_sys (clk (timers (c_env c) 0))"
    using c(5-7) by (simp_all add: pending_def sample_sys_def)
  from timeout_completes_call [OF c(1,2) this(1) c(8) this(2) c(4,3)] c(1) show ?thesis by (auto simp: Run_def)
qed

section \<open>Calls that fail at once\<close>

lemma getConnection_outcome:
  assumes "getConnection inet_addr cfg fd connect k name (s, l) = Inr (peer, s', l')"
  shows "s' = s \<or> (\<exists>sock j. add_connection cfg sock k name s = Inr (j, s'))"
    "map_of (server_conns (client_env s)) name = None \<Longrightarrow> (\<And>a. connect a = Connect_failed) \<Longrightarrow> peer = None"
proof -
  have "(s' = s \<or> (\<exists>sock j. add_connection cfg sock k name s = Inr (j, s')))
    \<and> (map_of (server_conns (client_env s)) name = None \<longrightarrow> (\<forall>a. connect a = Connect_failed) \<longrightarrow> peer = None)"
  proof (cases "map_of (server_conns (client_env s)) name \<noteq> None \<and> keepalive_count (client_env s) name < 3")
    case True
    then show ?thesis using assms by (auto simp: getConnection_def Let_def)
  next
    case False
    obtain addr pt l1 where g: "getServerAddr name l = Inr ((addr, pt), l1)"
      using assms False by (auto simp: getConnection_def Let_def simp del: not_None_eq)
    obtain fd1 where f: "createNonblokingSock fd = Inr fd1"
      using assms False g by (auto simp: getConnection_def Let_def simp del: not_None_eq)
    obtain sock where k: "Socket_new fd1 = Inr sock"
      using assms False g f by (auto simp: getConnection_def Let_def simp del: not_None_eq)
    let ?made = "bindR (add_connection cfg sock k name s) (\<lambda>(i, s). Inr (Some i, s, l1))"
    have eq: "(case connect (InterAddress_new inet_addr addr pt) of
        Connected \<Rightarrow> ?made
      | In_progress rc isset _ \<Rightarrow>
          if FD_SETSIZE \<le> sk_fd sock then Inl Out_of_bounds
          else if rc < 0 then Inr (None, s, l1)
          else if rc = 0 then Inr (None, s, l1)
          else if rc = 1 \<and> isset then ?made
          else Inr (None, s, l1)
      | Connect_failed \<Rightarrow> Inr (None, s, l1)) = Inr (peer, s', l')"
      using assms False g f k by (simp add: getConnection_def Let_def del: not_None_eq)
    show ?thesis
    proof (cases "connect (InterAddress_new inet_addr addr pt)")
      case Connected
      then have "?made = Inr (peer, s', l')" using eq by simp
      then show ?thesis using Connected by fastforce
    next
      case (In_progress rc isset err)
      then have "s' = s \<or> ?made = Inr (peer, s', l')" using eq by (simp split: if_splits)
      then show ?thesis using In_progress by fastforce
    next
      case Connect_failed
      then show ?thesis using eq by simp
    qed
  qed
  then show "s' = s \<or> (\<exists>sock j. add_connection cfg sock k name s = Inr (j, s'))"
    "map_of (server_conns (client_env s)) name = None \<Longrightarrow> (\<And>a. connect a = Connect_failed) \<Longrightarrow> peer = None"
    by blast+
qed

lemma add_connection_keeps:
  assumes "add_connection cfg sock k name s = Inr (j, s')"
  shows "channels (client_env s') = channels (client_env s)" "controllers (client_env s') = controllers (client_env s)"
    "timers (client_env s') = timers (client_env s)" "runs (client_env s') = runs (client_env s)"
    "write_dones (client_conns s' i) = write_dones (client_conns s i) \<or> write_dones (client_conns s' i) = []"
  using assms by (auto simp: add_connection_def Let_def Connection_new_def)

lemma getConnection_keeps:
  assumes "getConnection inet_addr cfg fd connect k name (s, l) = Inr (peer, s', l')"
  shows "channels (client_env s') = channels (client_env s)" "controllers (client_env s') = controllers (client_env s)"
    "timers (client_env s') = timers (client_env s)" "runs (client_env s') = runs (client_env s)"
    "write_dones (client_conns s' i) = write_dones (client_conns s i) \<or> write_dones (client_conns s' i) = []"
  using getConnection_outcome(1) [OF assms] by (auto dest: add_connection_keeps)

lemma with_env_simps [simp]:
  "client_env (with_env f s) = f (client_env s)" "client_conns (with_env f s) = client_conns s"
  by (simp_all add: with_env_def)


definition sample_rpc_client :: "(call_done, int \<Rightarrow> 32 word option, (string, string, nat) env_more) tcp_client" where
  "sample_rpc_client = \<lparr>client_env = sample_env, client_conns = (\<lambda>_. sample_rpc_conn), conn_loop = (\<lambda>_. 0), next_conn = 0\<rparr>"


end
