(* ===== verification/Output.thy ===== *)
theory Output
  imports Connection
begin

text \<open>
  The output side of a connection as a whole: what \<open>send\<close> and the writable events of
  \<open>src/net/Connection.cpp\<close> do to the stream of bytes the peer gets, in any order and
  with any answers of the kernel.
\<close>

section \<open>Changing the mask of a channel\<close>

lemma on_channel_mask:
  assumes "kernel_ok ctl watched" "in_sync watched (c_channel c, c_kernel c)"
  shows "\<exists>ch k. on_channel (\<lambda>(x, k). setChannel ctl (x\<lparr>events := f (events x)\<rparr>, k)) c = Inr (c\<lparr>c_channel := ch, c_kernel := k\<rparr>)
    \<and> in_sync watched (ch, k)"
proof -
  have "in_sync watched ((c_channel c)\<lparr>events := f (events (c_channel c))\<rparr>, c_kernel c)"
    using assms(2) by (simp add: in_sync_def)
  then obtain ch k where "setChannel ctl ((c_channel c)\<lparr>events := f (events (c_channel c))\<rparr>, c_kernel c) = Inr (ch, k)"
    "in_sync watched (ch, k)" using setChannel_sync [OF assms(1)] by metis
  then show ?thesis by (intro exI [of _ ch] exI [of _ k]) (simp add: on_channel_def)
qed

lemmas channel_masks = conn_enableReading_def conn_disableWriting_def enableReading_def disableWriting_def

section \<open>Runs\<close>

text \<open>
  The events of a server's connection that touch its output: a task of its loop that sends
  packages (\<open>regSend\<close>), and a writable event with the answers of the kernel to its writes.
\<close>

datatype out_event = Reg_send "tinypb list" | Writable "nat \<Rightarrow> write_answer"

fun out_act :: "'k epoll_ctl \<Rightarrow> ('d, 'k, 'u) done_exec \<Rightarrow> out_event \<Rightarrow> ('d, 'k, 'u) conn \<Rightarrow> ('d, 'k, 'u) conn res option" where
  "out_act ctl exec (Reg_send pkgs) c = Some (regSend ctl pkgs c)"
| "out_act ctl exec (Writable ans) c = sendMessage ctl exec ans c"

abbreviation out_run :: "'k epoll_ctl \<Rightarrow> ('d, 'k, 'u) done_exec \<Rightarrow> out_event list \<Rightarrow> ('d, 'k, 'u) conn \<Rightarrow> ('d, 'k, 'u) conn res option" where
  "out_run ctl exec \<equiv> run_events (out_act ctl exec)"

fun packages_of :: "out_event \<Rightarrow> tinypb list" where
  "packages_of (Reg_send pkgs) = pkgs"
| "packages_of (Writable ans) = []"

text \<open>All bytes a connection has to bring to its peer, those the kernel has and those it keeps.\<close>

definition out_bytes :: "('d, 'k, 'u) conn \<Rightarrow> char list" where
  "out_bytes c = c_sent c @ contents (outputbuffer c)"

definition out_open :: "('k \<Rightarrow> int \<Rightarrow> 32 word option) \<Rightarrow> ('d, 'k, 'u) conn \<Rightarrow> bool" where
  "out_open watched c \<longleftrightarrow> \<not> disConnect c \<and> buffer_wf (outputbuffer c)
    \<and> in_sync watched (c_channel c, c_kernel c)
    \<and> (contents (outputbuffer c) \<noteq> [] \<longrightarrow>
        (\<exists>m. watched (c_kernel c) (ch_fd (c_channel c)) = Some m \<and> m AND EPOLLOUT = EPOLLOUT))"

definition out_ok :: "('k \<Rightarrow> int \<Rightarrow> 32 word option) \<Rightarrow> ('d, 'k, 'u) conn \<Rightarrow> bool" where
  "out_ok watched c \<longleftrightarrow> out_open watched c \<and> c_type c = ConnectionByServer"

lemma or_epollout: "(m OR EPOLLOUT) AND EPOLLOUT = EPOLLOUT"
  by (auto simp: bit_eq_iff bit_and_iff bit_or_iff)

section \<open>What the steps keep\<close>

lemma set_mask:
  assumes "kernel_ok ctl watched" "in_sync watched (c_channel c, c_kernel c)"
    "on_channel (\<lambda>(x, k). setChannel ctl (x\<lparr>events := f (events x)\<rparr>, k)) c = Inr c'"
  obtains ch k where "c' = c\<lparr>c_channel := ch, c_kernel := k\<rparr>" "in_sync watched (ch, k)"
    "ch_fd ch = ch_fd (c_channel c)" "watched k (ch_fd ch) = Some (f (events (c_channel c)))"
proof -
  have "in_sync watched ((c_channel c)\<lparr>events := f (events (c_channel c))\<rparr>, c_kernel c)"
    using assms(2) by (simp add: in_sync_def)
  from setChannel_sync [OF assms(1) this] obtain ch k where
    "setChannel ctl ((c_channel c)\<lparr>events := f (events (c_channel c))\<rparr>, c_kernel c) = Inr (ch, k)"
    "ch = (c_channel c)\<lparr>events := f (events (c_channel c)), inepoll := True\<rparr>"
    "watched k = (watched (c_kernel c))(ch_fd (c_channel c) \<mapsto> f (events (c_channel c)))" "in_sync watched (ch, k)" by auto
  then show thesis using assms(3) by (intro that [of k ch]) (auto simp: on_channel_def)
qed

lemma enableWriting_mask:
  assumes "kernel_ok ctl watched" "in_sync watched (c_channel c, c_kernel c)" "conn_enableWriting ctl c = Inr c'"
  obtains ch k where "c' = c\<lparr>c_channel := ch, c_kernel := k\<rparr>" "in_sync watched (ch, k)"
    "ch_fd ch = ch_fd (c_channel c)" "watched k (ch_fd ch) = Some (events (c_channel c) OR EPOLLOUT)"
  by (rule set_mask [OF assms(1,2) assms(3) [unfolded conn_enableWriting_def enableWriting_def]]) (rule that)

lemma disableWriting_mask:
  assumes "kernel_ok ctl watched" "in_sync watched (c_channel c, c_kernel c)" "conn_disableWriting ctl c = Inr c'"
  obtains ch k where "c' = c\<lparr>c_channel := ch, c_kernel := k\<rparr>" "in_sync watched (ch, k)" "ch_fd ch = ch_fd (c_channel c)"
  by (rule set_mask [OF assms(1,2) assms(3) [unfolded channel_masks]]) (rule that)

lemma regSend_out:
  assumes "out_ok watched c" "kernel_ok ctl watched" "regSend ctl pkgs c = Inr c'"
  shows "out_ok watched c' \<and> out_bytes c' = out_bytes c @ concat (map (\<lambda>p. frame (default_id p)) pkgs)"
proof -
  note ok = assms(1) [unfolded out_ok_def out_open_def]
  obtain pkgs' b where b: "encode pkgs (outputbuffer c) = Inr (pkgs', b)"
    "conn_enableWriting ctl (c\<lparr>outputbuffer := b\<rparr>) = Inr c'"
    using assms(3) ok by (auto simp: regSend_def)
  have e: "buffer_wf b" "contents b = contents (outputbuffer c) @ concat (map frame (map default_id pkgs))"
    using encode_Inr [OF _ b(1)] ok by auto
  have i: "in_sync watched (c_channel (c\<lparr>outputbuffer := b\<rparr>), c_kernel (c\<lparr>outputbuffer := b\<rparr>))" using ok by simp
  obtain ch k where c': "c' = c\<lparr>outputbuffer := b, c_channel := ch, c_kernel := k\<rparr>" "in_sync watched (ch, k)"
    "ch_fd ch = ch_fd (c_channel (c\<lparr>outputbuffer := b\<rparr>))"
    "watched k (ch_fd ch) = Some (events (c_channel (c\<lparr>outputbuffer := b\<rparr>)) OR EPOLLOUT)"
    by (rule enableWriting_mask [OF assms(2) i b(2)])
  have "contents b = contents (outputbuffer c) @ concat (map (\<lambda>p. frame (default_id p)) pkgs)"
    using e(2) by (simp add: comp_def)
  then show ?thesis using ok e(1) c' or_epollout by (auto simp: out_ok_def out_open_def out_bytes_def)
qed

text \<open>A round of the writing loop moves bytes from the buffer to the kernel, in order.\<close>

lemma write_round_more:
  assumes "out_open watched c" "write_round ctl a c = Inr c'"
  shows "out_open watched c' \<and> out_bytes c' = out_bytes c \<and> c_type c' = c_type c"
proof -
  note ok = assms(1) [unfolded out_open_def]
  obtain n t b where w: "writeFd a (outputbuffer c) = Inr (n, t, b)"
    and c': "c' = c\<lparr>c_sent := c_sent c @ take (nat n) (contents (outputbuffer c)), outputbuffer := b\<rparr>"
    using assms(2) by (auto simp: write_round_def Let_def split: sum.splits if_splits)
  have "buffer_wf b \<and> contents b = drop (nat n) (contents (outputbuffer c))"
    using w ok retrieve_Inr [of "outputbuffer c"] by (auto simp: writeFd_def split: write_answer.splits)
  then show ?thesis using ok c' by (auto simp: out_open_def out_bytes_def)
qed

lemma write_round_end:
  assumes "out_open watched c" "kernel_ok ctl watched" "write_round ctl a c = Inl (Inr c')"
  shows "out_open watched c' \<and> out_bytes c' = out_bytes c \<and> c_type c' = c_type c"
proof -
  note ok = assms(1) [unfolded out_open_def]
  obtain n t b where w: "writeFd a (outputbuffer c) = Inr (n, t, b)"
    using assms(3) by (cases "writeFd a (outputbuffer c)") (auto simp: write_round_def)
  have b: "buffer_wf b" "contents b = drop (nat n) (contents (outputbuffer c))"
    using w ok retrieve_Inr [of "outputbuffer c"] by (auto simp: writeFd_def split: write_answer.splits)
  let ?c = "c\<lparr>c_sent := c_sent c @ take (nat n) (contents (outputbuffer c)), outputbuffer := b\<rparr>"
  have same: "out_open watched ?c" "out_bytes ?c = out_bytes c" "c_type ?c = c_type c" using ok b by (auto simp: out_open_def out_bytes_def)
  show ?thesis
  proof (cases "readableBytes b = 0")
    case False
    then show ?thesis using assms(3) w same by (auto simp: write_round_def Let_def split: if_splits)
  next
    case True
    then have empty: "contents b = []" using b(1) by (simp add: readableBytes_wf)
    obtain c1 where c1: "conn_disableWriting ctl ?c = Inr c1" "c' = told_sent c1"
      using assms(3) w True by (auto simp: write_round_def Let_def told_sent_def)
    have "in_sync watched (c_channel ?c, c_kernel ?c)" using ok by simp
    then obtain ch k where "c1 = ?c\<lparr>c_channel := ch, c_kernel := k\<rparr>" "in_sync watched (ch, k)"
      using disableWriting_mask [OF assms(2) _ c1(1)] by metis
    then show ?thesis using ok b empty same(2) c1(2) by (auto simp: out_open_def out_bytes_def told_sent_def)
  qed
qed

lemma write_loop_out:
  assumes "write_loop ctl ans i c = Some r" "kernel_ok ctl watched" "out_open watched c" "r = Inr c'"
  shows "out_open watched c' \<and> out_bytes c' = out_bytes c \<and> c_type c' = c_type c"
proof -
  have "kernel_ok ctl watched \<longrightarrow> out_open watched c \<longrightarrow>
      (\<forall>c'. r = Inr c' \<longrightarrow> out_open watched c' \<and> out_bytes c' = out_bytes c \<and> c_type c' = c_type c)"
  proof (rule write_loop.raw_induct [where P = "\<lambda>ctl ans i c r. kernel_ok ctl watched \<longrightarrow> out_open watched c \<longrightarrow>
      (\<forall>c'. r = Inr c' \<longrightarrow> out_open watched c' \<and> out_bytes c' = out_bytes c \<and> c_type c' = c_type c)", OF _ assms(1)], intro impI allI)
    fix loop ctl ans i c r c'
    assume IH: "\<And>ctl ans i c r. loop ctl ans i c = Some r \<Longrightarrow> kernel_ok ctl watched \<longrightarrow> out_open watched c \<longrightarrow>
        (\<forall>c'. r = Inr c' \<longrightarrow> out_open watched c' \<and> out_bytes c' = out_bytes c \<and> c_type c' = c_type c)"
      and s: "(case write_round ctl (ans i) c of Inl r \<Rightarrow> Some r | Inr c \<Rightarrow> loop ctl ans (Suc i) c) = Some r"
      and ok: "kernel_ok ctl watched" "out_open watched c" and r: "r = Inr c'"
    show "out_open watched c' \<and> out_bytes c' = out_bytes c \<and> c_type c' = c_type c"
    proof (cases "write_round ctl (ans i) c")
      case (Inl x)
      then show ?thesis using s r write_round_end [OF ok(2,1)] by simp
    next
      case (Inr c1)
      have "loop ctl ans (Suc i) c1 = Some r" using s Inr by simp
      then show ?thesis using IH ok(1) r write_round_more [OF ok(2) Inr] by auto
    qed
  qed
  then show ?thesis using assms(2-4) by blast
qed

text \<open>C9.
  The output stream is exact. For every sequence of \<open>send\<close> tasks and writable events of a server's
  connection, with any answers of the kernel (errors and partial writes included), the
  bytes the kernel has taken followed by those still in the buffer are the frames of
  all packages sent, in order: nothing is lost, repeated or interleaved. As long as bytes are
  left, the kernel is asked to report when it can be written, so they are not stranded.
\<close>

theorem output_stream:
  assumes "kernel_ok ctl watched" "out_ok watched c" "out_run ctl exec es c = Some (Inr c')"
  shows "c_sent c' @ contents (outputbuffer c') = c_sent c @ contents (outputbuffer c)
      @ concat (map (\<lambda>p. frame (default_id p)) (concat (map packages_of es)))
    \<and> buffer_wf (outputbuffer c')
    \<and> (contents (outputbuffer c') \<noteq> [] \<longrightarrow>
        (\<exists>m. watched (c_kernel c') (ch_fd (c_channel c')) = Some m \<and> m AND EPOLLOUT = EPOLLOUT))"
proof -
  have "out_ok watched c' \<and> out_bytes c' = out_bytes c @ concat (map (\<lambda>p. frame (default_id p)) (concat (map packages_of es)))"
    using assms(2,3)
  proof (induction es arbitrary: c)
    case (Cons e es)
    obtain c1 where c1: "out_act ctl exec e c = Some (Inr c1)" "out_run ctl exec es c1 = Some (Inr c')"
      using Cons.prems(2) by (auto split: option.splits sum.splits)
    have "out_ok watched c1 \<and> out_bytes c1 = out_bytes c @ concat (map (\<lambda>p. frame (default_id p)) (packages_of e))"
    proof (cases e)
      case (Reg_send pkgs)
      then show ?thesis using regSend_out [OF Cons.prems(1) assms(1)] c1(1) by simp
    next
      case (Writable ans)
      have "write_loop ctl ans 0 c = Some (Inr c1)"
        using c1(1) Cons.prems(1) Writable by (simp add: sendMessage_def out_ok_def out_open_def)
      from write_loop_out [OF this assms(1) _ refl] Cons.prems(1) Writable show ?thesis by (simp add: out_ok_def)
    qed
    with Cons.IH [OF _ c1(2)] show ?case by simp
  qed simp
  then show ?thesis by (auto simp: out_ok_def out_open_def out_bytes_def)
qed

text \<open>A package of which the kernel takes five bytes.\<close>

lemma output_stream_witness:
  "\<exists>c. out_run map_ctl log_done [Reg_send [sample_msg ''1''], Writable (\<lambda>i. if i = 0 then Written 5 else Write_error EAGAIN)]
        (sample_conn ConnectionByServer) = Some (Inr c)
    \<and> c_sent c = take 5 (frame (sample_msg ''1''))
    \<and> c_sent c @ contents (outputbuffer c) = frame (sample_msg ''1'')"
proof -
  let ?c = "sample_conn ConnectionByServer"
  let ?ans = "\<lambda>i. if i = 0 then Written 5 else Write_error EAGAIN"
  let ?d = "frame (sample_msg ''1'')"
  have d: "default_id (sample_msg ''1'') = sample_msg ''1''" "length ?d = 39"
    using sample_frame by (simp_all add: default_id_def sample_msg_def)
  have ok: "out_ok (\<lambda>k. k) ?c"
    by (simp add: out_ok_def out_open_def in_sync_def sample_conn_def Connection_new_def useET_def Channel_new_def)
  obtain b where b: "encode [sample_msg ''1''] Buffer_new = Inr ([sample_msg ''1''], b)"
    using encode_ok [of Buffer_new "[sample_msg ''1'']"] d sample_frame by (auto simp: buffer_room_def MAX_SIZE_def)
  then have bc: "buffer_wf b" "contents b = ?d" using encode_Inr [OF _ b] by simp_all
  obtain c1 where c1: "regSend map_ctl [sample_msg ''1''] ?c = Inr c1" "outputbuffer c1 = b" "c_sent c1 = []"
    "\<not> disConnect c1" "c_type c1 = ConnectionByServer"
    using b by (simp add: regSend_def sample_conn_def conn_enableWriting_def on_channel_def enableWriting_def setChannel_def
        Connection_new_def useET_def Channel_new_def)
  have "takes ?ans 0 [5] ?d" using d(2) by (simp add: takes_def)
  moreover have "?d \<noteq> []" using d(2) by auto
  ultimately obtain b2 where "write_loop map_ctl ?ans 0 c1 = Some (Inr (c1\<lparr>c_sent := take 5 ?d, outputbuffer := b2\<rparr>))"
    using write_loop_takes [of c1 ?d ?ans 0 "[5]" map_ctl] c1(2,3) bc d(2) by auto
  then have r: "out_run map_ctl log_done [Reg_send [sample_msg ''1''], Writable ?ans] ?c
      = Some (Inr (c1\<lparr>c_sent := take 5 ?d, outputbuffer := b2\<rparr>))"
    using c1 by (simp add: sendMessage_def)
  have "take 5 ?d @ contents b2 = ?d" using output_stream [OF map_ctl_ok ok r] d(1) by simp
  then show ?thesis using r by (intro exI [of _ "c1\<lparr>c_sent := take 5 ?d, outputbuffer := b2\<rparr>"] conjI) simp_all
qed

end
