(* ===== verification/RpcSystem.thy ===== *)
theory RpcSystem
  imports RpcChannel TcpServer Output
begin

text \<open>
  A client and a server together. A call is sent by the client's connection, handled by the
  server's, answered, and completed by the client's callbacks; a server that registers a
  service is found by a client that watches etcd. The network hands on what a connection
  gave to its kernel, in pieces of any size.
\<close>

section \<open>Exchanging bytes\<close>

text \<open>The kernel takes exactly \<open>d\<close>; the kernel hands over exactly \<open>d\<close> and has no more.\<close>

definition sends :: "(nat \<Rightarrow> write_answer) \<Rightarrow> char list \<Rightarrow> bool" where
  "sends ans d \<longleftrightarrow> (\<exists>ns. takes ans 0 ns d \<and> sum_list ns = length d)"

definition receives :: "(nat \<Rightarrow> read_answer) \<Rightarrow> char list \<Rightarrow> bool" where
  "receives ans d \<longleftrightarrow> (\<exists>as. arrives as d \<and> (\<forall>j < length as. ans j = as ! j) \<and> ans (length as) = Read_error EAGAIN)"

text \<open>An open connection with nothing left to parse or to write.\<close>

definition idle_conn :: "('k \<Rightarrow> int \<Rightarrow> 32 word option) \<Rightarrow> ('d, 'k, 'u) conn \<Rightarrow> bool" where
  "idle_conn watched c \<longleftrightarrow> \<not> disConnect c \<and> in_sync watched (c_channel c, c_kernel c)
    \<and> buffer_wf (inputbuffer c) \<and> contents (inputbuffer c) = []
    \<and> buffer_wf (outputbuffer c) \<and> contents (outputbuffer c) = []"

text \<open>A connection that sends its whole output buffer.\<close>

lemma sendMessage_all:
  assumes "\<not> disConnect c" "(if c_type c = ConnectionByClient then flush_requests exec c else Inr c) = Inr c0"
    "buffer_wf (outputbuffer c0)" "contents (outputbuffer c0) = d" "d \<noteq> []" "sends ans d"
    "kernel_ok ctl watched" "in_sync watched (c_channel c0, c_kernel c0)"
  shows "\<exists>ch k b told. sendMessage ctl exec ans c = Some (Inr (c0\<lparr>c_sent := c_sent c0 @ d, outputbuffer := b,
      c_channel := ch, c_kernel := k, c_told := told\<rparr>))
    \<and> buffer_wf b \<and> contents b = [] \<and> in_sync watched (ch, k)"
proof -
  obtain ns where ns: "takes ans 0 ns d" "sum_list ns = length d" using assms(6) by (auto simp: sends_def)
  have "sendMessage ctl exec ans c = write_loop ctl ans 0 c0"
    using assms(1,2) by (simp add: sendMessage_def del: if_split)
  with write_loop_takes [OF assms(3-5) ns(1), of ctl] ns(2) obtain b where b: "buffer_wf b" "contents b = []"
    "sendMessage ctl exec ans c = Some (bindR (conn_disableWriting ctl (c0\<lparr>c_sent := c_sent c0 @ d, outputbuffer := b\<rparr>))
      (\<lambda>c. Inr (told_sent c)))" by auto
  have "in_sync watched (c_channel (c0\<lparr>c_sent := c_sent c0 @ d, outputbuffer := b\<rparr>),
      c_kernel (c0\<lparr>c_sent := c_sent c0 @ d, outputbuffer := b\<rparr>))" using assms(8) by simp
  from on_channel_mask [OF assms(7) this, of "\<lambda>e. e AND NOT EPOLLOUT"] obtain ch k where
    "conn_disableWriting ctl (c0\<lparr>c_sent := c_sent c0 @ d, outputbuffer := b\<rparr>)
      = Inr (c0\<lparr>c_sent := c_sent c0 @ d, outputbuffer := b, c_channel := ch, c_kernel := k\<rparr>)" "in_sync watched (ch, k)"
    unfolding channel_masks by auto
  moreover have "told_sent (c0\<lparr>c_sent := u, outputbuffer := b, c_channel := ch, c_kernel := k\<rparr>)
      = c0\<lparr>c_sent := u, outputbuffer := b, c_channel := ch, c_kernel := k,
          c_told := if sendCB c0 then c_told c0 @ [Send_finished] else c_told c0\<rparr>" for u
    by (cases c0) (simp add: told_sent_def)
  ultimately show ?thesis using b
    by (intro exI [of _ ch] exI [of _ k] exI [of _ b] exI) simp
qed

text \<open>A client connection that receives whole frames.\<close>

lemma onMessage_replies:
  assumes "c_type c = ConnectionByClient" "buffer_wf (inputbuffer c)" "contents (inputbuffer c) = []"
    "receives ans (concat (map frame ms))" "writeIndex (inputbuffer c) + length (concat (map frame ms)) \<le> DECODE_MAX"
  shows "\<exists>b. onMessage ctl onMsg exec now ans c
      = Some (foldR (reply_step exec) (map wire ms) (c\<lparr>lastTime := Some now, inputbuffer := b\<rparr>))
    \<and> buffer_wf b \<and> contents b = []"
proof -
  let ?d = "concat (map frame ms)"
  obtain as where as: "arrives as ?d" "\<forall>j < length as. ans j = as ! j" "ans (length as) = Read_error EAGAIN"
    using assms(4) unfolding receives_def by blast
  have "length ?d \<le> buffer_room (inputbuffer c)"
    using assms(5) by (simp add: buffer_room_def DECODE_MAX_def MAX_SIZE_def)
  from onMessage_loop_reads [OF as(1) _ assms(2) this, of ans 0] as(2)
  obtain b where b: "onMessage ctl onMsg exec now ans c
      = onMessage_loop ctl onMsg exec now ans (length as) (c\<lparr>inputbuffer := b\<rparr>)"
    "buffer_wf b" "contents b = ?d" "writeIndex b \<le> DECODE_MAX"
    using assms(3,5) by (fastforce simp: onMessage_def)
  obtain b' where b': "decode [] b = Some (Inr (map wire ms, b'))" "eats ?d b b'"
    using decode_whole [OF b(2,4,3), of "[]"] by auto
  have "onMessage ctl onMsg exec now ans c
      = Some (foldR (reply_step exec) (map wire ms) (c\<lparr>lastTime := Some now, inputbuffer := b'\<rparr>))"
    unfolding b(1) using assms(1) as(3) b'(1)
    by (subst onMessage_loop.simps) (simp add: read_round_def readFd_def Let_def parseMsg_def)
  moreover have "contents b' = []" using eats_rest [OF b'(2)] b(3) by simp
  ultimately show ?thesis using eats_wf [OF b'(2)] by blast
qed

section \<open>A call from end to end\<close>

text \<open>The client's part: one pending call on an idle connection, whose objects are in place.\<close>

definition call_pending :: "nat \<Rightarrow> nat \<Rightarrow> tinypb \<Rightarrow> 'f rpc_closure \<Rightarrow> ('q, 'r, 'f, 'k) rpc_conn \<Rightarrow> bool" where
  "call_pending ch mc req cl c \<longleftrightarrow> c_type c = ConnectionByClient \<and> \<not> write_locked c \<and> \<not> read_locked c
    \<and> write_dones c = [(req, Call_done (On_sent ch mc))] \<and> read_dones c (msg_id req) = None
    \<and> ch_timer (channels (c_env c) ch) \<noteq> None \<and> ch_controller (channels (c_env c) ch) = Some mc
    \<and> \<not> is_cancle (controllers (c_env c) mc) \<and> ch_response (channels (c_env c) ch) \<noteq> None
    \<and> ch_closure (channels (c_env c) ch) = Some cl"

text \<open>The server's part: what its service answers to the request.\<close>

definition service_answers :: "('m, 'q, 'r, 'k) rpc_server \<Rightarrow> socket \<Rightarrow> tinypb \<Rightarrow> string \<Rightarrow> bool" where
  "service_answers sv sock req data \<longleftrightarrow> (\<exists>sn mn svc m q. method_name req = sn @ CHR ''.'' # mn \<and> CHR ''.'' \<notin> set sn
    \<and> services sv sn = Some svc \<and> FindMethodByName svc mn = Some m \<and> ParseFromString svc m (pb_data req) = Some q
    \<and> SerializeToString svc (CallMethod svc m (SetMsgId (msg_id req) (SetPeerAddr (inet sv) (sk_ip sock) (uint (sk_port sock))
        (RpcController_new (inet sv) (config sv)))) q) = (True, data))"

definition reply_to :: "tinypb \<Rightarrow> string \<Rightarrow> tinypb" where
  "reply_to req data = TinyPB_new\<lparr>msg_type := msg_type req, msg_id := msg_id req, method_name := method_name req,
    pb_data := data, error_code := 0\<rparr>"

lemma wire_simps [simp]: "msg_id (wire p) = msg_id p" "msg_type (wire p) = msg_type p"
  "method_name (wire p) = method_name p" "pb_data (wire p) = pb_data p" "error_code (wire p) = error_code p"
  by (simp_all add: wire_def)

lemma reply_to_simps [simp]: "msg_id (reply_to req data) = msg_id req" "pb_data (reply_to req data) = data"
  "error_code (reply_to req data) = 0"
  by (simp_all add: reply_to_def)

lemma service_reply:
  assumes "service_answers sv sock req data" "msg_type req \<noteq> 1" "msg_id req \<noteq> []"
  shows "default_id (server_reply sv sock (wire req)) = reply_to req data"
proof -
  obtain sn mn svc m q where s: "method_name req = sn @ CHR ''.'' # mn" "CHR ''.'' \<notin> set sn"
    "services sv sn = Some svc" "FindMethodByName svc mn = Some m" "ParseFromString svc m (pb_data req) = Some q"
    "SerializeToString svc (CallMethod svc m (SetMsgId (msg_id req) (SetPeerAddr (inet sv) (sk_ip sock) (uint (sk_port sock))
        (RpcController_new (inet sv) (config sv)))) q) = (True, data)"
    using assms(1) unfolding service_answers_def by blast
  have "parseServiceFullName (method_name req) = Some (sn, mn)" using s(1,2) by (simp add: parseServiceFullName_split)
  then show ?thesis using s(3-6) assms(2,3)
    by (simp add: server_reply_def dispatch_def Let_def default_id_def reply_to_def TinyPB_new_def)
qed

lemma flush_call:
  assumes "call_pending ch mc req cl c" "msg_id req \<noteq> []" "buffer_wf (outputbuffer c)" "contents (outputbuffer c) = []"
    "package_length req \<le> buffer_room (outputbuffer c)" "kernel_ok (sys_epoll sys) watched"
    "in_sync watched (c_channel c, c_kernel c)"
  shows "\<exists>b chan k. flush_requests (rpc_exec sys) c = Inr (c\<lparr>write_locked := True,
      read_dones := (read_dones c)(msg_id req \<mapsto> Call_done (On_reply ch mc)), c_channel := chan, c_kernel := k,
      write_dones := [], write_locked := False, outputbuffer := b\<rparr>)
    \<and> buffer_wf b \<and> contents b = frame req \<and> in_sync watched (chan, k)"
proof -
  note c = assms(1) [unfolded call_pending_def]
  let ?c = "c\<lparr>write_locked := True, read_dones := (read_dones c)(msg_id req \<mapsto> Call_done (On_reply ch mc))\<rparr>"
  have "in_sync watched (c_channel ?c, c_kernel ?c)" using assms(7) by simp
  from on_channel_mask [OF assms(6) this, of "\<lambda>e. e OR EPOLLIN"] obtain chan k where
    k: "conn_enableReading (sys_epoll sys) ?c = Inr (?c\<lparr>c_channel := chan, c_kernel := k\<rparr>)" "in_sync watched (chan, k)"
    unfolding channel_masks by auto
  have d: "default_id req = req" using assms(2) by (simp add: default_id_def)
  then obtain b where b: "encode [req] (outputbuffer c) = Inr ([req], b)"
    using encode_ok [OF assms(3), of "[req]"] assms(5) by auto
  moreover have "buffer_wf b" "contents b = frame req" using encode_Inr [OF assms(3) b] assms(4) by simp_all
  ultimately show ?thesis using c k
    by (intro exI [of _ b] exI [of _ chan] exI [of _ k]) (simp add: flush_requests_def pushReadMessage_def)
qed

lemma length_frame_ne: "frame p \<noteq> []"
  by (simp add: frame_unfold)

lemma server_exchange:
  assumes "idle_conn ws s" "c_type s = ConnectionByServer" "messageCB s" "kernel_ok (epoll sv) ws"
    "cfg_workThread (config sv) = 0" "threadId l = Some me"
    "service_answers sv (c_sock s) req data" "msg_type req \<noteq> 1" "msg_id req \<noteq> []"
    "receives ra (frame req)" "writeIndex (inputbuffer s) + length (frame req) \<le> DECODE_MAX"
    "package_length (reply_to req data) \<le> buffer_room (outputbuffer s)" "sends wb (frame (reply_to req data))"
  shows "\<exists>s1 s2. onMessage (epoll sv) (message_callback sv me l pool) exec now ra s = Some (Inr s1)
    \<and> sendMessage (epoll sv) exec wb s1 = Some (Inr s2) \<and> c_sent s2 = c_sent s @ frame (reply_to req data) \<and> idle_conn ws s2"
proof -
  note i = assms(1) [unfolded idle_conn_def]
  let ?r = "reply_to req data"
  have rep: "map (\<lambda>m. default_id (server_reply sv (c_sock s) (wire m))) [req] = [?r]"
    using service_reply [OF assms(7-9)] by simp
  obtain as where as: "arrives as (frame req)" "\<forall>j < length as. ra j = as ! j" "ra (length as) = Read_error EAGAIN"
    using assms(10) unfolding receives_def by blast
  have "\<exists>s1. onMessage (epoll sv) (message_callback sv me l pool) exec now ra s = Some (Inr s1)
    \<and> contents (outputbuffer s1) = contents (outputbuffer s) @ concat (map frame [?r])
    \<and> contents (inputbuffer s1) = [] \<and> lastTime s1 = Some now
    \<and> ws (c_kernel s1) (ch_fd (c_channel s)) = Some (events (c_channel s) OR EPOLLOUT)
    \<and> in_sync ws (c_channel s1, c_kernel s1) \<and> c_type s1 = ConnectionByServer \<and> \<not> disConnect s1
    \<and> buffer_wf (outputbuffer s1) \<and> buffer_wf (inputbuffer s1) \<and> c_sent s1 = c_sent s"
    by (rule requests_answered [where ms = "[req]" and rs = "[?r]" and c = s and ans = ra and sv = sv, OF assms(2,3) _ _ as(1) _ _ _ _ as(3) _ rep [symmetric]])
      (use i assms(4,5,6,11,12) as(2) in auto)
  then obtain s1 where s1: "onMessage (epoll sv) (message_callback sv me l pool) exec now ra s = Some (Inr s1)"
    "contents (outputbuffer s1) = frame ?r" "contents (inputbuffer s1) = []" "in_sync ws (c_channel s1, c_kernel s1)"
    "c_type s1 = ConnectionByServer" "\<not> disConnect s1" "buffer_wf (outputbuffer s1)" "buffer_wf (inputbuffer s1)" "c_sent s1 = c_sent s"
    using i by auto
  have "(if c_type s1 = ConnectionByClient then flush_requests exec s1 else Inr s1) = Inr s1" using s1(5) by simp
  from sendMessage_all [OF s1(6) this s1(7,2) length_frame_ne assms(13,4) s1(4)]
  obtain chan k b told where "sendMessage (epoll sv) exec wb s1 = Some (Inr (s1\<lparr>c_sent := c_sent s1 @ frame ?r,
      outputbuffer := b, c_channel := chan, c_kernel := k, c_told := told\<rparr>))"
    "buffer_wf b" "contents b = []" "in_sync ws (chan, k)" by blast
  then show ?thesis using s1 by (intro exI [of _ s1] exI) (auto simp: idle_conn_def)
qed

lemma client_sends:
  assumes "call_pending ch mc req cl c" "idle_conn wc c" "kernel_ok (sys_epoll sys) wc" "msg_id req \<noteq> []"
    "package_length req \<le> buffer_room (outputbuffer c)" "sends wa (frame req)"
  shows "\<exists>c1. sendMessage (sys_epoll sys) (rpc_exec sys) wa c = Some (Inr c1) \<and> c_sent c1 = c_sent c @ frame req
    \<and> c_env c1 = c_env c \<and> c_type c1 = ConnectionByClient \<and> \<not> read_locked c1 \<and> write_dones c1 = [] \<and> inputbuffer c1 = inputbuffer c
    \<and> read_dones c1 = (read_dones c)(msg_id req \<mapsto> Call_done (On_reply ch mc)) \<and> idle_conn wc c1"
proof -
  note i = assms(2) [unfolded idle_conn_def] and p = assms(1) [unfolded call_pending_def]
  have o: "buffer_wf (outputbuffer c)" "contents (outputbuffer c) = []" "in_sync wc (c_channel c, c_kernel c)"
    "\<not> disConnect c" using i by simp_all
  from flush_call [OF assms(1,4) o(1,2) assms(5,3) o(3)] obtain b chan k where
    fl: "flush_requests (rpc_exec sys) c = Inr (c\<lparr>write_locked := True,
      read_dones := (read_dones c)(msg_id req \<mapsto> Call_done (On_reply ch mc)), c_channel := chan, c_kernel := k,
      write_dones := [], write_locked := False, outputbuffer := b\<rparr>)" (is "_ = Inr ?c0")
    and b: "buffer_wf b" "contents b = frame req" "in_sync wc (chan, k)" by blast
  have cl: "(if c_type c = ConnectionByClient then flush_requests (rpc_exec sys) c else Inr c) = Inr ?c0"
    using fl p by simp
  have "buffer_wf (outputbuffer ?c0)" "contents (outputbuffer ?c0) = frame req" "in_sync wc (c_channel ?c0, c_kernel ?c0)"
    using b by simp_all
  from sendMessage_all [OF o(4) cl this(1,2) length_frame_ne assms(6,3) this(3)]
  obtain chan' k' b' told where "sendMessage (sys_epoll sys) (rpc_exec sys) wa c = Some (Inr (?c0\<lparr>c_sent := c_sent ?c0 @ frame req,
      outputbuffer := b', c_channel := chan', c_kernel := k', c_told := told\<rparr>))"
    "buffer_wf b'" "contents b' = []" "in_sync wc (chan', k')" by blast
  then show ?thesis using i p by (intro exI) (auto simp: idle_conn_def)
qed

lemma client_completes:
  assumes "call_pending ch mc req cl c" "c_env c1 = c_env c" "c_type c1 = ConnectionByClient" "\<not> read_locked c1"
    "read_dones c1 = (read_dones c)(msg_id req \<mapsto> Call_done (On_reply ch mc))" "idle_conn wc c1"
    "msg_id rsp = msg_id req" "error_code rsp = 0" "sys_parse sys (pb_data rsp) = (True, r)"
    "receives rb (frame rsp)" "writeIndex (inputbuffer c1) + length (frame rsp) \<le> DECODE_MAX"
  shows "\<exists>c2. onMessage (sys_epoll sys) onMsg (rpc_exec sys) now rb c1 = Some (Inr c2)
    \<and> runs (c_env c2) = runs (c_env c) @ [(ch, Run cl)] \<and> ch_response (channels (c_env c2) ch) = Some r
    \<and> controllers (c_env c2) = controllers (c_env c) \<and> read_dones c2 = read_dones c \<and> idle_conn wc c2"
proof -
  note p = assms(1) [unfolded call_pending_def]
  have "buffer_wf (inputbuffer c1)" "contents (inputbuffer c1) = []" "receives rb (concat (map frame [rsp]))"
    "writeIndex (inputbuffer c1) + length (concat (map frame [rsp])) \<le> DECODE_MAX"
    using assms(6,10,11) by (simp_all add: idle_conn_def)
  from onMessage_replies [OF assms(3) this] obtain b where b: "onMessage (sys_epoll sys) onMsg (rpc_exec sys) now rb c1
      = Some (foldR (reply_step (rpc_exec sys)) [wire rsp] (c1\<lparr>lastTime := Some now, inputbuffer := b\<rparr>))"
    "buffer_wf b" "contents b = []" unfolding list.map by blast
  obtain loop ev where t: "ch_timer (channels (c_env c) ch) = Some (loop, ev)" using p by auto
  have o: "ch_controller (channels (c_env c) ch) = Some mc" "\<not> is_cancle (controllers (c_env c) mc)"
    "ch_response (channels (c_env c) ch) \<noteq> None" "ch_closure (channels (c_env c) ch) = Some cl"
    "sys_parse sys (pb_data (wire rsp)) = (True, r)"
    using p assms(9) by simp_all
  obtain e' where e: "on_reply (sys_parse sys) ch mc (wire rsp) (c_env c) = Inr e'"
    "runs e' = runs (c_env c) @ [(ch, Run cl)]" "ch_response (channels e' ch) = Some r"
    "error_code (wire rsp) = 0 \<Longrightarrow> controllers e' = controllers (c_env c)"
    by (rule on_reply_runs [where parse = "sys_parse sys" and p = "wire rsp", OF t o]) (rule that)
  let ?c2 = "c1\<lparr>lastTime := Some now, inputbuffer := b, read_locked := True, c_env := e',
    read_dones := (read_dones c1)(msg_id req := None), read_locked := False\<rparr>"
  have "onMessage (sys_epoll sys) onMsg (rpc_exec sys) now rb c1 = Some (Inr ?c2)"
    unfolding b(1) using e(1) assms(2,4,5,7) by (simp add: reply_step_def)
  moreover have "(read_dones c1)(msg_id req := None) = read_dones c" using assms(5) p by auto
  ultimately show ?thesis using e(2-4) b(2,3) assms(6,8)
    by (intro exI [of _ ?c2]) (simp add: idle_conn_def)
qed

text \<open>C2.
  A call from end to end. The client's connection has one pending call (as \<open>CallMethod\<close>
  leaves it), the server has the service and no worker threads, and the service answers
  \<open>data\<close> to the request. Then the writable event of the client hands the frame of the
  request to the kernel; the server's readable and writable events turn these bytes, in
  whatever pieces they arrive, into the frame of the reply; and the client's readable event
  on these bytes runs the call's closure, once, with the response parsed from \<open>data\<close> and no
  error in the controller. No registration is left and both connections are idle again.
\<close>

theorem rpc_roundtrip:
  assumes "call_pending ch mc req cl c" "idle_conn wc c" "kernel_ok (sys_epoll sys) wc"
    "idle_conn ws s" "c_type s = ConnectionByServer" "messageCB s" "kernel_ok (epoll sv) ws"
    "cfg_workThread (config sv) = 0" "threadId l = Some me"
    "service_answers sv (c_sock s) req data" "msg_type req \<noteq> 1" "msg_id req \<noteq> []"
    "sys_parse sys data = (True, r)"
    "package_length req \<le> buffer_room (outputbuffer c)" "package_length (reply_to req data) \<le> buffer_room (outputbuffer s)"
    "writeIndex (inputbuffer s) + length (frame req) \<le> DECODE_MAX"
    "writeIndex (inputbuffer c) + length (frame (reply_to req data)) \<le> DECODE_MAX"
    "sends wa (frame req)" "receives ra (frame req)" "sends wb (frame (reply_to req data))" "receives rb (frame (reply_to req data))"
  shows "\<exists>c1 s1 s2 c2. sendMessage (sys_epoll sys) (rpc_exec sys) wa c = Some (Inr c1)
      \<and> c_sent c1 = c_sent c @ frame req
    \<and> onMessage (epoll sv) (message_callback sv me l pool) exec now ra s = Some (Inr s1)
    \<and> sendMessage (epoll sv) exec wb s1 = Some (Inr s2)
      \<and> c_sent s2 = c_sent s @ frame (reply_to req data) \<and> idle_conn ws s2
    \<and> onMessage (sys_epoll sys) onMsg (rpc_exec sys) now' rb c1 = Some (Inr c2)
      \<and> runs (c_env c2) = runs (c_env c) @ [(ch, Run cl)] \<and> ch_response (channels (c_env c2) ch) = Some r
      \<and> controllers (c_env c2) = controllers (c_env c) \<and> read_dones c2 = read_dones c \<and> idle_conn wc c2"
proof -
  from client_sends [OF assms(1-3,12,14,18)] obtain c1 where
    c1: "sendMessage (sys_epoll sys) (rpc_exec sys) wa c = Some (Inr c1)" "c_sent c1 = c_sent c @ frame req"
      "c_env c1 = c_env c" "c_type c1 = ConnectionByClient" "\<not> read_locked c1" "inputbuffer c1 = inputbuffer c"
      "read_dones c1 = (read_dones c)(msg_id req \<mapsto> Call_done (On_reply ch mc))"
    and i1: "idle_conn wc c1" by blast
  have room: "writeIndex (inputbuffer c1) + length (frame (reply_to req data)) \<le> DECODE_MAX"
    and r: "sys_parse sys (pb_data (reply_to req data)) = (True, r)" using assms(13,17) c1(6) by simp_all
  note server = server_exchange [OF assms(4-12,19,16,15,20)]
  note reply = client_completes [OF assms(1) c1(3-5,7) i1 reply_to_simps(1,3) r assms(21) room]
  show ?thesis using server reply c1(1,2) by (intro exI [of _ c1]) fast
qed

text \<open>An exchange: the request and the reply both travel in two pieces.\<close>

definition two_writes :: "char list \<Rightarrow> nat \<Rightarrow> write_answer" where
  "two_writes d i = (if i = 0 then Written 2 else Written (length d - 2))"

definition two_reads :: "char list \<Rightarrow> nat \<Rightarrow> read_answer" where
  "two_reads d = sample_reads [Read_error EINTR, Read_bytes (take 3 d), Read_bytes (drop 3 d)] (Read_error EAGAIN)"

lemma two_pieces:
  assumes "3 < length d" "length d \<le> EXTRABUF"
  shows "sends (two_writes d) d" "receives (two_reads d) d"
proof -
  have "takes (two_writes d) 0 [2, length d - 2] d" using assms(1)
    by (auto simp: takes_def two_writes_def less_Suc_eq)
  then show "sends (two_writes d) d" unfolding sends_def using assms(1) by (intro exI [of _ "[2, length d - 2]"]) simp
  let ?as = "[Read_error EINTR, Read_bytes (take 3 d), Read_bytes (drop 3 d)]"
  have "arrives ?as d" using assms by (auto simp: arrives_def EXTRABUF_def)
  then show "receives (two_reads d) d" unfolding receives_def
    by (intro exI [of _ ?as]) (simp add: two_reads_def sample_reads_def)
qed

definition sample_pending :: sample_conn_t where
  "sample_pending = sample_rpc_conn\<lparr>write_dones := [(sample_req, Call_done (On_sent 0 0))],
    c_env := sample_env\<lparr>channels := (\<lambda>i. (channels sample_env i)\<lparr>ch_timer := Some (0, 0)\<rparr>)\<rparr>\<rparr>"

lemma rpc_roundtrip_witness:
  "let d = frame sample_req; d' = frame (reply_to sample_req ''abab'') in
    \<exists>c1 s1 s2 c2. sendMessage map_ctl (rpc_exec sample_sys) (two_writes d) sample_pending = Some (Inr c1)
      \<and> c_sent c1 = d
    \<and> onMessage map_ctl (message_callback sample_server 1 (sample_loop (sample_conn ConnectionByServer)) (ThreadPool_new 0))
        log_done 5 (two_reads d) (sample_conn ConnectionByServer) = Some (Inr s1)
    \<and> sendMessage map_ctl log_done (two_writes d') s1 = Some (Inr s2) \<and> c_sent s2 = d'
    \<and> onMessage map_ctl (\<lambda>_. Inr) (rpc_exec sample_sys) 6 (two_reads d') c1 = Some (Inr c2)
      \<and> runs (c_env c2) = [(0, [42])] \<and> ch_response (channels (c_env c2) 0) = Some ''abab''"
proof -
  let ?c = sample_pending and ?s = "sample_conn ConnectionByServer"
  have lens: "length (frame sample_req) = 35" "length (frame (reply_to sample_req ''abab'')) = 37"
    "package_length sample_req = 35" "package_length (reply_to sample_req ''abab'') = 37"
    by (simp_all add: package_length_def sample_req_def reply_to_def TinyPB_new_def)
  have c: "call_pending 0 0 sample_req \<lparr>cb = Some 42\<rparr> ?c" "runs (c_env ?c) = []" "c_sent ?c = []"
    "outputbuffer ?c = Buffer_new" "inputbuffer ?c = Buffer_new"
    by (simp_all add: call_pending_def sample_pending_def sample_defs RpcClosure_new_def)
  have i: "idle_conn (\<lambda>k. k) ?c" "idle_conn (\<lambda>k. k) ?s"
    by (simp_all add: idle_conn_def sample_pending_def sample_defs in_sync_def useET_def Channel_new_def sample_conn_def)
  have k: "kernel_ok (sys_epoll sample_sys) (\<lambda>k. k)" "kernel_ok (epoll sample_server) (\<lambda>k. k)"
    using map_ctl_ok by (simp_all add: sample_sys_def sample_server_def)
  have sv: "service_answers sample_server (c_sock ?s) sample_req ''abab''"
    unfolding service_answers_def
    by (rule exI [of _ "''Echo''"], rule exI [of _ "''echo''"], rule exI [of _ echo_service], rule exI [of _ "()"],
        rule exI [of _ "''ab''"]) (simp add: sample_req_def TinyPB_new_def sample_server_def echo_service_def)
  have m: "msg_type sample_req \<noteq> 1" "msg_id sample_req \<noteq> []" "sys_parse sample_sys ''abab'' = (True, ''abab'')"
    by (simp_all add: sample_req_def TinyPB_new_def sample_sys_def)
  have w: "cfg_workThread (config sample_server) = 0" "threadId (sample_loop ?s) = Some 1"
    by (simp_all add: sample_server_def sample_config_def sample_loop_def)
  have b: "package_length sample_req \<le> buffer_room (outputbuffer ?c)"
    "package_length (reply_to sample_req ''abab'') \<le> buffer_room (outputbuffer ?s)"
    "writeIndex (inputbuffer ?s) + length (frame sample_req) \<le> DECODE_MAX"
    "writeIndex (inputbuffer ?c) + length (frame (reply_to sample_req ''abab'')) \<le> DECODE_MAX"
    using lens c(4,5) by (simp_all add: buffer_room_def MAX_SIZE_def DECODE_MAX_def)
  have p: "sends (two_writes (frame sample_req)) (frame sample_req)" "receives (two_reads (frame sample_req)) (frame sample_req)"
    "sends (two_writes (frame (reply_to sample_req ''abab''))) (frame (reply_to sample_req ''abab''))"
    "receives (two_reads (frame (reply_to sample_req ''abab''))) (frame (reply_to sample_req ''abab''))"
    using two_pieces lens by (simp_all add: EXTRABUF_def)
  from rpc_roundtrip [OF c(1) i(1) k(1) i(2) _ _ k(2) w sv m b p, where pool = "ThreadPool_new 0" and exec = log_done
      and now = 5 and onMsg = "\<lambda>_. Inr" and now' = 6] c(2,3)
  show ?thesis unfolding Let_def by (simp add: sample_sys_def sample_server_def Run_def) blast
qed

section \<open>From registration to lookup\<close>

lemma parseukv_registration:
  assumes "nonempty_parts (CHR ''/'') (cfg_etcd_base_dir cfg) = [b]" "CHR ''/'' \<notin> set name" "name \<noteq> []"
    "set (cfg_ip cfg) \<inter> {CHR '':'', CHR ''_''} = {}" "cfg_ip cfg \<noteq> []"
    "INT_MIN \<le> cfg_port cfg" "cfg_port cfg \<le> INT_MAX" "0 \<le> cpu" "cpu \<le> 10 ^ 300"
  shows "parseukv (registry_key cfg name) (registry_value cfg cpu) ukv_locals
    = Inr \<lparr>u_cpu_usage = Some (of_int (round_even (cpu * 1000000)) / 1000000), u_ip = cfg_ip cfg,
        u_port = Some (cfg_port cfg), u_method = name\<rparr>"
proof -
  let ?p = "to_string (cfg_port cfg)" and ?d = "to_string_double cpu"
  let ?rest = "cfg_ip cfg @ CHR ''-'' # ?p"
  have k: "nonempty_parts (CHR ''/'') (registry_key cfg name) = b # name # nonempty_parts (CHR ''/'') ?rest"
    using assms(1-3) by (simp add: registry_key_def nonempty_parts_append nonempty_parts_sep nonempty_parts_last)
  have pd: "CHR ''_'' \<notin> set ?p" "CHR '':'' \<notin> set ?p" by (simp_all add: not_in_to_string)
  have "CHR ''_'' \<notin> set ?d"
    using not_in_nat_str [OF not_digit_underscore] by (simp add: to_string_double_def Let_def)
  moreover have "?d \<noteq> []" by (simp add: to_string_double_def Let_def)
  moreover have "CHR ''_'' \<notin> set (cfg_ip cfg @ CHR '':'' # ?p)" using assms(4) pd by auto
  ultimately have v: "nonempty_parts (CHR ''_'') (registry_value cfg cpu) = [cfg_ip cfg @ CHR '':'' # ?p, ?d]"
    using nonempty_parts_sep [of "CHR ''_''" "cfg_ip cfg @ CHR '':'' # ?p" ?d]
    by (simp add: registry_value_def nonempty_parts_last)
  have a: "nonempty_parts (CHR '':'') (cfg_ip cfg @ CHR '':'' # ?p) = [cfg_ip cfg, ?p]"
    using assms(4,5) pd by (simp add: nonempty_parts_sep nonempty_parts_last)
  show ?thesis
    using stoi_to_string [OF assms(6,7)] stod_to_string_double [OF assms(8,9)]
    by (simp add: parseukv_def k v a ukv_locals_def Let_def)
qed



section \<open>Issuing a call\<close>

lemma new_timer:
  assumes "timer_wf q" "next_event q \<notin> pending q" "TimeEvent_new clock iv False task q = (ev, q1)"
  shows "ev = next_event q" "ev \<in> pending (addTimerEvent to clock ev q1)" "timer_wf (addTimerEvent to clock ev q1)"
    "store (addTimerEvent to clock ev q1) ev = \<lparr>arrive_time = clock (clk q) + iv, interval = iv, is_repeated = False,
      is_cancled = False, ev_task = task\<rparr>"
proof -
  show ev: "ev = next_event q" using assms(3) by (simp add: TimeEvent_new_def Let_def)
  have p: "pending q1 = pending q" using assms(3) by (auto simp: TimeEvent_new_def Let_def pending_def)
  have st: "store q1 = (store q)(ev := \<lparr>arrive_time = clock (clk q) + iv, interval = iv, is_repeated = False,
      is_cancled = False, ev_task = task\<rparr>)"
    using assms(3) by (auto simp: TimeEvent_new_def Let_def)
  have "pending_events q1 = pending_events q" using assms(3) by (auto simp: TimeEvent_new_def Let_def)
  then have w: "timer_wf q1" by (intro timer_wf_store [OF assms(1)]) (use st ev assms(2) in auto)
  have "ev \<notin> pending q1" using p ev assms(2) by simp
  from addTimerEvent_wf [OF w this] show "ev \<in> pending (addTimerEvent to clock ev q1)"
    "timer_wf (addTimerEvent to clock ev q1)" by simp_all
  show "store (addTimerEvent to clock ev q1) ev = \<lparr>arrive_time = clock (clk q) + iv, interval = iv, is_repeated = False,
      is_cancled = False, ev_task = task\<rparr>" by (simp add: st)
qed

text \<open>What \<open>CallMethod\<close> does to the table of the client when the service has a usable connection.\<close>

lemma CallMethod_issues:
  assumes "util_wf ids" "random_digits dis"
    "map_of (server_conns (client_env s)) (takeWhile (\<lambda>c. c \<noteq> CHR ''.'') full) = Some i"
    "keepalive_count (client_env s) (takeWhile (\<lambda>c. c \<noteq> CHR ''.'') full) < 3"
    "ch_init (channels (client_env s) ch)" "sys_serialize sys request = (True, data)"
    "\<not> write_locked (client_conns s i)" "kernel_ok (sys_epoll sys) watched"
    "in_sync watched (c_channel (client_conns s i), c_kernel (client_conns s i))"
    "q = timers (client_env s) (conn_loop s i)" "timer_wf q" "next_event q \<notin> pending q"
    "TimeEvent_new (sys_clock sys) (GetTimeOut (controllers (client_env s) mc)) False (Some (ch, mc)) q = (ev, q1)"
  obtains mid ids' chan kern e where "is_msg_id mid"
    "CallMethod_channel sys dis fd connect k full (Some mc) request ch (ids, l, s) = Inr (ids', l, s\<lparr>
      client_conns := (client_conns s)(i := (client_conns s i)\<lparr>c_env := e, write_dones := write_dones (client_conns s i)
          @ [(TinyPB_new\<lparr>msg_id := mid, method_name := full, pb_data := data\<rparr>, Call_done (On_sent ch mc))],
        c_channel := chan, c_kernel := kern\<rparr>), client_env := e\<rparr>)"
    "e = on_timers (conn_loop s i) (\<lambda>_. addTimerEvent (cfg_timeout (sys_cfg sys)) (sys_clock sys) ev q1)
      (on_rpc_channel ch (\<lambda>x. x\<lparr>ch_timer := Some (conn_loop s i, ev)\<rparr>) (on_controller mc (SetMsgId mid) (client_env s)))"
    "in_sync watched (chan, kern)"
    "watched kern = (watched (c_kernel (client_conns s i)))
      (ch_fd (c_channel (client_conns s i)) \<mapsto> events (c_channel (client_conns s i)) OR EPOLLOUT)"
proof -
  let ?name = "takeWhile (\<lambda>c. c \<noteq> CHR ''.'') full" and ?loop = "conn_loop s i" and ?conn = "client_conns s i"
  obtain mid ids' where m: "GetMsgId dis ids = Inr (mid, ids')" "is_msg_id mid" using GetMsgId_ok [OF assms(1,2)] by blast
  let ?s0 = "with_env (on_controller mc (SetMsgId mid)) s" and ?e0 = "on_controller mc (SetMsgId mid) (client_env s)"
  let ?req = "TinyPB_new\<lparr>msg_id := mid, method_name := full, pb_data := data\<rparr>"
  have g: "getConnection (sys_inet sys) (sys_cfg sys) fd connect k ?name (?s0, l) = Inr (Some i, ?s0, l)"
    using assms(3,4) by (simp add: getConnection_def on_controller_def)
  define e where "e = on_timers ?loop (\<lambda>_. addTimerEvent (cfg_timeout (sys_cfg sys)) (sys_clock sys) ev q1)
    (on_rpc_channel ch (\<lambda>x. x\<lparr>ch_timer := Some (?loop, ev)\<rparr>) ?e0)"
  let ?ch = "(c_channel ?conn)\<lparr>events := events (c_channel ?conn) OR EPOLLOUT\<rparr>"
  have "in_sync watched (?ch, c_kernel ?conn)" using assms(9) by (simp add: in_sync_def)
  then obtain chan kern where k: "setChannel (sys_epoll sys) (?ch, c_kernel ?conn) = Inr (chan, kern)"
    "in_sync watched (chan, kern)" "watched kern = (watched (c_kernel ?conn))(ch_fd ?ch \<mapsto> events ?ch)"
    using setChannel_sync [OF assms(8)] by metis
  let ?c = "?conn\<lparr>c_env := e, write_dones := write_dones ?conn @ [(?req, Call_done (On_sent ch mc))],
    c_channel := chan, c_kernel := kern\<rparr>"
  have tq: "timers ?e0 ?loop = q" "GetTimeOut (controllers ?e0 mc) = GetTimeOut (controllers (client_env s) mc)"
    using assms(10) by (simp_all add: on_controller_def controller_defs)
  have "issue_call sys ?loop ch mc ?req (?conn\<lparr>c_env := ?e0\<rparr>) = Inr ?c"
    using k(1) assms(7,13) tq
    by (simp add: issue_call_def Let_def e_def pushSendMessage_def conn_enableWriting_def on_channel_def enableWriting_def)
  then have "on_conn i (issue_call sys ?loop ch mc ?req) ?s0
      = Inr (?s0\<lparr>client_conns := (client_conns s)(i := ?c), client_env := e\<rparr>)"
    by (simp add: on_conn_def)
  then have "CallMethod_channel sys dis fd connect k full (Some mc) request ch (ids, l, s)
      = Inr (ids', l, ?s0\<lparr>client_conns := (client_conns s)(i := ?c), client_env := e\<rparr>)"
    using m(1) g assms(5,6) by (simp add: CallMethod_channel_def Let_def with_env_def)
  with m(2) k(2,3) show ?thesis by (intro that [where mid = mid and ids' = ids' and e = e and chan = chan and kern = kern]) (simp_all add: with_env_def e_def)
qed



end
