(* ===== verification/OrderService.thy ===== *)
theory OrderService
  imports RpcSystem
begin

text \<open>
  The example that uses the library: the service of \<open>src/Server.cpp\<close> and the caller of
  \<open>src/client.cpp\<close>, with the messages of \<open>src/proto/order.proto\<close>. What \<open>protoc\<close> generates from
  it (the descriptors, serialization and parsing of the messages) stays a parameter. The
  service's pause of three seconds has no effect on its answer.
\<close>

section \<open>Messages\<close>

record makeOrderRequest =
  rq_price :: int
  rq_goods :: string

record makeOrderResponse =
  rs_ret_code :: int
  rs_res_info :: string
  rs_order_id :: string

text \<open>A new message has the default values of \<open>proto3\<close>.\<close>

definition makeOrderRequest_new :: makeOrderRequest where
  "makeOrderRequest_new = \<lparr>rq_price = 0, rq_goods = []\<rparr>"

definition makeOrderResponse_new :: makeOrderResponse where
  "makeOrderResponse_new = \<lparr>rs_ret_code = 0, rs_res_info = [], rs_order_id = []\<rparr>"

section \<open>The server's side\<close>

definition makeOrder_impl :: "makeOrderRequest \<Rightarrow> makeOrderResponse \<Rightarrow> makeOrderResponse" where
  "makeOrder_impl request response =
    (if rq_price request < 10 then response\<lparr>rs_ret_code := - 1, rs_res_info := ''short balance''\<rparr>
     else response\<lparr>rs_order_id := ''20250511''\<rparr>)"

text \<open>\<open>OrderImpl\<close> as the dispatcher sees it; the response object it fills is a new one.\<close>

definition OrderImpl :: "(string \<Rightarrow> makeOrderRequest option) \<Rightarrow> (makeOrderResponse \<Rightarrow> bool \<times> string)
    \<Rightarrow> (unit, makeOrderRequest, makeOrderResponse) service" where
  "OrderImpl parse ser = \<lparr>full_name = ''Order'',
    FindMethodByName = (\<lambda>m. if m = ''makeOrder'' then Some () else None),
    ParseFromString = (\<lambda>_. parse),
    CallMethod = (\<lambda>_ _ request. makeOrder_impl request makeOrderResponse_new),
    SerializeToString = ser\<rparr>"

text \<open>
  \<open>main\<close> of the server up to the construction of \<open>TcpServer\<close>: \<open>None\<close> is the exit after an
  unreadable configuration; otherwise the configuration, the service map and the entry for
  etcd.
\<close>

definition server_main :: "yaml_file \<Rightarrow> real \<Rightarrow> (unit, makeOrderRequest, makeOrderResponse) service \<Rightarrow> cconfig
    \<Rightarrow> (cconfig \<times> (unit, makeOrderRequest, makeOrderResponse) service_map \<times> string \<times> string) option res" where
  "server_main f cpu svc cfg = bindR (init f cfg) (\<lambda>(rc, cfg).
    if rc = - 1 then Inr None else Inr (Some (cfg, registerService cfg cpu svc Map.empty)))"

section \<open>The client's side\<close>

text \<open>
  The closure captures the caller's function, the request, the response, the channel and the
  controller; request and response are those of the channel. Run, it calls the function
  with the response if the controller has no error, and otherwise only logs.
\<close>

datatype 'f order_closure = Order_closure (oc_fn: 'f) (oc_channel: nat) (oc_controller: nat)

type_synonym 'f order_env = "(makeOrderRequest, makeOrderResponse, 'f order_closure) rpc_env"
type_synonym ('f, 'k) order_client = "(call_done, 'k, (makeOrderRequest, makeOrderResponse, 'f order_closure) env_more) tcp_client"

definition run_order_closure :: "'f order_closure \<Rightarrow> 'f order_env \<Rightarrow> ('f \<times> makeOrderResponse option) option" where
  "run_order_closure cl e = (if GetErrorCode (controllers e (oc_controller cl)) = 0
    then Some (oc_fn cl, ch_response (channels e (oc_channel cl))) else None)"

text \<open>\<open>makeOrder\<close>; \<open>ch\<close> and \<open>mc\<close> are the new channel and the new controller.\<close>

definition makeOrder :: "(makeOrderRequest, makeOrderResponse, 'k) rpc_sys \<Rightarrow> nat list \<Rightarrow> int
    \<Rightarrow> (inter_address \<Rightarrow> connect_answer) \<Rightarrow> 'k \<Rightarrow> nat \<Rightarrow> nat \<Rightarrow> int \<Rightarrow> string \<Rightarrow> int \<Rightarrow> 'f
    \<Rightarrow> msg_id_util \<times> rpc_server_list \<times> ('f, 'k) order_client
    \<Rightarrow> (msg_id_util \<times> rpc_server_list \<times> ('f, 'k) order_client) res" where
  "makeOrder sys dis fd connect k ch mc price goods time fn = (\<lambda>(ids, l, s).
    let request = makeOrderRequest_new; response = makeOrderResponse_new;
        request = request\<lparr>rq_price := price\<rparr>;
        request = request\<lparr>rq_goods := goods\<rparr>;
        controller = SetTimeOut time (RpcController_new (sys_inet sys) (sys_cfg sys));
        closure = RpcClosure_new (Some (Order_closure fn ch mc));
        channel = channel_init (Some mc) (Some request) (Some response) (Some closure) RpcChannel_new;
        s = with_env (on_rpc_channel ch (\<lambda>_. channel) \<circ> on_controller mc (\<lambda>_. controller)) s in
    CallMethod_channel sys dis fd connect k ''Order.makeOrder'' (Some mc) request ch (ids, l, s))"

section \<open>Lemmas\<close>

definition order_request :: "string \<Rightarrow> string \<Rightarrow> tinypb" where
  "order_request mid data = TinyPB_new\<lparr>msg_id := mid, method_name := ''Order.makeOrder'', pb_data := data\<rparr>"

lemma order_request_simps [simp]: "msg_id (order_request mid data) = mid" "msg_type (order_request mid data) \<noteq> 1"
  "method_name (order_request mid data) = ''Order.makeOrder''" "pb_data (order_request mid data) = data"
  by (simp_all add: order_request_def TinyPB_new_def)

lemma order_lengths:
  assumes "is_msg_id mid"
  shows "package_length (order_request mid d) = 48 + length d"
    "package_length (reply_to (order_request mid d) d') = 48 + length d'"
  using assms by (simp_all add: package_length_def is_msg_id_def g_msg_id_length_def reply_to_def TinyPB_new_def order_request_def)

lemma OrderImpl_answers:
  assumes "services sv ''Order'' = Some (OrderImpl parse ser)" "parse d = Some q"
    "ser (makeOrder_impl q makeOrderResponse_new) = (True, d')"
  shows "service_answers sv sock (order_request mid d) d'"
  unfolding service_answers_def
  by (rule exI [of _ "''Order''"], rule exI [of _ "''makeOrder''"], rule exI [of _ "OrderImpl parse ser"],
      rule exI [of _ "()"], rule exI [of _ q]) (simp add: assms OrderImpl_def)

lemmas order_env_defs = on_timers_def on_rpc_channel_def on_controller_def with_env_def channel_init_def RpcChannel_new_def

text \<open>The state \<open>makeOrder\<close> leaves: one pending call on the connection of the service.\<close>

lemma makeOrder_pending:
  assumes "util_wf ids" "random_digits dis" "map_of (server_conns (client_env s)) ''Order'' = Some i"
    "keepalive_count (client_env s) ''Order'' < 3" "sys_serialize sys \<lparr>rq_price = price, rq_goods = goods\<rparr> = (True, d)"
    "c_type (client_conns s i) = ConnectionByClient" "\<not> write_locked (client_conns s i)" "\<not> read_locked (client_conns s i)"
    "write_dones (client_conns s i) = []" "read_dones (client_conns s i) = Map.empty" "idle_conn wc (client_conns s i)"
    "kernel_ok (sys_epoll sys) wc" "timer_wf (timers (client_env s) (conn_loop s i))"
    "next_event (timers (client_env s) (conn_loop s i)) \<notin> pending (timers (client_env s) (conn_loop s i))"
  obtains mid ids' s' where "is_msg_id mid"
    "makeOrder sys dis fd connect k ch mc price goods time fn (ids, l, s) = Inr (ids', l, s')"
    "call_pending ch mc (order_request mid d) (RpcClosure_new (Some (Order_closure fn ch mc))) (client_conns s' i)"
    "idle_conn wc (client_conns s' i)" "runs (c_env (client_conns s' i)) = runs (client_env s)"
    "GetErrorCode (controllers (c_env (client_conns s' i)) mc) = 0"
    "inputbuffer (client_conns s' i) = inputbuffer (client_conns s i)"
    "outputbuffer (client_conns s' i) = outputbuffer (client_conns s i)" "c_sent (client_conns s' i) = c_sent (client_conns s i)"
proof -
  let ?q = "\<lparr>rq_price = price, rq_goods = goods\<rparr>" and ?cl = "RpcClosure_new (Some (Order_closure fn ch mc))"
  let ?con = "SetTimeOut time (RpcController_new (sys_inet sys) (sys_cfg sys))"
  let ?chan = "channel_init (Some mc) (Some ?q) (Some makeOrderResponse_new) (Some ?cl) RpcChannel_new"
  let ?s = "with_env (on_rpc_channel ch (\<lambda>_. ?chan) \<circ> on_controller mc (\<lambda>_. ?con)) s"
  have e: "server_conns (client_env ?s) = server_conns (client_env s)"
    "keepalive_count (client_env ?s) = keepalive_count (client_env s)" "timers (client_env ?s) = timers (client_env s)"
    "runs (client_env ?s) = runs (client_env s)" "channels (client_env ?s) ch = ?chan" "controllers (client_env ?s) mc = ?con"
    "client_conns ?s = client_conns s" "conn_loop ?s = conn_loop s"
    by (simp_all add: with_env_def on_rpc_channel_def on_controller_def)
  have n: "takeWhile (\<lambda>c. c \<noteq> CHR ''.'') ''Order.makeOrder'' = ''Order''" by simp
  have a: "map_of (server_conns (client_env ?s)) (takeWhile (\<lambda>c. c \<noteq> CHR ''.'') ''Order.makeOrder'') = Some i"
    "keepalive_count (client_env ?s) (takeWhile (\<lambda>c. c \<noteq> CHR ''.'') ''Order.makeOrder'') < 3"
    "ch_init (channels (client_env ?s) ch)" "\<not> write_locked (client_conns ?s i)"
    "in_sync wc (c_channel (client_conns ?s i), c_kernel (client_conns ?s i))"
    "timer_wf (timers (client_env ?s) (conn_loop ?s i))"
    "next_event (timers (client_env ?s) (conn_loop ?s i)) \<notin> pending (timers (client_env ?s) (conn_loop ?s i))"
    unfolding n e using assms by (simp_all add: channel_init_def RpcChannel_new_def idle_conn_def)
  obtain ev q1 where t: "TimeEvent_new (sys_clock sys) (GetTimeOut (controllers (client_env ?s) mc)) False (Some (ch, mc))
    (timers (client_env ?s) (conn_loop ?s i)) = (ev, q1)" by fastforce
  have m: "makeOrder sys dis fd connect k ch mc price goods time fn (ids, l, s)
    = CallMethod_channel sys dis fd connect k ''Order.makeOrder'' (Some mc) ?q ch (ids, l, ?s)"
    by (simp add: makeOrder_def makeOrderRequest_new_def Let_def)
  obtain mid ids' chan kern e where r: "is_msg_id mid"
    "makeOrder sys dis fd connect k ch mc price goods time fn (ids, l, s) = Inr (ids', l, ?s\<lparr>
      client_conns := (client_conns ?s)(i := (client_conns ?s i)\<lparr>c_env := e, write_dones := write_dones (client_conns ?s i)
          @ [(order_request mid d, Call_done (On_sent ch mc))], c_channel := chan, c_kernel := kern\<rparr>), client_env := e\<rparr>)"
    "e = on_timers (conn_loop ?s i) (\<lambda>_. addTimerEvent (cfg_timeout (sys_cfg sys)) (sys_clock sys) ev q1)
      (on_rpc_channel ch (\<lambda>x. x\<lparr>ch_timer := Some (conn_loop ?s i, ev)\<rparr>) (on_controller mc (SetMsgId mid) (client_env ?s)))"
    "in_sync wc (chan, kern)"
    by (rule CallMethod_issues [OF assms(1,2) a(1-3) assms(5) a(4) assms(12) a(5) refl a(6,7) t,
        where fd = fd and connect = connect and k = k and l = l, folded m order_request_def]) (rule that)
  let ?c = "(client_conns s i)\<lparr>c_env := e, write_dones := [(order_request mid d, Call_done (On_sent ch mc))],
    c_channel := chan, c_kernel := kern\<rparr>"
  have env: "ch_timer (channels e ch) \<noteq> None" "ch_controller (channels e ch) = Some mc" "ch_response (channels e ch) \<noteq> None"
    "ch_closure (channels e ch) = Some ?cl" "controllers e mc = SetMsgId mid ?con" "runs e = runs (client_env s)"
    unfolding r(3) by (simp_all add: order_env_defs)
  have "call_pending ch mc (order_request mid d) ?cl ?c" "idle_conn wc ?c"
    using assms(6-11) env r(4) by (simp_all add: call_pending_def idle_conn_def controller_defs RpcController_new_def)
  moreover obtain s' where "makeOrder sys dis fd connect k ch mc price goods time fn (ids, l, s) = Inr (ids', l, s')"
    "client_conns s' i = ?c" unfolding r(2) e(7) assms(9) append_Nil by simp
  ultimately show ?thesis using r(1) env(5,6)
    by (intro that [where mid = mid and ids' = ids' and s' = s']) (simp_all add: controller_defs RpcController_new_def)
qed

text \<open>C10.
  The example from end to end. When the client has an idle connection to the service and the
  server has \<open>OrderImpl\<close> registered and no worker threads, \<open>makeOrder\<close> puts one request on this
  connection, and once request and reply have travelled, in whatever pieces, the closure has
  run once and the caller's function gets the service's answer: the refusal for a price
  below ten, and otherwise the order's number with return code 0. Protobuf has to serialize
  the two messages and to parse them back.
\<close>

theorem order_served:
  assumes "util_wf ids" "random_digits dis" "map_of (server_conns (client_env s)) ''Order'' = Some i"
    "keepalive_count (client_env s) ''Order'' < 3" "sys_serialize sys \<lparr>rq_price = price, rq_goods = goods\<rparr> = (True, d)"
    "c_type (client_conns s i) = ConnectionByClient" "\<not> write_locked (client_conns s i)" "\<not> read_locked (client_conns s i)"
    "write_dones (client_conns s i) = []" "read_dones (client_conns s i) = Map.empty" "idle_conn wc (client_conns s i)"
    "kernel_ok (sys_epoll sys) wc" "timer_wf (timers (client_env s) (conn_loop s i))"
    "next_event (timers (client_env s) (conn_loop s i)) \<notin> pending (timers (client_env s) (conn_loop s i))"
    "idle_conn ws srv" "c_type srv = ConnectionByServer" "messageCB srv" "kernel_ok (epoll sv) ws"
    "cfg_workThread (config sv) = 0" "threadId el = Some me"
    "services sv ''Order'' = Some (OrderImpl parse ser)" "parse d = Some \<lparr>rq_price = price, rq_goods = goods\<rparr>"
    "rsp = (if price < 10 then \<lparr>rs_ret_code = - 1, rs_res_info = ''short balance'', rs_order_id = []\<rparr>
      else \<lparr>rs_ret_code = 0, rs_res_info = [], rs_order_id = ''20250511''\<rparr>)"
    "ser rsp = (True, d')" "sys_parse sys d' = (True, rsp)"
    "48 + length d \<le> buffer_room (outputbuffer (client_conns s i))" "48 + length d' \<le> buffer_room (outputbuffer srv)"
    "writeIndex (inputbuffer srv) + (48 + length d) \<le> DECODE_MAX"
    "writeIndex (inputbuffer (client_conns s i)) + (48 + length d') \<le> DECODE_MAX"
  shows "\<exists>mid ids' s'. makeOrder sys dis fd connect k ch mc price goods time fn (ids, l, s) = Inr (ids', l, s') \<and> is_msg_id mid
    \<and> (\<forall>wa ra wb rb. let req = frame (order_request mid d); reply = frame (reply_to (order_request mid d) d') in
      sends wa req \<longrightarrow> receives ra req \<longrightarrow> sends wb reply \<longrightarrow> receives rb reply \<longrightarrow>
      (\<exists>c1 s1 s2 c2. sendMessage (sys_epoll sys) (rpc_exec sys) wa (client_conns s' i) = Some (Inr c1)
        \<and> c_sent c1 = c_sent (client_conns s i) @ req
        \<and> onMessage (epoll sv) (message_callback sv me el pool) exec now ra srv = Some (Inr s1)
        \<and> sendMessage (epoll sv) exec wb s1 = Some (Inr s2) \<and> c_sent s2 = c_sent srv @ reply
        \<and> onMessage (sys_epoll sys) onMsg (rpc_exec sys) now' rb c1 = Some (Inr c2)
        \<and> runs (c_env c2) = runs (client_env s) @ [(ch, [Order_closure fn ch mc])]
        \<and> run_order_closure (Order_closure fn ch mc) (c_env c2) = Some (fn, Some rsp)))"
proof -
  obtain mid ids' s' where m: "is_msg_id mid"
    "makeOrder sys dis fd connect k ch mc price goods time fn (ids, l, s) = Inr (ids', l, s')"
    and c: "call_pending ch mc (order_request mid d) (RpcClosure_new (Some (Order_closure fn ch mc))) (client_conns s' i)"
    "idle_conn wc (client_conns s' i)" "runs (c_env (client_conns s' i)) = runs (client_env s)"
    "GetErrorCode (controllers (c_env (client_conns s' i)) mc) = 0"
    "inputbuffer (client_conns s' i) = inputbuffer (client_conns s i)"
    "outputbuffer (client_conns s' i) = outputbuffer (client_conns s i)" "c_sent (client_conns s' i) = c_sent (client_conns s i)"
    by (rule makeOrder_pending [OF assms(1-14), where fd = fd and connect = connect and k = k and ch = ch and mc = mc
        and time = time and fn = fn and l = l]) (rule that)
  let ?req = "order_request mid d" and ?reply = "reply_to (order_request mid d) d'"
  note len = order_lengths [OF m(1)]
  have ne: "msg_id ?req \<noteq> []" using is_msg_id_not_Nil [OF m(1)] by simp
  have rsp: "rsp = makeOrder_impl \<lparr>rq_price = price, rq_goods = goods\<rparr> makeOrderResponse_new"
    unfolding assms(23) by (simp add: makeOrder_impl_def makeOrderResponse_new_def)
  have ans: "service_answers sv (c_sock srv) ?req d'"
    using OrderImpl_answers [OF assms(21,22)] assms(24) unfolding rsp by blast
  have room: "package_length ?req \<le> buffer_room (outputbuffer (client_conns s' i))"
    "writeIndex (inputbuffer srv) + length (frame ?req) \<le> DECODE_MAX" "package_length ?reply \<le> buffer_room (outputbuffer srv)"
    using assms(26-28) by (simp_all only: len length_frame c(6))
  have "\<exists>c1 s1 s2 c2. sendMessage (sys_epoll sys) (rpc_exec sys) wa (client_conns s' i) = Some (Inr c1)
      \<and> c_sent c1 = c_sent (client_conns s i) @ frame ?req
      \<and> onMessage (epoll sv) (message_callback sv me el pool) exec now ra srv = Some (Inr s1)
      \<and> sendMessage (epoll sv) exec wb s1 = Some (Inr s2) \<and> c_sent s2 = c_sent srv @ frame ?reply
      \<and> onMessage (sys_epoll sys) onMsg (rpc_exec sys) now' rb c1 = Some (Inr c2)
      \<and> runs (c_env c2) = runs (client_env s) @ [(ch, [Order_closure fn ch mc])]
      \<and> run_order_closure (Order_closure fn ch mc) (c_env c2) = Some (fn, Some rsp)"
    if net: "sends wa (frame ?req)" "receives ra (frame ?req)" "sends wb (frame ?reply)" "receives rb (frame ?reply)" for wa ra wb rb
  proof -
    from client_sends [OF c(1,2) assms(12) ne room(1) net(1)] obtain c1 where
      c1: "sendMessage (sys_epoll sys) (rpc_exec sys) wa (client_conns s' i) = Some (Inr c1)"
        "c_sent c1 = c_sent (client_conns s i) @ frame ?req" "c_env c1 = c_env (client_conns s' i)"
        "c_type c1 = ConnectionByClient" "\<not> read_locked c1" "inputbuffer c1 = inputbuffer (client_conns s i)"
        "read_dones c1 = (read_dones (client_conns s' i))(msg_id ?req \<mapsto> Call_done (On_reply ch mc))" "idle_conn wc c1"
      unfolding c(5,7) by blast
    note server = server_exchange [OF assms(15-20) ans order_request_simps(2) ne net(2) room(2,3) net(3)]
    have r: "sys_parse sys (pb_data ?reply) = (True, rsp)" "writeIndex (inputbuffer c1) + length (frame ?reply) \<le> DECODE_MAX"
      using assms(25,29) by (simp_all only: c1(6) length_frame len reply_to_simps)
    from client_completes [OF c(1) c1(3-5,7,8) reply_to_simps(1,3) r(1) net(4) r(2)] obtain c2 where
      c2: "onMessage (sys_epoll sys) onMsg (rpc_exec sys) now' rb c1 = Some (Inr c2)"
        "runs (c_env c2) = runs (client_env s) @ [(ch, [Order_closure fn ch mc])]" "ch_response (channels (c_env c2) ch) = Some rsp"
        "controllers (c_env c2) = controllers (c_env (client_conns s' i))"
      unfolding c(3) RpcClosure_new_def Run_def by auto
    have "run_order_closure (Order_closure fn ch mc) (c_env c2) = Some (fn, Some rsp)"
      using c(4) by (simp add: run_order_closure_def c2(3,4))
    with server c1(1,2) c2(1,2) show ?thesis by blast
  qed
  then show ?thesis unfolding Let_def using m by blast
qed

text \<open>An order below the limit; the fields of a message are separated by commas.\<close>

definition sample_order_ser :: "makeOrderResponse \<Rightarrow> bool \<times> string" where
  "sample_order_ser r = (True, to_string (rs_ret_code r) @ '','' @ rs_res_info r @ '','' @ rs_order_id r)"

definition sample_order_parse :: "string \<Rightarrow> makeOrderRequest option" where
  "sample_order_parse d = (case stoi (takeWhile (\<lambda>c. c \<noteq> CHR '','') d) of
      Inl _ \<Rightarrow> None
    | Inr p \<Rightarrow> Some \<lparr>rq_price = p, rq_goods = tl (dropWhile (\<lambda>c. c \<noteq> CHR '','') d)\<rparr>)"

definition sample_order_sys :: "(makeOrderRequest, makeOrderResponse, int \<Rightarrow> 32 word option) rpc_sys" where
  "sample_order_sys = \<lparr>sys_inet = (\<lambda>_. 0), sys_cfg = sample_config\<lparr>cfg_ioThread := 1\<rparr>, sys_epoll = map_ctl,
    sys_clock = (\<lambda>n. int n * 1000),
    sys_serialize = (\<lambda>q. (True, to_string (rq_price q) @ '','' @ rq_goods q)),
    sys_parse = (\<lambda>d. case stoi (takeWhile (\<lambda>c. c \<noteq> CHR '','') d) of
        Inl _ \<Rightarrow> (False, makeOrderResponse_new)
      | Inr n \<Rightarrow> let r = tl (dropWhile (\<lambda>c. c \<noteq> CHR '','') d) in (True, \<lparr>rs_ret_code = n,
          rs_res_info = takeWhile (\<lambda>c. c \<noteq> CHR '','') r, rs_order_id = tl (dropWhile (\<lambda>c. c \<noteq> CHR '','') r)\<rparr>))\<rparr>"

definition sample_order_env :: "nat order_env" where
  "sample_order_env = \<lparr>server_conns = [(''Order'', 0)], keepalive_count = (\<lambda>_. 0),
    controllers = (\<lambda>_. RpcController_new (\<lambda>_. 0) sample_config), channels = (\<lambda>_. RpcChannel_new),
    timers = timers sample_env, runs = []\<rparr>"

definition sample_order_client :: "(nat, int \<Rightarrow> 32 word option) order_client" where
  "sample_order_client = \<lparr>client_env = sample_order_env,
    client_conns = (\<lambda>_. Connection_new \<lparr>sk_fd = 7, sk_ip = [], sk_port = 0, sk_opts = []\<rparr> ConnectionByClient Map.empty sample_order_env),
    conn_loop = (\<lambda>_. 0), next_conn = 1\<rparr>"

definition sample_order_server :: "(unit, makeOrderRequest, makeOrderResponse, int \<Rightarrow> 32 word option) rpc_server" where
  "sample_order_server = \<lparr>services = [''Order'' \<mapsto> OrderImpl sample_order_parse sample_order_ser],
    config = sample_config, epoll = map_ctl, inet = (\<lambda>_. 0)\<rparr>"

lemma order_served_witness:
  "\<exists>mid ids' s' c1 s1 s2 c2 d d'. makeOrder sample_order_sys (replicate 10 4) 9 (\<lambda>_. Connect_failed) Map.empty 3 5 9 ''orange'' 500000 42
      (MsgIdUtil_new, RpcServerList_new, sample_order_client) = Inr (ids', RpcServerList_new, s')
    \<and> d = frame (order_request mid ''9,orange'') \<and> d' = frame (reply_to (order_request mid ''9,orange'') ''-1,short balance,'')
    \<and> sendMessage map_ctl (rpc_exec sample_order_sys) (two_writes d) (client_conns s' 0) = Some (Inr c1) \<and> c_sent c1 = d
    \<and> onMessage map_ctl (message_callback sample_order_server 1 (sample_loop (sample_conn ConnectionByServer)) (ThreadPool_new 0))
        log_done 5 (two_reads d) (sample_conn ConnectionByServer) = Some (Inr s1)
    \<and> sendMessage map_ctl log_done (two_writes d') s1 = Some (Inr s2) \<and> c_sent s2 = d'
    \<and> onMessage map_ctl (\<lambda>_. Inr) (rpc_exec sample_order_sys) 6 (two_reads d') c1 = Some (Inr c2)
    \<and> runs (c_env c2) = [(3, [Order_closure 42 3 5])]
    \<and> run_order_closure (Order_closure 42 3 5) (c_env c2)
      = Some (42, Some \<lparr>rs_ret_code = - 1, rs_res_info = ''short balance'', rs_order_id = []\<rparr>)"
proof -
  let ?s = sample_order_client and ?srv = "sample_conn ConnectionByServer"
  let ?d = "''9,orange''" and ?d' = "''-1,short balance,''"
  let ?rsp = "\<lparr>rs_ret_code = - 1, rs_res_info = ''short balance'', rs_order_id = []\<rparr>"
  have u: "util_wf MsgIdUtil_new" "random_digits (replicate 10 4)"
    by (auto simp: util_wf_def MsgIdUtil_new_def random_digits_def g_msg_id_length_def)
  have e: "map_of (server_conns (client_env ?s)) ''Order'' = Some 0" "keepalive_count (client_env ?s) ''Order'' < 3"
    "sys_serialize sample_order_sys \<lparr>rq_price = 9, rq_goods = ''orange''\<rparr> = (True, ?d)"
    by (simp_all add: sample_order_client_def sample_order_env_def sample_order_sys_def to_string_def nat_str.simps)
  have c: "c_type (client_conns ?s 0) = ConnectionByClient" "\<not> write_locked (client_conns ?s 0)" "\<not> read_locked (client_conns ?s 0)"
    "write_dones (client_conns ?s 0) = []" "read_dones (client_conns ?s 0) = Map.empty" "idle_conn (\<lambda>k. k) (client_conns ?s 0)"
    by (simp_all add: sample_order_client_def Connection_new_def idle_conn_def in_sync_def useET_def Channel_new_def)
  have k: "kernel_ok (sys_epoll sample_order_sys) (\<lambda>k. k)" "kernel_ok (epoll sample_order_server) (\<lambda>k. k)"
    using map_ctl_ok by (simp_all add: sample_order_sys_def sample_order_server_def)
  have t: "timer_wf (timers (client_env ?s) (conn_loop ?s 0))"
    "next_event (timers (client_env ?s) (conn_loop ?s 0)) \<notin> pending (timers (client_env ?s) (conn_loop ?s 0))"
    by (simp_all add: sample_order_client_def sample_order_env_def sample_env_def timer_wf_def pending_def)
  have i: "idle_conn (\<lambda>k. k) ?srv" "c_type ?srv = ConnectionByServer" "messageCB ?srv"
    by (simp_all add: idle_conn_def in_sync_def useET_def Channel_new_def sample_conn_def Connection_new_def)
  have w: "cfg_workThread (config sample_order_server) = 0" "threadId (sample_loop ?srv) = Some 1"
    "services sample_order_server ''Order'' = Some (OrderImpl sample_order_parse sample_order_ser)"
    by (simp_all add: sample_order_server_def sample_config_def sample_loop_def)
  have p: "sample_order_parse ?d = Some \<lparr>rq_price = 9, rq_goods = ''orange''\<rparr>"
    by (simp add: sample_order_parse_def stoi_def is_digit_def is_space_def dec_val_def digit_val_def INT_MIN_def INT_MAX_def)
  have r: "?rsp = (if (9 :: int) < 10 then ?rsp else \<lparr>rs_ret_code = 0, rs_res_info = [], rs_order_id = ''20250511''\<rparr>)" by simp
  have s: "sample_order_ser ?rsp = (True, ?d')" "sys_parse sample_order_sys ?d' = (True, ?rsp)"
    by (simp_all add: sample_order_ser_def sample_order_sys_def to_string_def nat_str.simps stoi_def is_digit_def is_space_def
        dec_val_def digit_val_def INT_MIN_def INT_MAX_def Let_def)
  have b: "48 + length ?d \<le> buffer_room (outputbuffer (client_conns ?s 0))" "48 + length ?d' \<le> buffer_room (outputbuffer ?srv)"
    "writeIndex (inputbuffer ?srv) + (48 + length ?d) \<le> DECODE_MAX"
    "writeIndex (inputbuffer (client_conns ?s 0)) + (48 + length ?d') \<le> DECODE_MAX"
    by (simp_all add: buffer_room_def MAX_SIZE_def DECODE_MAX_def sample_order_client_def sample_conn_def Connection_new_def Buffer_new_def)
  obtain mid ids' s' where m: "is_msg_id mid"
    "makeOrder sample_order_sys (replicate 10 4) 9 (\<lambda>_. Connect_failed) Map.empty 3 5 9 ''orange'' 500000 42
      (MsgIdUtil_new, RpcServerList_new, sample_order_client) = Inr (ids', RpcServerList_new, s')"
    and all: "\<forall>wa ra wb rb. let req = frame (order_request mid ?d); reply = frame (reply_to (order_request mid ?d) ?d') in
      sends wa req \<longrightarrow> receives ra req \<longrightarrow> sends wb reply \<longrightarrow> receives rb reply \<longrightarrow>
      (\<exists>c1 s1 s2 c2. sendMessage (sys_epoll sample_order_sys) (rpc_exec sample_order_sys) wa (client_conns s' 0) = Some (Inr c1)
        \<and> c_sent c1 = c_sent (client_conns ?s 0) @ req
        \<and> onMessage (epoll sample_order_server) (message_callback sample_order_server 1 (sample_loop ?srv) (ThreadPool_new 0)) log_done 5 ra ?srv
          = Some (Inr s1)
        \<and> sendMessage (epoll sample_order_server) log_done wb s1 = Some (Inr s2) \<and> c_sent s2 = c_sent ?srv @ reply
        \<and> onMessage (sys_epoll sample_order_sys) (\<lambda>_. Inr) (rpc_exec sample_order_sys) 6 rb c1 = Some (Inr c2)
        \<and> runs (c_env c2) = runs (client_env ?s) @ [(3, [Order_closure 42 3 5])]
        \<and> run_order_closure (Order_closure 42 3 5) (c_env c2) = Some (42, Some ?rsp))"
    using order_served [OF u e c k(1) t i k(2) w p r s b, where fd = 9 and connect = "\<lambda>_. Connect_failed" and k = Map.empty
      and ch = 3 and mc = 5 and time = 500000 and fn = 42 and l = RpcServerList_new and pool = "ThreadPool_new 0"
      and exec = log_done and now = 5 and onMsg = "\<lambda>_. Inr" and now' = 6] by (elim exE conjE) (rule that)
  have "length (frame (order_request mid ?d)) = 56" "length (frame (reply_to (order_request mid ?d) ?d')) = 65"
    unfolding length_frame order_lengths [OF m(1)] by simp_all
  then have n: "sends (two_writes (frame (order_request mid ?d))) (frame (order_request mid ?d))"
    "receives (two_reads (frame (order_request mid ?d))) (frame (order_request mid ?d))"
    "sends (two_writes (frame (reply_to (order_request mid ?d) ?d'))) (frame (reply_to (order_request mid ?d) ?d'))"
    "receives (two_reads (frame (reply_to (order_request mid ?d) ?d'))) (frame (reply_to (order_request mid ?d) ?d'))"
    using two_pieces by (simp_all add: EXTRABUF_def)
  have sys: "sys_epoll sample_order_sys = map_ctl" "epoll sample_order_server = map_ctl" "runs (client_env ?s) = []"
    "c_sent (client_conns ?s 0) = []" "c_sent ?srv = []"
    by (simp_all add: sample_order_sys_def sample_order_server_def sample_order_client_def sample_order_env_def sample_conn_def Connection_new_def)
  from all [unfolded Let_def, rule_format, OF n] m(2) show ?thesis unfolding sys append_Nil by blast
qed

end
