(* ===== verification/Workers.thy ===== *)
theory Workers
  imports TcpServer Output
begin

text \<open>
  A server with worker threads: a worker dispatches the requests of its task and posts the
  replies to the connection's event loop (\<open>OnMassage\<close> in \<open>src/net/TcpServer.cpp\<close>, \<open>send\<close> in
  \<open>src/net/Connection.cpp\<close>), whose next wake-up appends them to the output buffer.
\<close>

section \<open>Posting\<close>

text \<open>The tasks a loop gets from jobs of workers: a thread and the requests it handled.\<close>

definition replies_of :: "('m, 'q, 'r, 'k) rpc_server \<Rightarrow> socket \<Rightarrow> tinypb list \<Rightarrow> tinypb list" where
  "replies_of sv sock pkgs = map (server_reply sv sock) pkgs"

lemma to_i32_length [simp]: "length xs \<le> 2147483647 \<Longrightarrow> take (nat (to_i32 (int (length xs)))) xs = xs"
  by (simp add: to_i32_id)

lemma workers_post:
  assumes "threadId l = Some tid" "taskMutex l = None" "\<not> disConnect (el_env l)"
    "\<forall>(me, pkgs) \<in> set jobs. me \<noteq> tid \<and> length pkgs \<le> 2147483647"
  shows "foldR (\<lambda>(me, pkgs). OnMassage sv me pkgs) jobs l = Inr (l\<lparr>
    taskqueue := taskqueue l @ map (\<lambda>(me, pkgs). replies_of sv (c_sock (el_env l)) pkgs) jobs,
    wakeup_count := wakeup_count l + length jobs\<rparr>)"
  using assms
proof (induction jobs arbitrary: l)
  case (Cons j jobs)
  obtain me pkgs where j: "j = (me, pkgs)" by fastforce
  let ?l = "l\<lparr>taskqueue := taskqueue l @ [replies_of sv (c_sock (el_env l)) pkgs], wakeup_count := wakeup_count l + 1\<rparr>"
  have "OnMassage sv me pkgs l = Inr ?l"
    using Cons.prems j by (auto simp: OnMassage_def Connection_send_def runInLoop_def isLoopThread_def queueInLoop_def
        wakeup_def replies_of_def)
  moreover have "foldR (\<lambda>(me, pkgs). OnMassage sv me pkgs) jobs ?l = Inr (?l\<lparr>
    taskqueue := taskqueue ?l @ map (\<lambda>(me, pkgs). replies_of sv (c_sock (el_env ?l)) pkgs) jobs,
    wakeup_count := wakeup_count ?l + length jobs\<rparr>)"
    by (rule Cons.IH) (use Cons.prems in auto)
  ultimately show ?case using j by simp
qed simp

section \<open>Appending\<close>

lemma encode_room:
  "buffer_wf b \<Longrightarrow> encode pkgs b = Inr (pkgs', b') \<Longrightarrow>
    buffer_room b \<le> buffer_room b' + sum_list (map (package_length \<circ> default_id) pkgs)"
proof (induction pkgs arbitrary: b pkgs')
  case (Cons m ms)
  then obtain m' b1 ms' where m: "encode_one m b = Inr (m', b1)" "encode ms b1 = Inr (ms', b')" by auto
  from encode_one_Inr [OF Cons.prems(1) m(1)] Cons.IH [OF _ m(2)] show ?case by auto
qed simp

lemma regSend_ok:
  assumes "out_ok watched c" "kernel_ok ctl watched"
    "sum_list (map (package_length \<circ> default_id) pkgs) \<le> buffer_room (outputbuffer c)"
  obtains c' where "regSend ctl pkgs c = Inr c'" "out_ok watched c'"
    "c_sent c' = c_sent c" "contents (outputbuffer c') = contents (outputbuffer c) @ concat (map (\<lambda>p. frame (default_id p)) pkgs)"
    "buffer_room (outputbuffer c) \<le> buffer_room (outputbuffer c') + sum_list (map (package_length \<circ> default_id) pkgs)"
proof -
  note ok = assms(1) [unfolded out_ok_def out_open_def]
  obtain b where b: "encode pkgs (outputbuffer c) = Inr (map default_id pkgs, b)"
    using encode_ok [OF _ assms(3)] ok by blast
  have "in_sync watched (c_channel (c\<lparr>outputbuffer := b\<rparr>), c_kernel (c\<lparr>outputbuffer := b\<rparr>))" using ok by simp
  from on_channel_mask [OF assms(2) this, of "\<lambda>e. e OR EPOLLOUT"] obtain ch k where
    "conn_enableWriting ctl (c\<lparr>outputbuffer := b\<rparr>) = Inr (c\<lparr>outputbuffer := b, c_channel := ch, c_kernel := k\<rparr>)"
    by (auto simp: conn_enableWriting_def enableWriting_def)
  then have r: "regSend ctl pkgs c = Inr (c\<lparr>outputbuffer := b, c_channel := ch, c_kernel := k\<rparr>)"
    using ok b by (simp add: regSend_def)
  from regSend_out [OF assms(1,2) r] encode_room [OF _ b] ok show thesis
    by (intro that [OF r]) (auto simp: out_bytes_def)
qed

lemma regSend_task_queue: "regSend_task ctl t l = Inr l' \<Longrightarrow> taskqueue l' = taskqueue l"
  by (auto simp: regSend_task_def)

lemma tasks_append:
  assumes "out_ok watched (el_env l)" "kernel_ok ctl watched"
    "sum_list (map (package_length \<circ> default_id) (concat pss)) \<le> buffer_room (outputbuffer (el_env l))"
  shows "\<exists>l'. foldR (\<lambda>t l. regSend_task ctl t (l\<lparr>taskqueue := tl (taskqueue l)\<rparr>)) pss l = Inr l'
    \<and> out_ok watched (el_env l') \<and> c_sent (el_env l') = c_sent (el_env l)
    \<and> contents (outputbuffer (el_env l')) = contents (outputbuffer (el_env l)) @ concat (map (\<lambda>p. frame (default_id p)) (concat pss))"
  using assms
proof (induction pss arbitrary: l)
  case (Cons ps pss)
  have "sum_list (map (package_length \<circ> default_id) ps) \<le> buffer_room (outputbuffer (el_env l))"
    using Cons.prems(3) by (simp add: comp_def)
  from regSend_ok [OF Cons.prems(1,2) this] obtain c' where c': "regSend ctl ps (el_env l) = Inr c'" "out_ok watched c'"
    "c_sent c' = c_sent (el_env l)"
    "contents (outputbuffer c') = contents (outputbuffer (el_env l)) @ concat (map (\<lambda>p. frame (default_id p)) ps)"
    "buffer_room (outputbuffer (el_env l)) \<le> buffer_room (outputbuffer c') + sum_list (map (package_length \<circ> default_id) ps)"
    by blast
  let ?l = "l\<lparr>taskqueue := tl (taskqueue l), el_env := c'\<rparr>"
  have "sum_list (map (package_length \<circ> default_id) (concat pss)) \<le> buffer_room (outputbuffer (el_env ?l))"
    using Cons.prems(3) c'(5) by (simp add: comp_def)
  with Cons.IH [OF _ Cons.prems(2) this] c'(2) obtain l' where
    "foldR (\<lambda>t l. regSend_task ctl t (l\<lparr>taskqueue := tl (taskqueue l)\<rparr>)) pss ?l = Inr l'"
    "out_ok watched (el_env l')" "c_sent (el_env l') = c_sent c'"
    "contents (outputbuffer (el_env l')) = contents (outputbuffer c') @ concat (map (\<lambda>p. frame (default_id p)) (concat pss))"
    by auto
  moreover have "regSend_task ctl ps (l\<lparr>taskqueue := tl (taskqueue l)\<rparr>) = Inr ?l"
    using c'(1) by (simp add: regSend_task_def)
  ultimately show ?case using c'(3,4) by (intro exI [of _ l']) simp
qed simp

text \<open>C15.
  Replies of worker threads. Whatever worker threads handle whatever requests of a connection, and in
  whatever order they finish, handling does not touch the connection; the next wake-up of its
  event loop appends the frames of exactly the dispatcher's replies to the output buffer, those of
  one task together and in the order of its requests, the tasks in the order in which they were
  posted. The wake-up ends without deadlock, the queue is empty, and the kernel is
  asked to report when the connection can be written.
\<close>

theorem worker_replies_sent:
  assumes "threadId l = Some tid" "taskMutex l = None" "taskqueue l = []" "jobs \<noteq> []"
    "\<forall>(me, pkgs) \<in> set jobs. me \<noteq> tid \<and> length pkgs \<le> 2147483647"
    "out_ok watched (el_env l)" "kernel_ok (epoll sv) watched"
    "rs = map (server_reply sv (c_sock (el_env l))) (concat (map snd jobs))"
    "sum_list (map (package_length \<circ> default_id) rs) \<le> buffer_room (outputbuffer (el_env l))"
  shows "\<exists>l1 l2. foldR (\<lambda>(me, pkgs). OnMassage sv me pkgs) jobs l = Inr l1 \<and> el_env l1 = el_env l
    \<and> handleWakeup tid (regSend_task (epoll sv)) l1 = Some (Inr l2) \<and> taskqueue l2 = [] \<and> taskMutex l2 = None
    \<and> contents (outputbuffer (el_env l2)) = contents (outputbuffer (el_env l)) @ concat (map (\<lambda>p. frame (default_id p)) rs)
    \<and> out_ok watched (el_env l2)"
proof -
  let ?pss = "map (\<lambda>(me, pkgs). replies_of sv (c_sock (el_env l)) pkgs) jobs"
  let ?l1 = "l\<lparr>taskqueue := ?pss, wakeup_count := wakeup_count l + length jobs\<rparr>"
  have l1: "foldR (\<lambda>(me, pkgs). OnMassage sv me pkgs) jobs l = Inr ?l1"
    using workers_post [OF assms(1,2) _ assms(5), of sv] assms(3,6) by (simp add: out_ok_def out_open_def)
  have rs: "concat ?pss = rs" unfolding assms(8) replies_of_def by (induction jobs) auto
  let ?l = "?l1\<lparr>wakeup_count := 0, taskMutex := Some tid\<rparr>"
  obtain l' where l': "foldR (\<lambda>t l. regSend_task (epoll sv) t (l\<lparr>taskqueue := tl (taskqueue l)\<rparr>)) ?pss ?l = Inr l'"
    "out_ok watched (el_env l')"
    "contents (outputbuffer (el_env l')) = contents (outputbuffer (el_env l)) @ concat (map (\<lambda>p. frame (default_id p)) rs)"
    using tasks_append [of watched ?l "epoll sv" ?pss] assms(6,7,9) rs by auto
  note keeps = regSend_task_queue
  have "drain (regSend_task (epoll sv)) ?l = Some (Inr l')" using drain_foldR [of "regSend_task (epoll sv)" ?l, OF keeps] l'(1) by simp
  then have "handleWakeup tid (regSend_task (epoll sv)) ?l1 = Some (Inr (l'\<lparr>taskMutex := None\<rparr>))"
    using assms(2,4) by (simp add: handleWakeup_def)
  moreover have "taskqueue l' = []" using foldR_pops [of "regSend_task (epoll sv)", OF keeps l'(1)] by simp
  ultimately show ?thesis using l1 l'(2,3) by (intro exI [of _ ?l1] exI [of _ "l'\<lparr>taskMutex := None\<rparr>"]) simp
qed

text \<open>Two workers, one request each; the second to arrive is handled first.\<close>

lemma worker_replies_sent_witness:
  "\<exists>l1 l2. foldR (\<lambda>(me, pkgs). OnMassage sample_server me pkgs) [(3, [wire (sample_msg ''2'')]), (2, [wire (sample_msg ''1'')])]
      (sample_loop (sample_conn ConnectionByServer)) = Inr l1
    \<and> handleWakeup 1 (regSend_task map_ctl) l1 = Some (Inr l2)
    \<and> contents (outputbuffer (el_env l2)) = frame ((sample_msg ''2'')\<lparr>error_code := word_of_int ERROR_SERVICE_NOT_FOUND\<rparr>)
        @ frame ((sample_msg ''1'')\<lparr>error_code := word_of_int ERROR_SERVICE_NOT_FOUND\<rparr>)"
proof -
  let ?c = "sample_conn ConnectionByServer"
  let ?jobs = "[(3 :: int, [wire (sample_msg ''2'')]), (2, [wire (sample_msg ''1'')])]"
  let ?l = "sample_loop ?c"
  let ?rs = "map (server_reply sample_server (c_sock (el_env ?l))) (concat (map snd ?jobs))"
  have r: "default_id (server_reply sample_server s (wire (sample_msg i)))
      = (sample_msg i)\<lparr>error_code := word_of_int ERROR_SERVICE_NOT_FOUND\<rparr>" if "i \<noteq> []" for s i
    using that by (simp add: server_reply_def dispatch_def sample_server_def wire_def sample_msg_def TinyPB_new_def
        parseServiceFullName_def default_id_def)
  have ok: "out_ok (\<lambda>k. k) (el_env ?l)"
    by (simp add: out_ok_def out_open_def in_sync_def sample_loop_def sample_conn_def Connection_new_def useET_def Channel_new_def)
  have len: "package_length ((sample_msg i)\<lparr>error_code := e\<rparr>) = 38 + length i" for i e
    by (simp add: package_length_def sample_msg_def TinyPB_new_def)
  have room: "sum_list (map (package_length \<circ> default_id) ?rs) \<le> buffer_room (outputbuffer (el_env ?l))"
    by (simp add: r len sample_loop_def buffer_room_def MAX_SIZE_def)
  have l: "threadId ?l = Some 1" "taskMutex ?l = None" "taskqueue ?l = []" by (simp_all add: sample_loop_def)
  have j: "?jobs \<noteq> []" "\<forall>(me, pkgs) \<in> set ?jobs. me \<noteq> 1 \<and> length pkgs \<le> 2147483647" by auto
  have k: "kernel_ok (epoll sample_server) (\<lambda>k. k)" "epoll sample_server = map_ctl" "outputbuffer (el_env ?l) = Buffer_new"
    using map_ctl_ok by (simp_all add: sample_server_def sample_loop_def)
  have c: "contents (outputbuffer (el_env ?l)) @ concat (map (\<lambda>p. frame (default_id p)) ?rs)
    = frame ((sample_msg ''2'')\<lparr>error_code := word_of_int ERROR_SERVICE_NOT_FOUND\<rparr>)
        @ frame ((sample_msg ''1'')\<lparr>error_code := word_of_int ERROR_SERVICE_NOT_FOUND\<rparr>)"
    using k(3) by (simp add: r)
  from worker_replies_sent [OF l j ok k(1) refl room] show ?thesis unfolding c k(2) by blast
qed

end
