(* ===== verification/ServerStream.thy ===== *)
theory ServerStream
  imports Workers
begin

text \<open>
  A connection of a server without worker threads over its whole life: readable and writable
  events in any order, with requests cut anywhere and the kernel taking as much as it
  likes (\<open>onMessage\<close> and \<open>sendMessage\<close> of \<open>src/net/Connection.cpp\<close> with the message callback of
  \<open>src/net/TcpServer.cpp\<close>).
\<close>

section \<open>Runs\<close>

text \<open>
  What the kernel answers in an event, up to the \<open>EAGAIN\<close> that ends it. It never takes more
  bytes than it is offered (\<open>clip\<close>).
\<close>

datatype srv_event = Readable int "read_answer list" | Writable "write_answer list"

definition then_again :: "'a \<Rightarrow> 'a list \<Rightarrow> nat \<Rightarrow> 'a" where
  "then_again stop as i = (if i < length as then as ! i else stop)"

fun clip :: "nat \<Rightarrow> write_answer list \<Rightarrow> write_answer list" where
  "clip r [] = []"
| "clip r (Written n # ws) = Written (min n r) # clip (r - n) ws"
| "clip r (Write_error e # ws) = Write_error e # clip r ws"

fun srv_act :: "('m, 'q, 'r, 'k) rpc_server \<Rightarrow> int \<Rightarrow> ('cb, tinypb list, ('d, 'k, 'u) conn) el \<Rightarrow> tinypb list pool
    \<Rightarrow> ('d, 'k, 'u) done_exec \<Rightarrow> srv_event \<Rightarrow> ('d, 'k, 'u) conn \<Rightarrow> ('d, 'k, 'u) conn res option" where
  "srv_act sv me l pool exec (Readable now as) c =
    onMessage (epoll sv) (message_callback sv me l pool) exec now (then_again (Read_error EAGAIN) as) c"
| "srv_act sv me l pool exec (Writable ws) c = sendMessage (epoll sv) exec
    (then_again (Write_error EAGAIN) (clip (length (contents (outputbuffer c))) ws)) c"

abbreviation srv_run :: "('m, 'q, 'r, 'k) rpc_server \<Rightarrow> int \<Rightarrow> ('cb, tinypb list, ('d, 'k, 'u) conn) el \<Rightarrow> tinypb list pool
    \<Rightarrow> ('d, 'k, 'u) done_exec \<Rightarrow> srv_event list \<Rightarrow> ('d, 'k, 'u) conn \<Rightarrow> ('d, 'k, 'u) conn res option" where
  "srv_run sv me l pool exec \<equiv> run_events (srv_act sv me l pool exec)"

text \<open>The bytes an event brings, and what \<open>readv\<close> can answer in it.\<close>

fun bytes_in :: "srv_event \<Rightarrow> char list" where
  "bytes_in (Readable now as) = concat (map (\<lambda>a. case a of Read_error _ \<Rightarrow> [] | Read_bytes x \<Rightarrow> x) as)"
| "bytes_in (Writable ws) = []"

fun polite :: "srv_event \<Rightarrow> bool" where
  "polite (Readable now as) = (\<forall>a \<in> set as. a = Read_error EINTR
    \<or> (\<exists>x. a = Read_bytes x \<and> x \<noteq> [] \<and> length x \<le> EXTRABUF))"
| "polite (Writable ws) = True"

definition srv_ok :: "('k \<Rightarrow> int \<Rightarrow> 32 word option) \<Rightarrow> ('d, 'k, 'u) conn \<Rightarrow> bool" where
  "srv_ok watched c \<longleftrightarrow> out_ok watched c \<and> messageCB c \<and> buffer_wf (inputbuffer c)"

text \<open>The replies as they are sent.\<close>

definition replies :: "('m, 'q, 'r, 'k) rpc_server \<Rightarrow> socket \<Rightarrow> tinypb list \<Rightarrow> tinypb list" where
  "replies sv sock = map (\<lambda>m. default_id (server_reply sv sock (wire m)))"

lemma replies_append [simp]: "replies sv sock (ms @ ns) = replies sv sock ms @ replies sv sock ns"
  by (simp add: replies_def)

section \<open>Writable events\<close>

text \<open>What a writable event keeps of a connection.\<close>

definition keeps_input :: "('d, 'k, 'u) conn \<Rightarrow> ('d, 'k, 'u) conn \<Rightarrow> bool" where
  "keeps_input c c' \<longleftrightarrow> inputbuffer c' = inputbuffer c \<and> messageCB c' = messageCB c \<and> c_sock c' = c_sock c
    \<and> write_dones c' = write_dones c \<and> read_dones c' = read_dones c \<and> c_env c' = c_env c
    \<and> write_locked c' = write_locked c \<and> read_locked c' = read_locked c
    \<and> buffer_room (outputbuffer c) \<le> buffer_room (outputbuffer c')"

lemma keeps_input_trans: "keeps_input a b \<Longrightarrow> keeps_input b c \<Longrightarrow> keeps_input a c"
  by (simp add: keeps_input_def)

lemma write_round_taken:
  assumes "out_open watched c" "kernel_ok ctl watched" "n \<le> length (contents (outputbuffer c))"
  shows "\<exists>c'. (write_round ctl (Written n) c = Inl (Inr c') \<or> write_round ctl (Written n) c = Inr c'
      \<and> contents (outputbuffer c') = drop n (contents (outputbuffer c)))
    \<and> keeps_input c c'"
proof -
  note ok = assms(1) [unfolded out_open_def]
  obtain b where b: "retrieve n (outputbuffer c) = Inr b" "contents b = drop n (contents (outputbuffer c))"
    using retrieve_ok [OF _ assms(3)] ok by blast
  have w: "writeIndex b \<le> writeIndex (outputbuffer c)" using retrieve_writeIndex [OF _ b(1)] ok by blast
  let ?c = "c\<lparr>c_sent := c_sent c @ take n (contents (outputbuffer c)), outputbuffer := b\<rparr>"
  have "in_sync watched (c_channel ?c, c_kernel ?c)" using ok by simp
  from on_channel_mask [OF assms(2) this, of "\<lambda>e. e AND NOT EPOLLOUT"] obtain ch k where
    k: "conn_disableWriting ctl ?c = Inr (?c\<lparr>c_channel := ch, c_kernel := k\<rparr>)" unfolding channel_masks by auto
  show ?thesis
  proof (cases "readableBytes b = 0")
    case True
    then have "write_round ctl (Written n) c = Inl (Inr (told_sent (?c\<lparr>c_channel := ch, c_kernel := k\<rparr>)))"
      using b(1) k by (simp add: write_round_def writeFd_def told_sent_def)
    then show ?thesis using w
      by (intro exI [of _ "told_sent (?c\<lparr>c_channel := ch, c_kernel := k\<rparr>)"]) (auto simp: told_sent_def buffer_room_def keeps_input_def)
  next
    case False
    then have "write_round ctl (Written n) c = Inr ?c" using b(1) by (simp add: write_round_def writeFd_def)
    then show ?thesis using w b(2) by (intro exI [of _ ?c]) (auto simp: buffer_room_def keeps_input_def)
  qed
qed

lemma write_round_again:
  assumes "out_open watched c" "kernel_ok ctl watched"
  shows "(\<exists>c'. write_round ctl (Write_error e) c = Inl (Inr c') \<and> keeps_input c c')
    \<or> write_round ctl (Write_error e) c = Inr c \<and> e \<noteq> EAGAIN"
proof -
  note ok = assms(1) [unfolded out_open_def]
  have "in_sync watched (c_channel c, c_kernel c)" using ok by simp
  from on_channel_mask [OF assms(2) this, of "\<lambda>e. e AND NOT EPOLLOUT"] obtain ch k where
    k: "conn_disableWriting ctl c = Inr (c\<lparr>c_channel := ch, c_kernel := k\<rparr>)" unfolding channel_masks by auto
  have u: "c\<lparr>c_sent := c_sent c @ take (nat (- 1)) x, outputbuffer := outputbuffer c\<rparr> = c" for x by (cases c) simp
  show ?thesis using k u
    by (auto simp: write_round_def writeFd_def Let_def keeps_input_def)
qed

lemma write_loop_ends:
  assumes "out_open watched c" "kernel_ok ctl watched"
    "\<And>j. ans (i + j) = then_again (Write_error EAGAIN) (clip (length (contents (outputbuffer c))) ws) j"
  shows "\<exists>c'. write_loop ctl ans i c = Some (Inr c') \<and> keeps_input c c'"
  using assms(1,3)
proof (induction ws arbitrary: i c)
  case Nil
  from Nil.prems(2) [of 0] have "ans i = Write_error EAGAIN" by (simp add: then_again_def)
  with write_round_again [OF Nil.prems(1) assms(2), of EAGAIN] show ?case by (subst write_loop.simps) auto
next
  case (Cons w ws)
  let ?n = "length (contents (outputbuffer c))"
  have step: ?case if w: "ans i = a" "clip ?n (w # ws) = a # clip n' ws"
    and r: "(\<exists>c'. write_round ctl a c = Inl (Inr c') \<and> keeps_input c c')
      \<or> (\<exists>c'. write_round ctl a c = Inr c' \<and> keeps_input c c' \<and> length (contents (outputbuffer c')) = n')" for a n'
    using r
  proof
    assume "\<exists>c'. write_round ctl a c = Inl (Inr c') \<and> keeps_input c c'"
    then show ?thesis using w(1) by (subst write_loop.simps) auto
  next
    assume "\<exists>c'. write_round ctl a c = Inr c' \<and> keeps_input c c' \<and> length (contents (outputbuffer c')) = n'"
    then obtain c' where c': "write_round ctl a c = Inr c'" "keeps_input c c'" "length (contents (outputbuffer c')) = n'" by blast
    have "out_open watched c'" using write_round_more [OF Cons.prems(1) c'(1)] by blast
    moreover have "ans (Suc i + j) = then_again (Write_error EAGAIN) (clip (length (contents (outputbuffer c'))) ws) j" for j
      using Cons.prems(2) [of "Suc j"] w(2) c'(3) by (simp add: then_again_def)
    ultimately obtain c2 where "write_loop ctl ans (Suc i) c' = Some (Inr c2)" "keeps_input c' c2" using Cons.IH by blast
    then show ?thesis using c'(1,2) w(1) keeps_input_trans by (subst write_loop.simps) auto
  qed
  have a: "ans i = hd (clip ?n (w # ws))" using Cons.prems(2) [of 0] by (cases w) (simp_all add: then_again_def)
  show ?case
  proof (cases w)
    case (Written n)
    from write_round_taken [OF Cons.prems(1) assms(2), of "min n ?n"] show ?thesis
      by (intro step [of "Written (min n ?n)" "?n - n"]) (use Written a in \<open>auto simp: keeps_input_def\<close>)
  next
    case (Write_error e)
    have "keeps_input c c" by (simp add: keeps_input_def)
    with write_round_again [OF Cons.prems(1) assms(2), of e] show ?thesis
      by (intro step [of "Write_error e" ?n]) (use Write_error a in auto)
  qed
qed

lemma writable_step:
  assumes "srv_ok watched c" "kernel_ok (epoll sv) watched"
  shows "\<exists>c'. srv_act sv me l pool exec (Writable ws) c = Some (Inr c') \<and> srv_ok watched c' \<and> out_bytes c' = out_bytes c
    \<and> keeps_input c c'"
proof -
  have ok: "out_open watched c" using assms(1) by (simp add: srv_ok_def out_ok_def)
  let ?ans = "then_again (Write_error EAGAIN) (clip (length (contents (outputbuffer c))) ws)"
  have act: "srv_act sv me l pool exec (Writable ws) c = write_loop (epoll sv) ?ans 0 c"
    using assms(1) by (simp add: sendMessage_def srv_ok_def out_ok_def out_open_def)
  obtain c' where c': "write_loop (epoll sv) ?ans 0 c = Some (Inr c')" "keeps_input c c'"
    using write_loop_ends [OF ok assms(2), of ?ans 0 ws] by auto
  from write_loop_out [OF c'(1) assms(2) ok refl] c' assms(1) show ?thesis unfolding act
    by (intro exI [of _ c']) (simp add: srv_ok_def out_ok_def keeps_input_def)
qed

section \<open>Readable events\<close>

lemma message_callback_regSend:
  assumes "cfg_workThread (config sv) = 0" "threadId l = Some me" "\<not> disConnect c" "length pkgs \<le> 2147483647"
  shows "message_callback sv me l pool pkgs c = regSend (epoll sv) (map (server_reply sv (c_sock c)) pkgs) c"
  using assms by (cases "regSend (epoll sv) (map (server_reply sv (c_sock c)) pkgs) c")
    (simp_all add: message_callback_def HandleMessage_def OnMassage_def Connection_send_def runInLoop_def isLoopThread_def
      regSend_task_def)

lemma regSend_keeps:
  "regSend ctl pkgs c = Inr c' \<Longrightarrow> inputbuffer c' = inputbuffer c \<and> messageCB c' = messageCB c \<and> c_sock c' = c_sock c"
  by (auto simp: regSend_def conn_enableWriting_def on_channel_def split: if_splits)

text \<open>
  A readable event hands the requests that have arrived completely to the dispatcher and
  keeps the beginning of the next one.
\<close>

lemma event_parses:
  assumes "buffer_wf (inputbuffer c)" "polite (Readable now as)"
    "(contents (inputbuffer c) @ bytes_in (Readable now as)) @ t = concat (map frame ms)"
    "writeIndex (inputbuffer c) + length (bytes_in (Readable now as)) + length (concat (map frame ms)) \<le> DECODE_MAX"
  shows "\<exists>ms1 ms2 b0 b. ms = ms1 @ ms2 \<and> onMessage ctl onMsg exec now (then_again (Read_error EAGAIN) as) c
      = parseMsg onMsg exec (c\<lparr>inputbuffer := b0, lastTime := Some now\<rparr>)
    \<and> decode [] b0 = Some (Inr (map wire ms1, b)) \<and> buffer_wf b \<and> contents b @ t = concat (map frame ms2)
    \<and> writeIndex b \<le> writeIndex (inputbuffer c) + length (bytes_in (Readable now as))
    \<and> (ms2 = [] \<and> contents b = [] \<or> ms2 \<noteq> [] \<and> length (contents b) < length (frame (hd ms2)))"
proof -
  let ?d = "bytes_in (Readable now as)" and ?ans = "then_again (Read_error EAGAIN) as"
  have as: "arrives as ?d" using assms(2) by (auto simp: arrives_def)
  have "length ?d \<le> buffer_room (inputbuffer c)" using assms(4) by (simp add: buffer_room_def DECODE_MAX_def MAX_SIZE_def)
  moreover have "?ans (0 + j) = as ! j" if "j < length as" for j using that by (simp add: then_again_def)
  ultimately obtain b where
    b: "onMessage_loop ctl onMsg exec now ?ans 0 c = onMessage_loop ctl onMsg exec now ?ans (length as) (c\<lparr>inputbuffer := b\<rparr>)"
    "buffer_wf b" "contents b = contents (inputbuffer c) @ ?d" "writeIndex b \<le> writeIndex (inputbuffer c) + length ?d"
    using onMessage_loop_reads [OF as _ assms(1)] by (metis add_0)
  have "contents b @ t = concat (map frame ms)" "writeIndex b + length (concat (map frame ms)) \<le> DECODE_MAX"
    using b(3,4) assms(3,4) by simp_all
  from sd.dec_cut [OF b(2) this, of "[]"] obtain ms1 ms2 b' where d: "ms = ms1 @ ms2"
    "decode [] b = Some (Inr (map wire ms1, b'))" "buffer_wf b'" "contents b' @ t = concat (map frame ms2)"
    "writeIndex b' \<le> writeIndex b"
    "ms2 = [] \<and> contents b' = [] \<or> ms2 \<noteq> [] \<and> length (contents b') < length (frame (hd ms2))" by auto
  have "onMessage ctl onMsg exec now ?ans c = parseMsg onMsg exec (c\<lparr>inputbuffer := b, lastTime := Some now\<rparr>)"
    using b(1) by (simp add: onMessage_def) (subst onMessage_loop.simps, simp add: then_again_def read_round_def readFd_def Let_def)
  with d b(4) show ?thesis
    by (intro exI [of _ ms1] exI [of _ ms2] exI [of _ b] exI [of _ b']) simp
qed

lemma readable_decodes:
  assumes "c_type c = ConnectionByServer" "messageCB c" "buffer_wf (inputbuffer c)" "polite (Readable now as)"
    "(contents (inputbuffer c) @ bytes_in (Readable now as)) @ t = concat (map frame ms)"
    "writeIndex (inputbuffer c) + length (bytes_in (Readable now as)) + length (concat (map frame ms)) \<le> DECODE_MAX"
  shows "\<exists>ms1 ms2 b. ms = ms1 @ ms2 \<and> srv_act sv me l pool exec (Readable now as) c
      = Some (message_callback sv me l pool (map wire ms1) (c\<lparr>lastTime := Some now, inputbuffer := b\<rparr>))
    \<and> buffer_wf b \<and> contents b @ t = concat (map frame ms2)
    \<and> writeIndex b \<le> writeIndex (inputbuffer c) + length (bytes_in (Readable now as))
    \<and> (ms2 = [] \<and> contents b = [] \<or> ms2 \<noteq> [] \<and> length (contents b) < length (frame (hd ms2)))"
proof -
  from event_parses [OF assms(3-6), of "epoll sv" "message_callback sv me l pool" exec] obtain ms1 ms2 b0 b where
    p: "ms = ms1 @ ms2" "srv_act sv me l pool exec (Readable now as) c
      = parseMsg (message_callback sv me l pool) exec (c\<lparr>inputbuffer := b0, lastTime := Some now\<rparr>)"
      "decode [] b0 = Some (Inr (map wire ms1, b))"
    and r: "buffer_wf b" "contents b @ t = concat (map frame ms2)"
      "writeIndex b \<le> writeIndex (inputbuffer c) + length (bytes_in (Readable now as))"
      "ms2 = [] \<and> contents b = [] \<or> ms2 \<noteq> [] \<and> length (contents b) < length (frame (hd ms2))"
    by (simp only: srv_act.simps) blast
  have "srv_act sv me l pool exec (Readable now as) c
      = Some (message_callback sv me l pool (map wire ms1) (c\<lparr>lastTime := Some now, inputbuffer := b\<rparr>))"
    unfolding p(2) using p(3) assms(1,2) by (simp add: parseMsg_def)
  with p(1) r show ?thesis by (intro exI [of _ ms1] exI [of _ ms2] exI [of _ b]) simp
qed

lemma readable_step:
  assumes "srv_ok watched c" "kernel_ok (epoll sv) watched" "cfg_workThread (config sv) = 0" "threadId l = Some me"
    "polite (Readable now as)" "(contents (inputbuffer c) @ bytes_in (Readable now as)) @ t = concat (map frame ms)"
    "writeIndex (inputbuffer c) + length (bytes_in (Readable now as)) + length (concat (map frame ms)) \<le> DECODE_MAX"
    "length ms \<le> 2147483647" "sum_list (map package_length (replies sv (c_sock c) ms)) \<le> buffer_room (outputbuffer c)"
  shows "\<exists>ms1 ms2 c'. ms = ms1 @ ms2 \<and> srv_act sv me l pool exec (Readable now as) c = Some (Inr c') \<and> srv_ok watched c'
    \<and> out_bytes c' = out_bytes c @ concat (map frame (replies sv (c_sock c) ms1)) \<and> c_sock c' = c_sock c
    \<and> contents (inputbuffer c') @ t = concat (map frame ms2)
    \<and> writeIndex (inputbuffer c') \<le> writeIndex (inputbuffer c) + length (bytes_in (Readable now as))
    \<and> (ms2 = [] \<and> contents (inputbuffer c') = [] \<or> ms2 \<noteq> [] \<and> length (contents (inputbuffer c')) < length (frame (hd ms2)))
    \<and> sum_list (map package_length (replies sv (c_sock c) ms2)) \<le> buffer_room (outputbuffer c')"
proof -
  note ok = assms(1) [unfolded srv_ok_def out_ok_def out_open_def]
  from ok readable_decodes [OF _ _ _ assms(5-7), of sv me l pool exec] obtain ms1 ms2 b where r: "ms = ms1 @ ms2"
    "srv_act sv me l pool exec (Readable now as) c
      = Some (message_callback sv me l pool (map wire ms1) (c\<lparr>lastTime := Some now, inputbuffer := b\<rparr>))"
    "buffer_wf b" "contents b @ t = concat (map frame ms2)"
    "writeIndex b \<le> writeIndex (inputbuffer c) + length (bytes_in (Readable now as))"
    "ms2 = [] \<and> contents b = [] \<or> ms2 \<noteq> [] \<and> length (contents b) < length (frame (hd ms2))" by blast
  let ?c = "c\<lparr>lastTime := Some now, inputbuffer := b\<rparr>" and ?ps = "map (server_reply sv (c_sock c)) (map wire ms1)"
  have rs: "concat (map (\<lambda>p. frame (default_id p)) ?ps) = concat (map frame (replies sv (c_sock c) ms1))"
    "map (package_length \<circ> default_id) ?ps = map package_length (replies sv (c_sock c) ms1)"
    by (simp_all add: replies_def comp_def)
  have m: "message_callback sv me l pool (map wire ms1) ?c = regSend (epoll sv) ?ps ?c"
    using message_callback_regSend [OF assms(3,4), of ?c "map wire ms1" pool] ok assms(8) r(1) by simp
  have "out_ok watched ?c" using ok by (simp add: out_ok_def out_open_def)
  moreover have "sum_list (map (package_length \<circ> default_id) ?ps) \<le> buffer_room (outputbuffer ?c)"
    unfolding rs(2) using assms(9) r(1) by simp
  ultimately obtain c' where c': "regSend (epoll sv) ?ps ?c = Inr c'" "out_ok watched c'" "c_sent c' = c_sent ?c"
    "contents (outputbuffer c') = contents (outputbuffer ?c) @ concat (map frame (replies sv (c_sock c) ms1))"
    "buffer_room (outputbuffer ?c) \<le> buffer_room (outputbuffer c') + sum_list (map package_length (replies sv (c_sock c) ms1))"
    using regSend_ok [OF _ assms(2), of ?c ?ps] unfolding rs by metis
  have k: "inputbuffer c' = b" "messageCB c'" "c_sock c' = c_sock c" using regSend_keeps [OF c'(1)] ok by simp_all
  have "sum_list (map package_length (replies sv (c_sock c) ms2)) \<le> buffer_room (outputbuffer c')"
    using c'(5) assms(9) r(1) by simp
  with r c' k m show ?thesis
    by (intro exI [of _ ms1] exI [of _ ms2] exI [of _ c']) (simp add: srv_ok_def out_bytes_def)
qed

section \<open>The stream\<close>

text \<open>The requests \<open>ms\<close> are still to come, and their replies fit; some requests have been answered.\<close>

definition srv_inv :: "('m, 'q, 'r, 'k) rpc_server \<Rightarrow> int \<Rightarrow> ('cb, tinypb list, ('d, 'k, 'u) conn) el \<Rightarrow> ('k \<Rightarrow> int \<Rightarrow> 32 word option)
    \<Rightarrow> tinypb list \<Rightarrow> ('d, 'k, 'u) conn \<Rightarrow> bool" where
  "srv_inv sv me l watched ms c \<longleftrightarrow> kernel_ok (epoll sv) watched \<and> cfg_workThread (config sv) = 0 \<and> threadId l = Some me
    \<and> srv_ok watched c \<and> length ms \<le> 2147483647
    \<and> sum_list (map package_length (replies sv (c_sock c) ms)) \<le> buffer_room (outputbuffer c)"

definition srv_eff :: "('m, 'q, 'r, 'k) rpc_server \<Rightarrow> tinypb list \<Rightarrow> ('d, 'k, 'u) conn \<Rightarrow> ('d, 'k, 'u) conn \<Rightarrow> bool" where
  "srv_eff sv ms c c' \<longleftrightarrow> out_bytes c' = out_bytes c @ concat (map frame (replies sv (c_sock c) ms)) \<and> c_sock c' = c_sock c"

interpretation srv: message_stream "srv_act sv me l pool exec" bytes_in polite frame "\<lambda>c. contents (inputbuffer c)"
  "\<lambda>c. writeIndex (inputbuffer c)" DECODE_MAX "srv_inv sv me l watched" "srv_eff sv"
  for sv me l pool exec watched
proof unfold_locales
  fix ms t c e
  assume i: "srv_inv sv me l watched ms c" "polite e" "(contents (inputbuffer c) @ bytes_in e) @ t = concat (map frame ms)"
    "writeIndex (inputbuffer c) + length (bytes_in e) + length (concat (map frame ms)) \<le> DECODE_MAX"
    "begun frame ms (contents (inputbuffer c))"
  note inv = i(1) [unfolded srv_inv_def]
  show "\<exists>ms1 ms2 c'. ms = ms1 @ ms2 \<and> srv_act sv me l pool exec e c = Some (Inr c') \<and> srv_inv sv me l watched ms2 c'
    \<and> srv_eff sv ms1 c c' \<and> contents (inputbuffer c') @ t = concat (map frame ms2)
    \<and> writeIndex (inputbuffer c') \<le> writeIndex (inputbuffer c) + length (bytes_in e) \<and> begun frame ms2 (contents (inputbuffer c'))"
  proof (cases e)
    case (Readable now as)
    from inv readable_step [OF _ _ _ _ i(2-4) [unfolded Readable], of watched sv l me pool exec] obtain ms1 ms2 c' where
      "ms = ms1 @ ms2" "srv_act sv me l pool exec (Readable now as) c = Some (Inr c')" "srv_ok watched c'"
      "out_bytes c' = out_bytes c @ concat (map frame (replies sv (c_sock c) ms1))" "c_sock c' = c_sock c"
      "contents (inputbuffer c') @ t = concat (map frame ms2)"
      "writeIndex (inputbuffer c') \<le> writeIndex (inputbuffer c) + length (bytes_in (Readable now as))"
      "ms2 = [] \<and> contents (inputbuffer c') = [] \<or> ms2 \<noteq> [] \<and> length (contents (inputbuffer c')) < length (frame (hd ms2))"
      "sum_list (map package_length (replies sv (c_sock c) ms2)) \<le> buffer_room (outputbuffer c')" by blast
    then show ?thesis using inv Readable
      by (intro exI [of _ ms1] exI [of _ ms2] exI [of _ c']) (simp add: srv_inv_def srv_eff_def begun_def)
  next
    case (Writable ws)
    from inv writable_step [of watched c sv me l pool exec ws] obtain c' where
      "srv_act sv me l pool exec (Writable ws) c = Some (Inr c')" "srv_ok watched c'" "out_bytes c' = out_bytes c" "keeps_input c c'"
      by blast
    then show ?thesis using i Writable
      by (intro exI [of _ "[]"] exI [of _ ms] exI [of _ c']) (simp add: srv_inv_def srv_eff_def keeps_input_def replies_def)
  qed
qed (simp_all add: srv_eff_def replies_def)

lemma srv_run_stream:
  assumes "kernel_ok (epoll sv) watched" "cfg_workThread (config sv) = 0" "threadId l = Some me"
    "srv_ok watched c" "\<forall>e \<in> set es. polite e"
    "contents (inputbuffer c) @ concat (map bytes_in es) @ t = concat (map frame ms)"
    "writeIndex (inputbuffer c) + length (concat (map bytes_in es)) + length (concat (map frame ms)) \<le> DECODE_MAX"
    "length ms \<le> 2147483647" "sum_list (map package_length (replies sv (c_sock c) ms)) \<le> buffer_room (outputbuffer c)"
    "begun frame ms (contents (inputbuffer c))"
  shows "\<exists>ms1 ms2 c'. ms = ms1 @ ms2 \<and> srv_run sv me l pool exec es c = Some (Inr c') \<and> srv_ok watched c'
    \<and> out_bytes c' = out_bytes c @ concat (map frame (replies sv (c_sock c) ms1))
    \<and> contents (inputbuffer c') @ t = concat (map frame ms2) \<and> begun frame ms2 (contents (inputbuffer c'))"
proof -
  have "srv_inv sv me l watched ms c" using assms by (simp add: srv_inv_def)
  from srv.run [OF this assms(5-7,10), of pool exec] show ?thesis by (simp add: srv_inv_def srv_eff_def) blast
qed

section \<open>Property\<close>

text \<open>C7.
  A server's connection as a stream transformer. The peer sends the frames of some requests,
  and \<open>t\<close> is what has not arrived yet. For every sequence of readable and writable events,
  however the bytes are cut and whatever the kernel takes, the run does not fault or hang, and
  afterwards the bytes the peer has got followed by those in the output buffer are the frames
  of the dispatcher's replies to exactly the requests that have arrived completely, in their
  order; the input buffer holds the beginning of the next request and nothing else; and the
  kernel is asked to report when it can be written while bytes are left.
\<close>

theorem server_stream:
  assumes "kernel_ok (epoll sv) watched" "cfg_workThread (config sv) = 0" "threadId l = Some me"
    "srv_ok watched c" "contents (inputbuffer c) = []" "out_bytes c = []" "\<forall>e \<in> set es. polite e"
    "concat (map bytes_in es) @ t = concat (map frame ms)"
    "writeIndex (inputbuffer c) + length (concat (map bytes_in es)) + length (concat (map frame ms)) \<le> DECODE_MAX"
    "length ms \<le> 2147483647" "sum_list (map package_length (replies sv (c_sock c) ms)) \<le> buffer_room (outputbuffer c)"
  shows "\<exists>ms1 ms2 c'. ms = ms1 @ ms2 \<and> srv_run sv me l pool exec es c = Some (Inr c')
    \<and> c_sent c' @ contents (outputbuffer c') = concat (map frame (replies sv (c_sock c) ms1))
    \<and> contents (inputbuffer c') @ t = concat (map frame ms2)
    \<and> (ms2 = [] \<and> contents (inputbuffer c') = [] \<or> ms2 \<noteq> [] \<and> length (contents (inputbuffer c')) < length (frame (hd ms2)))
    \<and> (contents (outputbuffer c') \<noteq> [] \<longrightarrow>
        (\<exists>m. watched (c_kernel c') (ch_fd (c_channel c')) = Some m \<and> m AND EPOLLOUT = EPOLLOUT))"
proof -
  have "contents (inputbuffer c) @ concat (map bytes_in es) @ t = concat (map frame ms)" using assms(5,8) by simp
  moreover have "begun frame ms (contents (inputbuffer c))"
    using assms(5) package_length_ge [of "hd ms"] by (auto simp: begun_def)
  ultimately obtain ms1 ms2 c' where "ms = ms1 @ ms2" "srv_run sv me l pool exec es c = Some (Inr c')" "srv_ok watched c'"
    "out_bytes c' = concat (map frame (replies sv (c_sock c) ms1))" "contents (inputbuffer c') @ t = concat (map frame ms2)"
    "begun frame ms2 (contents (inputbuffer c'))"
    using srv_run_stream [OF assms(1-4,7) _ assms(9-11), of t pool exec] assms(6) by auto
  then show ?thesis by (intro exI [of _ ms1] exI [of _ ms2] exI [of _ c']) (simp add: srv_ok_def out_ok_def out_open_def out_bytes_def begun_def)
qed

text \<open>One request and the first ten bytes of another have arrived; the kernel has taken seven bytes.\<close>

lemma server_stream_witness:
  "\<exists>c'. srv_run sample_server 1 (sample_loop (sample_conn ConnectionByServer)) (ThreadPool_new 0) log_done
      [Readable 5 [Read_error EINTR, Read_bytes (frame (sample_msg ''1'') @ take 10 (frame (sample_msg ''2'')))], Writable [Written 7]]
      (sample_conn ConnectionByServer) = Some (Inr c')
    \<and> c_sent c' @ contents (outputbuffer c') = frame ((sample_msg ''1'')\<lparr>error_code := word_of_int ERROR_SERVICE_NOT_FOUND\<rparr>)
    \<and> contents (inputbuffer c') = take 10 (frame (sample_msg ''2''))"
proof -
  let ?c = "sample_conn ConnectionByServer" and ?m1 = "sample_msg ''1''" and ?m2 = "sample_msg ''2''"
  let ?t = "drop 10 (frame ?m2)" and ?es = "[Readable 5 [Read_error EINTR, Read_bytes (frame ?m1 @ take 10 (frame ?m2))], Writable [Written 7]]"
  have len: "length (frame ?m1) = 39" "length (frame ?m2) = 39"
    by (simp_all add: package_length_def sample_msg_def TinyPB_new_def)
  have ne: "frame ?m1 \<noteq> []" using len(1) by auto
  have ok: "srv_ok (\<lambda>k. k) ?c" "contents (inputbuffer ?c) = []" "out_bytes ?c = []"
    by (simp_all add: srv_ok_def out_ok_def out_open_def out_bytes_def in_sync_def sample_conn_def Connection_new_def useET_def Channel_new_def)
  have k: "kernel_ok (epoll sample_server) (\<lambda>k. k)" "cfg_workThread (config sample_server) = 0" "threadId (sample_loop ?c) = Some 1"
    using map_ctl_ok by (simp_all add: sample_server_def sample_config_def sample_loop_def)
  have p: "\<forall>e \<in> set ?es. polite e" using ne len by (simp add: EXTRABUF_def)
  have b: "concat (map bytes_in ?es) @ ?t = concat (map frame [?m1, ?m2])" by simp
  have r: "replies sample_server s [sample_msg i] = [(sample_msg i)\<lparr>error_code := word_of_int ERROR_SERVICE_NOT_FOUND\<rparr>]"
    if "i \<noteq> []" for s i
    using that by (simp add: replies_def server_reply_def dispatch_def sample_server_def wire_def sample_msg_def TinyPB_new_def
        parseServiceFullName_def default_id_def)
  have rs: "replies sample_server (c_sock ?c) [?m1, ?m2] = replies sample_server (c_sock ?c) [?m1] @ replies sample_server (c_sock ?c) [?m2]"
    by (simp add: replies_def)
  have rlen: "package_length ((sample_msg i)\<lparr>error_code := e\<rparr>) = 38 + length i" for i e
    by (simp add: package_length_def sample_msg_def TinyPB_new_def)
  have index: "writeIndex (inputbuffer ?c) = 0" and sample_room: "buffer_room (outputbuffer ?c) = MAX_SIZE" "DECODE_MAX = 2147483583" "MAX_SIZE = 9223372036854775807"
    by (simp_all add: sample_conn_def Connection_new_def DECODE_MAX_def buffer_room_def MAX_SIZE_def)
  have room: "writeIndex (inputbuffer ?c) + length (concat (map bytes_in ?es)) + length (concat (map frame [?m1, ?m2])) \<le> DECODE_MAX"
    "length [?m1, ?m2] \<le> 2147483647"
    "sum_list (map package_length (replies sample_server (c_sock ?c) [?m1, ?m2])) \<le> buffer_room (outputbuffer ?c)"
    using len unfolding rs by (simp_all add: r rlen index sample_room)
  from server_stream [OF k ok p b room, of "ThreadPool_new 0" log_done] obtain ms1 ms2 c' where
    c': "[?m1, ?m2] = ms1 @ ms2"
      "srv_run sample_server 1 (sample_loop ?c) (ThreadPool_new 0) log_done ?es ?c = Some (Inr c')"
      "c_sent c' @ contents (outputbuffer c') = concat (map frame (replies sample_server (c_sock ?c) ms1))"
      "contents (inputbuffer c') @ ?t = concat (map frame ms2)"
      "ms2 = [] \<and> contents (inputbuffer c') = [] \<or> ms2 \<noteq> [] \<and> length (contents (inputbuffer c')) < length (frame (hd ms2))" by blast
  have lt: "length ?t = 29" using len by simp
  have "ms1 = [?m1] \<and> ms2 = [?m2]"
  proof -
    from c'(1) consider "ms1 = []" "ms2 = [?m1, ?m2]" | "ms1 = [?m1]" "ms2 = [?m2]" | "ms2 = []"
      by (cases ms1; cases "tl ms1") (auto simp: Cons_eq_append_conv)
    then show ?thesis
    proof cases
      case 1
      then have "length (contents (inputbuffer c')) + 29 = 78" using arg_cong [OF c'(4), of length] lt len by simp
      then show ?thesis using 1 c'(5) len by simp
    next
      case 3
      then show ?thesis using c'(4) lt by auto
    qed simp
  qed
  then have m: "ms1 = [?m1]" "ms2 = [?m2]" by simp_all
  have "contents (inputbuffer c') @ ?t = take 10 (frame ?m2) @ ?t" using c'(4) m(2) by simp
  then have "contents (inputbuffer c') = take 10 (frame ?m2)" by (rule append_same_eq [THEN iffD1])
  with c'(2,3) m(1) show ?thesis by (intro exI [of _ c']) (simp add: r)
qed

end
