(* ===== verification/Conversation.thy ===== *)
theory Conversation
  imports ServerStream RpcSystem
begin

text \<open>
  A whole conversation: a client's connection with any number of pending calls and a server's
  connection, each over any sequence of readable and writable events of its loop
  (\<open>onMessage\<close>, \<open>parseMsg\<close> and \<open>sendMessage\<close> of \<open>src/net/Connection.cpp\<close> on both sides, with the
  callbacks of \<open>src/rpc/rpc_channel.cpp\<close> and \<open>src/net/TcpServer.cpp\<close>).
\<close>

section \<open>Pending calls\<close>

record 'f pending_call =
  pc_req :: tinypb
  pc_channel :: nat
  pc_controller :: nat
  pc_closure :: "'f rpc_closure"

abbreviation pc_id :: "'f pending_call \<Rightarrow> string" where
  "pc_id p \<equiv> msg_id (pc_req p)"

definition to_write :: "'f pending_call \<Rightarrow> tinypb \<times> call_done client_done" where
  "to_write p = (pc_req p, Call_done (On_sent (pc_channel p) (pc_controller p)))"

definition answer_to :: "'f pending_call \<Rightarrow> call_done client_done" where
  "answer_to p = Call_done (On_reply (pc_channel p) (pc_controller p))"

definition awaited :: "'f pending_call list \<Rightarrow> string \<rightharpoonup> call_done client_done" where
  "awaited ps = map_of (map (\<lambda>p. (pc_id p, answer_to p)) ps)"

lemma awaited_simps [simp]: "awaited [] = Map.empty" "awaited (p # ps) = (awaited ps)(pc_id p \<mapsto> answer_to p)"
  "dom (awaited ps) = pc_id ` set ps"
  by (simp_all add: awaited_def dom_map_of_conv_image_fst image_image)

text \<open>The objects of a call that has neither been answered nor timed out.\<close>

definition ready :: "('q, 'r, 'f) rpc_env \<Rightarrow> 'f pending_call \<Rightarrow> bool" where
  "ready e p \<longleftrightarrow> ch_timer (channels e (pc_channel p)) \<noteq> None
    \<and> ch_controller (channels e (pc_channel p)) = Some (pc_controller p)
    \<and> \<not> is_cancle (controllers e (pc_controller p)) \<and> ch_response (channels e (pc_channel p)) \<noteq> None
    \<and> ch_closure (channels e (pc_channel p)) = Some (pc_closure p)"

definition separate :: "'f pending_call list \<Rightarrow> bool" where
  "separate ps \<longleftrightarrow> distinct (map pc_id ps) \<and> distinct (map pc_channel ps) \<and> distinct (map pc_controller ps)"

definition calls_pending :: "'f pending_call list \<Rightarrow> ('q, 'r, 'f, 'k) rpc_conn \<Rightarrow> bool" where
  "calls_pending ps c \<longleftrightarrow> write_dones c = map to_write ps \<and> separate ps
    \<and> (\<forall>p \<in> set ps. pc_id p \<noteq> [] \<and> read_dones c (pc_id p) = None \<and> ready (c_env c) p)
    \<and> (ps \<noteq> [] \<longrightarrow> events (c_channel c) AND EPOLLOUT = EPOLLOUT)"

definition cli_ok :: "('k \<Rightarrow> int \<Rightarrow> 32 word option) \<Rightarrow> ('q, 'r, 'f, 'k) rpc_conn \<Rightarrow> bool" where
  "cli_ok watched c \<longleftrightarrow> out_open watched c \<and> c_type c = ConnectionByClient \<and> \<not> write_locked c \<and> \<not> read_locked c
    \<and> buffer_wf (inputbuffer c)"

section \<open>Runs of a client's connection\<close>

text \<open>What a writable event offers to the kernel: the buffer and the packages it adds to it.\<close>

definition offered :: "('q, 'r, 'f, 'k) rpc_conn \<Rightarrow> nat" where
  "offered c = length (contents (outputbuffer c)) + length (concat (map (\<lambda>(m, _). frame (default_id m)) (write_dones c)))"

fun cli_act :: "('q, 'r, 'k) rpc_sys \<Rightarrow> srv_event \<Rightarrow> ('q, 'r, 'f, 'k) rpc_conn \<Rightarrow> ('q, 'r, 'f, 'k) rpc_conn res option" where
  "cli_act sys (Readable now as) c =
    onMessage (sys_epoll sys) (\<lambda>_. Inr) (rpc_exec sys) now (then_again (Read_error EAGAIN) as) c"
| "cli_act sys (Writable ws) c = sendMessage (sys_epoll sys) (rpc_exec sys)
    (then_again (Write_error EAGAIN) (clip (offered c) ws)) c"

abbreviation cli_run :: "('q, 'r, 'k) rpc_sys \<Rightarrow> srv_event list \<Rightarrow> ('q, 'r, 'f, 'k) rpc_conn \<Rightarrow> ('q, 'r, 'f, 'k) rpc_conn res option" where
  "cli_run sys \<equiv> run_events (cli_act sys)"

section \<open>Writable events\<close>

text \<open>The callbacks of the requests: every call waits for its reply before its bytes are written.\<close>

lemma enableReading_mask:
  assumes "kernel_ok ctl watched" "in_sync watched (c_channel c, c_kernel c)"
  obtains ch k where "conn_enableReading ctl c = Inr (c\<lparr>c_channel := ch, c_kernel := k\<rparr>)" "in_sync watched (ch, k)"
    "events ch = events (c_channel c) OR EPOLLIN" "watched k (ch_fd ch) = Some (events (c_channel c) OR EPOLLIN)"
proof -
  let ?ch = "(c_channel c)\<lparr>events := events (c_channel c) OR EPOLLIN\<rparr>"
  have "in_sync watched (?ch, c_kernel c)" using assms(2) by (simp add: in_sync_def)
  from setChannel_sync [OF assms(1) this] obtain ch k where
    "setChannel ctl (?ch, c_kernel c) = Inr (ch, k)" "ch = ?ch\<lparr>inepoll := True\<rparr>"
    "watched k = (watched (c_kernel c))(ch_fd ?ch \<mapsto> events ?ch)" "in_sync watched (ch, k)" by blast
  then show thesis by (intro that [where ch = ch and k = k]) (simp_all add: conn_enableReading_def on_channel_def enableReading_def)
qed

lemma or_epollin: "m AND EPOLLOUT = EPOLLOUT \<Longrightarrow> (m OR EPOLLIN) AND EPOLLOUT = EPOLLOUT"
  by (simp add: bit_eq_iff bit_and_iff bit_or_iff) blast

lemma calls_register:
  assumes "kernel_ok (sys_epoll sys) watched" "in_sync watched (c_channel c, c_kernel c)" "\<not> read_locked c"
    "distinct (map pc_id ps)" "\<forall>p \<in> set ps. read_dones c (pc_id p) = None"
  shows "\<exists>ch k. foldR (\<lambda>(m, d) c. rpc_exec sys d m c) (map to_write ps) c
      = Inr (c\<lparr>read_dones := read_dones c ++ awaited ps, c_channel := ch, c_kernel := k\<rparr>)
    \<and> in_sync watched (ch, k)
    \<and> (if ps = [] then (ch, k) = (c_channel c, c_kernel c) else events (c_channel c) AND EPOLLOUT = EPOLLOUT \<longrightarrow>
        (\<exists>m. watched k (ch_fd ch) = Some m \<and> m AND EPOLLOUT = EPOLLOUT))"
  using assms(2-)
proof (induction ps arbitrary: c)
  case Nil
  then show ?case by (intro exI [of _ "c_channel c"] exI [of _ "c_kernel c"]) (simp add: awaited_def)
next
  case (Cons p ps)
  let ?c = "c\<lparr>read_dones := (read_dones c)(pc_id p \<mapsto> answer_to p)\<rparr>"
  have "in_sync watched (c_channel ?c, c_kernel ?c)" using Cons.prems(1) by simp
  then obtain ch k where
    k: "conn_enableReading (sys_epoll sys) ?c = Inr (?c\<lparr>c_channel := ch, c_kernel := k\<rparr>)" "in_sync watched (ch, k)"
      "events ch = events (c_channel c) OR EPOLLIN" "watched k (ch_fd ch) = Some (events (c_channel c) OR EPOLLIN)"
    by (rule enableReading_mask [OF assms(1)]) (rule that; simp)
  let ?c1 = "?c\<lparr>c_channel := ch, c_kernel := k\<rparr>"
  have "in_sync watched (c_channel ?c1, c_kernel ?c1)" "\<not> read_locked ?c1" "distinct (map pc_id ps)"
    "\<forall>p \<in> set ps. read_dones ?c1 (pc_id p) = None" using Cons.prems k(2) by (auto simp: image_iff)
  from Cons.IH [OF this] obtain ch' k' where
    i: "foldR (\<lambda>(m, d) c. rpc_exec sys d m c) (map to_write ps) ?c1
        = Inr (?c1\<lparr>read_dones := read_dones ?c1 ++ awaited ps, c_channel := ch', c_kernel := k'\<rparr>)"
      "in_sync watched (ch', k')"
      "if ps = [] then (ch', k') = (c_channel ?c1, c_kernel ?c1) else events (c_channel ?c1) AND EPOLLOUT = EPOLLOUT \<longrightarrow>
        (\<exists>m. watched k' (ch_fd ch') = Some m \<and> m AND EPOLLOUT = EPOLLOUT)" by blast
  have r: "read_dones ?c1 ++ awaited ps = read_dones c ++ awaited (p # ps)"
    using Cons.prems(3) by (simp add: map_add_upd_left)
  have "foldR (\<lambda>(m, d) c. rpc_exec sys d m c) (map to_write (p # ps)) c
      = Inr (c\<lparr>read_dones := read_dones c ++ awaited (p # ps), c_channel := ch', c_kernel := k'\<rparr>)"
    unfolding r [symmetric] using i(1) k(1) Cons.prems(2,4) by (simp add: to_write_def pushReadMessage_def answer_to_def)
  moreover have "events (c_channel c) AND EPOLLOUT = EPOLLOUT \<longrightarrow>
      (\<exists>m. watched k' (ch_fd ch') = Some m \<and> m AND EPOLLOUT = EPOLLOUT)"
    using i(3) k(3,4) or_epollin by (cases "ps = []") auto
  ultimately show ?case using i(2) by (intro exI [of _ ch'] exI [of _ k']) (simp only: list.distinct if_False)
qed

text \<open>A writable event: all calls wait for their replies, and their frames follow what the buffer held.\<close>

lemma flush_pending:
  assumes "cli_ok watched c" "calls_pending ps c" "kernel_ok (sys_epoll sys) watched"
    "sum_list (map (package_length \<circ> pc_req) ps) \<le> buffer_room (outputbuffer c)"
  shows "\<exists>c0. flush_requests (rpc_exec sys) c = Inr c0 \<and> out_open watched c0 \<and> write_dones c0 = []
    \<and> read_dones c0 = read_dones c ++ awaited ps \<and> c_env c0 = c_env c \<and> inputbuffer c0 = inputbuffer c \<and> c_type c0 = c_type c
    \<and> \<not> write_locked c0 \<and> \<not> read_locked c0 \<and> c_sent c0 = c_sent c
    \<and> contents (outputbuffer c0) = contents (outputbuffer c) @ concat (map (frame \<circ> pc_req) ps)"
proof -
  note ok = assms(1) [unfolded cli_ok_def out_open_def] and p = assms(2) [unfolded calls_pending_def separate_def]
  let ?c = "c\<lparr>write_locked := True\<rparr>"
  have "in_sync watched (c_channel ?c, c_kernel ?c)" "\<not> read_locked ?c" "distinct (map pc_id ps)"
    "\<forall>p \<in> set ps. read_dones ?c (pc_id p) = None" using ok p by simp_all
  from calls_register [OF assms(3) this] obtain ch k where
    r: "foldR (\<lambda>(m, d) c. rpc_exec sys d m c) (map to_write ps) ?c
      = Inr (?c\<lparr>read_dones := read_dones c ++ awaited ps, c_channel := ch, c_kernel := k\<rparr>)" "in_sync watched (ch, k)"
      "if ps = [] then (ch, k) = (c_channel c, c_kernel c) else events (c_channel c) AND EPOLLOUT = EPOLLOUT \<longrightarrow>
        (\<exists>m. watched k (ch_fd ch) = Some m \<and> m AND EPOLLOUT = EPOLLOUT)" by auto
  have reqs: "fst \<circ> to_write = pc_req" by (simp add: to_write_def fun_eq_iff)
  have d: "map default_id (map pc_req ps) = map pc_req ps" using p by (simp add: default_id_def)
  then have "sum_list (map (package_length \<circ> default_id) (map pc_req ps)) \<le> buffer_room (outputbuffer c)"
    using assms(4) by (metis map_map)
  then obtain b where b: "encode (map pc_req ps) (outputbuffer c) = Inr (map pc_req ps, b)"
    using encode_ok [of "outputbuffer c" "map pc_req ps"] ok d by auto
  have bc: "buffer_wf b" "contents b = contents (outputbuffer c) @ concat (map (frame \<circ> pc_req) ps)"
    using encode_Inr [OF _ b] ok by simp_all
  let ?c0 = "?c\<lparr>read_dones := read_dones c ++ awaited ps, c_channel := ch, c_kernel := k, write_dones := [],
    write_locked := False, outputbuffer := b\<rparr>"
  have "flush_requests (rpc_exec sys) c = Inr ?c0" using ok p r(1) b unfolding flush_requests_def by (simp add: reqs)
  moreover have "out_open watched ?c0"
    using ok p r(2,3) bc by (cases "ps = []") (simp_all add: out_open_def)
  ultimately show ?thesis using ok bc(2) by (intro exI [of _ ?c0]) simp
qed

lemma cli_writable:
  assumes "cli_ok watched c" "calls_pending ps c" "kernel_ok (sys_epoll sys) watched"
    "sum_list (map (package_length \<circ> pc_req) ps) \<le> buffer_room (outputbuffer c)"
  shows "\<exists>c'. cli_act sys (Writable ws) c = Some (Inr c') \<and> cli_ok watched c' \<and> write_dones c' = []
    \<and> read_dones c' = read_dones c ++ awaited ps \<and> c_env c' = c_env c \<and> inputbuffer c' = inputbuffer c
    \<and> out_bytes c' = out_bytes c @ concat (map (frame \<circ> pc_req) ps)"
proof -
  note ok = assms(1) [unfolded cli_ok_def out_open_def]
  obtain c0 where c0: "flush_requests (rpc_exec sys) c = Inr c0" "out_open watched c0" "write_dones c0 = []"
    "read_dones c0 = read_dones c ++ awaited ps" "c_env c0 = c_env c" "inputbuffer c0 = inputbuffer c" "c_type c0 = c_type c"
    "\<not> write_locked c0" "\<not> read_locked c0" "c_sent c0 = c_sent c"
    "contents (outputbuffer c0) = contents (outputbuffer c) @ concat (map (frame \<circ> pc_req) ps)"
    using flush_pending [OF assms] by blast
  have "map (\<lambda>(m, _). frame (default_id m)) (write_dones c) = map (frame \<circ> pc_req) ps"
    using assms(2) by (simp add: calls_pending_def to_write_def default_id_def)
  then have off: "offered c = length (contents (outputbuffer c0))" using c0(11) by (simp add: offered_def)
  let ?ans = "then_again (Write_error EAGAIN) (clip (length (contents (outputbuffer c0))) ws)"
  have act: "cli_act sys (Writable ws) c = write_loop (sys_epoll sys) ?ans 0 c0"
    using ok c0(1) off by (simp add: sendMessage_def)
  obtain c' where c': "write_loop (sys_epoll sys) ?ans 0 c0 = Some (Inr c')" "keeps_input c0 c'"
    using write_loop_ends [OF c0(2) assms(3), of ?ans 0 ws] by auto
  from write_loop_out [OF c'(1) assms(3) c0(2) refl] have "out_open watched c'" "out_bytes c' = out_bytes c0"
    "c_type c' = c_type c0" by simp_all
  then show ?thesis unfolding act using c' c0 ok
    by (intro exI [of _ c']) (simp add: cli_ok_def keeps_input_def out_bytes_def)
qed

section \<open>Readable events\<close>

text \<open>The replies to calls, each of which the code can parse.\<close>

definition answers :: "('q, 'r, 'k) rpc_sys \<Rightarrow> tinypb list \<Rightarrow> 'f pending_call list \<Rightarrow> bool" where
  "answers sys rs ps \<longleftrightarrow> map msg_id rs = map pc_id ps \<and> (\<forall>r \<in> set rs. fst (sys_parse sys (pb_data r)))"

text \<open>What the replies do to the objects of their calls.\<close>

definition answered :: "('q, 'r, 'k) rpc_sys \<Rightarrow> tinypb list \<Rightarrow> 'f pending_call list \<Rightarrow> ('q, 'r, 'f) rpc_env \<Rightarrow> ('q, 'r, 'f) rpc_env \<Rightarrow> bool" where
  "answered sys rs ps e e' \<longleftrightarrow> runs e' = runs e @ map (\<lambda>p. (pc_channel p, Run (pc_closure p))) ps
    \<and> (\<forall>(r, p) \<in> set (zip rs ps). ch_response (channels e' (pc_channel p)) = Some (snd (sys_parse sys (pb_data r)))
        \<and> controllers e' (pc_controller p) = outcome r (controllers e (pc_controller p)))
    \<and> (\<forall>ch. ch \<notin> pc_channel ` set ps \<longrightarrow> channels e' ch = channels e ch)
    \<and> (\<forall>mc. mc \<notin> pc_controller ` set ps \<longrightarrow> controllers e' mc = controllers e mc)"

lemma answered_Nil [simp]: "answered sys [] [] e e"
  by (simp add: answered_def)

lemma answered_append:
  assumes "answered sys rs ps e e1" "answered sys rs' ps' e1 e2" "separate (ps @ ps')" "length rs = length ps"
  shows "answered sys (rs @ rs') (ps @ ps') e e2"
proof -
  note a = assms(1,2) [unfolded answered_def]
  have d: "pc_channel ` set ps \<inter> pc_channel ` set ps' = {}" "pc_controller ` set ps \<inter> pc_controller ` set ps' = {}"
    using assms(3) by (simp_all add: separate_def)
  have fst_part: "ch_response (channels e2 (pc_channel p)) = Some (snd (sys_parse sys (pb_data r)))
      \<and> controllers e2 (pc_controller p) = outcome r (controllers e (pc_controller p))" if "(r, p) \<in> set (zip rs ps)" for r p
  proof -
    have "p \<in> set ps" by (rule set_zip_rightD [OF that])
    then have "pc_channel p \<notin> pc_channel ` set ps'" "pc_controller p \<notin> pc_controller ` set ps'" using d by blast+
    then have "channels e2 (pc_channel p) = channels e1 (pc_channel p)" "controllers e2 (pc_controller p) = controllers e1 (pc_controller p)"
      using a(2) by simp_all
    then show ?thesis using a(1) that by auto
  qed
  have snd_part: "ch_response (channels e2 (pc_channel p)) = Some (snd (sys_parse sys (pb_data r)))
      \<and> controllers e2 (pc_controller p) = outcome r (controllers e (pc_controller p))" if "(r, p) \<in> set (zip rs' ps')" for r p
  proof -
    have "p \<in> set ps'" by (rule set_zip_rightD [OF that])
    then have "pc_controller p \<notin> pc_controller ` set ps" using d by blast
    then have "controllers e1 (pc_controller p) = controllers e (pc_controller p)" using a(1) by simp
    then show ?thesis using a(2) that by auto
  qed
  have z: "set (zip (rs @ rs') (ps @ ps')) = set (zip rs ps) \<union> set (zip rs' ps')" using assms(4) by simp
  show ?thesis unfolding answered_def z
  proof (intro conjI)
    show "runs e2 = runs e @ map (\<lambda>p. (pc_channel p, Run (pc_closure p))) (ps @ ps')" using a by simp
    show "\<forall>(r, p) \<in> set (zip rs ps) \<union> set (zip rs' ps').
        ch_response (channels e2 (pc_channel p)) = Some (snd (sys_parse sys (pb_data r)))
        \<and> controllers e2 (pc_controller p) = outcome r (controllers e (pc_controller p))"
      using fst_part snd_part by blast
    show "\<forall>ch. ch \<notin> pc_channel ` set (ps @ ps') \<longrightarrow> channels e2 ch = channels e ch" using a by (simp add: image_Un)
    show "\<forall>mc. mc \<notin> pc_controller ` set (ps @ ps') \<longrightarrow> controllers e2 mc = controllers e mc" using a by (simp add: image_Un)
  qed
qed

lemma reply_completes:
  assumes "\<not> read_locked c" "read_dones c (pc_id p) = Some (answer_to p)" "ready (c_env c) p"
    "msg_id r = pc_id p" "fst (sys_parse sys (pb_data r))"
  shows "\<exists>e'. reply_step (rpc_exec sys) (wire r) c
      = Inr (c\<lparr>read_locked := True, c_env := e', read_dones := (read_dones c)(pc_id p := None), read_locked := False\<rparr>)
    \<and> answered sys [r] [p] (c_env c) e'"
proof -
  note rd = assms(3) [unfolded ready_def]
  obtain loop ev where t: "ch_timer (channels (c_env c) (pc_channel p)) = Some (loop, ev)" using rd by auto
  have o: "ch_controller (channels (c_env c) (pc_channel p)) = Some (pc_controller p)"
    "\<not> is_cancle (controllers (c_env c) (pc_controller p))" "ch_response (channels (c_env c) (pc_channel p)) \<noteq> None"
    "ch_closure (channels (c_env c) (pc_channel p)) = Some (pc_closure p)"
    "sys_parse sys (pb_data (wire r)) = (True, snd (sys_parse sys (pb_data r)))"
    using rd assms(5) by (simp_all add: prod_eq_iff)
  obtain e' where e: "on_reply (sys_parse sys) (pc_channel p) (pc_controller p) (wire r) (c_env c) = Inr e'"
    "runs e' = runs (c_env c) @ [(pc_channel p, Run (pc_closure p))]"
    "channels e' = (channels (c_env c))(pc_channel p := (channels (c_env c) (pc_channel p))\<lparr>ch_response := Some (snd (sys_parse sys (pb_data r)))\<rparr>)"
    "controllers e' = (controllers (c_env c))(pc_controller p := outcome (wire r) (controllers (c_env c) (pc_controller p)))"
    by (rule on_reply_completes [where parse = "sys_parse sys" and p = "wire r", OF t o])
  have "answered sys [r] [p] (c_env c) e'" by (simp add: answered_def e(2-4) outcome_def)
  moreover have "reply_step (rpc_exec sys) (wire r) c
      = Inr (c\<lparr>read_locked := True, c_env := e', read_dones := (read_dones c)(pc_id p := None), read_locked := False\<rparr>)"
    using assms(1,2,4) e(1) by (simp add: reply_step_def answer_to_def)
  ultimately show ?thesis by blast
qed

lemma ready_answered:
  assumes "answered sys rs ps e e'" "separate (ps @ qs)" "p \<in> set qs" "ready e p"
  shows "ready e' p"
proof -
  have "pc_channel p \<notin> pc_channel ` set ps" "pc_controller p \<notin> pc_controller ` set ps"
    using assms(2,3) by (auto simp: separate_def)
  then have "channels e' (pc_channel p) = channels e (pc_channel p)" "controllers e' (pc_controller p) = controllers e (pc_controller p)"
    using assms(1) unfolding answered_def by blast+
  then show ?thesis using assms(4) by (simp add: ready_def)
qed

definition in_flight :: "'f pending_call list \<Rightarrow> ('q, 'r, 'f, 'k) rpc_conn \<Rightarrow> bool" where
  "in_flight ps c \<longleftrightarrow> (\<forall>p \<in> set ps. read_dones c (pc_id p) = Some (answer_to p) \<and> ready (c_env c) p)"

definition forget :: "'f pending_call list \<Rightarrow> (string \<rightharpoonup> 'd) \<Rightarrow> (string \<rightharpoonup> 'd)" where
  "forget ps rd = (\<lambda>i. if i \<in> pc_id ` set ps then None else rd i)"

lemma forget_simps [simp]: "forget [] rd = rd" "forget qs (forget ps rd) = forget (ps @ qs) rd"
  by (auto simp: forget_def fun_eq_iff)

lemma in_flight_rest:
  assumes "in_flight (ps @ qs) c" "separate (ps @ qs)" "answered sys rs ps (c_env c) e'"
  shows "in_flight qs (c\<lparr>c_env := e', read_dones := forget ps (read_dones c)\<rparr>)"
proof -
  have "pc_id p \<notin> pc_id ` set ps" if "p \<in> set qs" for p using assms(2) that by (auto simp: separate_def)
  then show ?thesis using assms(1) ready_answered [OF assms(3,2)] by (auto simp: in_flight_def forget_def)
qed

lemma separate_append: "separate (ps @ qs) \<Longrightarrow> separate ps \<and> separate qs"
  by (simp add: separate_def)

lemma replies_complete:
  assumes "\<not> read_locked c" "answers sys rs ps" "separate ps" "in_flight ps c"
  shows "\<exists>e'. foldR (reply_step (rpc_exec sys)) (map wire rs) c = Inr (c\<lparr>c_env := e', read_dones := forget ps (read_dones c)\<rparr>)
    \<and> answered sys rs ps (c_env c) e'"
  using assms
proof (induction ps arbitrary: rs c)
  case Nil
  then show ?case by (intro exI [of _ "c_env c"]) (simp add: answers_def)
next
  case (Cons p ps)
  obtain r rs' where rs: "rs = r # rs'" "msg_id r = pc_id p" "fst (sys_parse sys (pb_data r))" "answers sys rs' ps"
    using Cons.prems(2) by (cases rs) (auto simp: answers_def)
  have sep: "separate ([p] @ ps)" and w: "in_flight ([p] @ ps) c" using Cons.prems(3,4) by simp_all
  have "read_dones c (pc_id p) = Some (answer_to p)" "ready (c_env c) p" using w by (simp_all add: in_flight_def)
  from reply_completes [OF Cons.prems(1) this rs(2,3)] obtain e1 where
    e1: "reply_step (rpc_exec sys) (wire r) c
      = Inr (c\<lparr>read_locked := True, c_env := e1, read_dones := (read_dones c)(pc_id p := None), read_locked := False\<rparr>)"
      "answered sys [r] [p] (c_env c) e1" by blast
  let ?c1 = "c\<lparr>c_env := e1, read_dones := forget [p] (read_dones c)\<rparr>"
  have "(read_dones c)(pc_id p := None) = forget [p] (read_dones c)" by (auto simp: forget_def fun_eq_iff)
  then have s1: "reply_step (rpc_exec sys) (wire r) c = Inr ?c1" using e1(1) Cons.prems(1) by (cases c) simp
  have "\<not> read_locked ?c1" "separate ps" using Cons.prems(1) separate_append [OF sep] by simp_all
  from Cons.IH [OF this(1) rs(4) this(2) in_flight_rest [OF w sep e1(2)]] obtain e2 where
    e2: "foldR (reply_step (rpc_exec sys)) (map wire rs') ?c1 = Inr (?c1\<lparr>c_env := e2, read_dones := forget ps (read_dones ?c1)\<rparr>)"
      "answered sys rs' ps (c_env ?c1) e2" by blast
  have "answered sys ([r] @ rs') ([p] @ ps) (c_env c) e2"
    by (rule answered_append [OF e1(2) _ sep]) (use e2(2) in simp_all)
  then show ?case using s1 e2(1) rs(1) by (intro exI [of _ e2]) simp
qed

section \<open>The client's side as a stream\<close>

text \<open>The messages of the stream are the replies, each with the call it answers.\<close>

definition cli_inv :: "('q, 'r, 'k) rpc_sys \<Rightarrow> ('k \<Rightarrow> int \<Rightarrow> 32 word option) \<Rightarrow> (tinypb \<times> 'f pending_call) list
    \<Rightarrow> ('q, 'r, 'f, 'k) rpc_conn \<Rightarrow> bool" where
  "cli_inv sys watched zs c \<longleftrightarrow> kernel_ok (sys_epoll sys) watched \<and> cli_ok watched c \<and> write_dones c = []
    \<and> answers sys (map fst zs) (map snd zs) \<and> separate (map snd zs) \<and> in_flight (map snd zs) c"

definition cli_eff :: "('q, 'r, 'k) rpc_sys \<Rightarrow> (tinypb \<times> 'f pending_call) list
    \<Rightarrow> ('q, 'r, 'f, 'k) rpc_conn \<Rightarrow> ('q, 'r, 'f, 'k) rpc_conn \<Rightarrow> bool" where
  "cli_eff sys zs c c' \<longleftrightarrow> out_bytes c' = out_bytes c \<and> read_dones c' = forget (map snd zs) (read_dones c)
    \<and> answered sys (map fst zs) (map snd zs) (c_env c) (c_env c')"

lemma cli_readable:
  assumes "cli_inv sys watched zs c" "polite (Readable now as)"
    "(contents (inputbuffer c) @ bytes_in (Readable now as)) @ t = concat (map (frame \<circ> fst) zs)"
    "writeIndex (inputbuffer c) + length (bytes_in (Readable now as)) + length (concat (map (frame \<circ> fst) zs)) \<le> DECODE_MAX"
  shows "\<exists>zs1 zs2 c'. zs = zs1 @ zs2 \<and> cli_act sys (Readable now as) c = Some (Inr c') \<and> cli_inv sys watched zs2 c'
    \<and> cli_eff sys zs1 c c' \<and> contents (inputbuffer c') @ t = concat (map (frame \<circ> fst) zs2)
    \<and> writeIndex (inputbuffer c') \<le> writeIndex (inputbuffer c) + length (bytes_in (Readable now as))
    \<and> begun (frame \<circ> fst) zs2 (contents (inputbuffer c'))"
proof -
  note i = assms(1) [unfolded cli_inv_def cli_ok_def out_open_def]
  note m = assms(3,4) [folded map_map]
  from i event_parses [OF _ assms(2) m, of "sys_epoll sys" "\<lambda>_. Inr" "rpc_exec sys"] obtain ms1 ms2 b0 b where
    p: "map fst zs = ms1 @ ms2" "cli_act sys (Readable now as) c
      = parseMsg (\<lambda>_. Inr) (rpc_exec sys) (c\<lparr>inputbuffer := b0, lastTime := Some now\<rparr>)"
      "decode [] b0 = Some (Inr (map wire ms1, b))"
    and r: "buffer_wf b" "contents b @ t = concat (map frame ms2)"
      "writeIndex b \<le> writeIndex (inputbuffer c) + length (bytes_in (Readable now as))"
      "ms2 = [] \<and> contents b = [] \<or> ms2 \<noteq> [] \<and> length (contents b) < length (frame (hd ms2))"
    by (simp only: cli_act.simps) blast
  obtain zs1 zs2 where zs: "zs = zs1 @ zs2" "ms1 = map fst zs1" "ms2 = map fst zs2"
    using p(1) by (metis map_eq_append_conv)
  let ?ps1 = "map snd zs1" and ?ps2 = "map snd zs2" and ?c = "c\<lparr>lastTime := Some now, inputbuffer := b\<rparr>"
  have sep: "separate (?ps1 @ ?ps2)" and w: "in_flight (?ps1 @ ?ps2) ?c" using i zs(1) by (simp_all add: in_flight_def)
  have a: "answers sys ms1 ?ps1" "answers sys (map fst zs2) ?ps2" using i zs by (auto simp: answers_def)
  have "\<not> read_locked ?c" "separate ?ps1" "in_flight ?ps1 ?c"
    using i separate_append [OF sep] w by (auto simp: in_flight_def)
  from replies_complete [OF this(1) a(1) this(2,3)] obtain e' where
    e: "foldR (reply_step (rpc_exec sys)) (map wire ms1) ?c = Inr (?c\<lparr>c_env := e', read_dones := forget ?ps1 (read_dones ?c)\<rparr>)"
      "answered sys ms1 ?ps1 (c_env ?c) e'" by blast
  let ?c' = "?c\<lparr>c_env := e', read_dones := forget ?ps1 (read_dones ?c)\<rparr>"
  have "cli_act sys (Readable now as) c = Some (Inr ?c')"
    unfolding p(2) using p(3) i e(1) by (simp add: parseMsg_def)
  moreover have "in_flight ?ps2 ?c'" by (rule in_flight_rest [OF w sep e(2)])
  moreover have "separate ?ps2" using separate_append [OF sep] by blast
  moreover have "begun (frame \<circ> fst) zs2 (contents b)" using r(4) zs(3) by (auto simp: begun_def hd_map)
  ultimately show ?thesis using i r(1-3) e(2) a(2) zs
    by (intro exI [of _ zs1] exI [of _ zs2] exI [of _ ?c'])
      (simp add: cli_inv_def cli_eff_def cli_ok_def out_open_def out_bytes_def)
qed

lemma cli_quiet_writable:
  assumes "cli_inv sys watched zs c"
  shows "\<exists>c'. cli_act sys (Writable ws) c = Some (Inr c') \<and> cli_inv sys watched zs c' \<and> cli_eff sys [] c c'
    \<and> inputbuffer c' = inputbuffer c"
proof -
  note i = assms [unfolded cli_inv_def]
  have "calls_pending [] c" using i by (simp add: calls_pending_def separate_def)
  from i cli_writable [OF _ this, of watched sys ws] obtain c' where
    "cli_act sys (Writable ws) c = Some (Inr c')" "cli_ok watched c'" "write_dones c' = []" "read_dones c' = read_dones c"
    "c_env c' = c_env c" "inputbuffer c' = inputbuffer c" "out_bytes c' = out_bytes c" by auto
  then show ?thesis using i by (intro exI [of _ c']) (simp add: cli_inv_def cli_eff_def in_flight_def)
qed

lemma cli_eff_append:
  assumes "cli_inv sys watched (zs1 @ zs2 @ zs3) c" "cli_eff sys zs1 c c1" "cli_eff sys zs2 c1 c2"
  shows "cli_eff sys (zs1 @ zs2) c c2"
proof -
  have "separate ((map snd zs1 @ map snd zs2) @ map snd zs3)" using assms(1) by (simp add: cli_inv_def)
  from conjunct1 [OF separate_append [OF this]] assms(2,3) show ?thesis
    using answered_append [of sys "map fst zs1" "map snd zs1" "c_env c" "c_env c1" "map fst zs2" "map snd zs2" "c_env c2"]
    by (simp add: cli_eff_def)
qed

interpretation cli: message_stream "cli_act sys" bytes_in polite "frame \<circ> fst" "\<lambda>c. contents (inputbuffer c)"
  "\<lambda>c. writeIndex (inputbuffer c)" DECODE_MAX "cli_inv sys watched" "cli_eff sys" for sys watched
proof unfold_locales
  fix zs t c e
  assume i: "cli_inv sys watched zs c" "polite e" "(contents (inputbuffer c) @ bytes_in e) @ t = concat (map (frame \<circ> fst) zs)"
    "writeIndex (inputbuffer c) + length (bytes_in e) + length (concat (map (frame \<circ> fst) zs)) \<le> DECODE_MAX"
    "begun (frame \<circ> fst) zs (contents (inputbuffer c))"
  show "\<exists>zs1 zs2 c'. zs = zs1 @ zs2 \<and> cli_act sys e c = Some (Inr c') \<and> cli_inv sys watched zs2 c'
    \<and> cli_eff sys zs1 c c' \<and> contents (inputbuffer c') @ t = concat (map (frame \<circ> fst) zs2)
    \<and> writeIndex (inputbuffer c') \<le> writeIndex (inputbuffer c) + length (bytes_in e) \<and> begun (frame \<circ> fst) zs2 (contents (inputbuffer c'))"
  proof (cases e)
    case (Readable now as)
    show ?thesis unfolding Readable by (rule cli_readable [OF i(1-4) [unfolded Readable]])
  next
    case (Writable ws)
    from cli_quiet_writable [OF i(1), of ws] obtain c' where
      "cli_act sys (Writable ws) c = Some (Inr c')" "cli_inv sys watched zs c'" "cli_eff sys [] c c'" "inputbuffer c' = inputbuffer c"
      by blast
    then show ?thesis using i Writable by (intro exI [of _ "[]"] exI [of _ zs] exI [of _ c']) simp
  qed
qed (simp add: cli_eff_def, rule cli_eff_append)

section \<open>Both sides\<close>

lemma awaited_at: "distinct (map pc_id ps) \<Longrightarrow> p \<in> set ps \<Longrightarrow> awaited ps (pc_id p) = Some (answer_to p)"
  by (induction ps) (auto simp: image_iff)

lemma forget_awaited:
  assumes "\<forall>p \<in> set ps. rd (pc_id p) = None"
  shows "forget ps (rd ++ awaited ps) = rd"
proof
  fix i
  show "forget ps (rd ++ awaited ps) i = rd i"
  proof (cases "i \<in> pc_id ` set ps")
    case False
    then have "awaited ps i = None" by (metis awaited_simps(3) domIff)
    then show ?thesis using False by (simp add: forget_def map_add_def)
  qed (use assms in \<open>auto simp: forget_def\<close>)
qed

lemma server_reply_id [simp]: "msg_id (server_reply sv sock m) = msg_id m"
  by (simp add: server_reply_def dispatch_def Let_def split: option.split prod.split)

lemma replies_ids:
  assumes "\<forall>m \<in> set ms. msg_id m \<noteq> []"
  shows "map msg_id (replies sv sock ms) = map msg_id ms"
  using assms by (simp add: replies_def default_id_def)

text \<open>The client's connection from its first writable event on.\<close>

lemma cli_conversation:
  assumes "kernel_ok (sys_epoll sys) watched" "cli_ok watched c" "calls_pending ps c" "contents (inputbuffer c) = []"
    "sum_list (map (package_length \<circ> pc_req) ps) \<le> buffer_room (outputbuffer c)"
    "answers sys rs ps" "\<forall>e \<in> set es. polite e" "concat (map bytes_in es) @ t = concat (map frame rs)"
    "writeIndex (inputbuffer c) + 2 * length (concat (map frame rs)) \<le> DECODE_MAX"
  shows "\<exists>n c'. cli_run sys (Writable w # es) c = Some (Inr c') \<and> n \<le> length ps
    \<and> out_bytes c' = out_bytes c @ concat (map (frame \<circ> pc_req) ps)
    \<and> answered sys (take n rs) (take n ps) (c_env c) (c_env c') \<and> in_flight (drop n ps) c'
    \<and> (t = [] \<longrightarrow> n = length ps \<and> read_dones c' = read_dones c)"
proof -
  note p = assms(3) [unfolded calls_pending_def]
  obtain c1 where c1: "cli_act sys (Writable w) c = Some (Inr c1)" "cli_ok watched c1" "write_dones c1 = []"
    "read_dones c1 = read_dones c ++ awaited ps" "c_env c1 = c_env c" "inputbuffer c1 = inputbuffer c"
    "out_bytes c1 = out_bytes c @ concat (map (frame \<circ> pc_req) ps)"
    using cli_writable [OF assms(2,3,1,5)] by blast
  have fl: "in_flight ps c1" using p by (auto simp: in_flight_def c1(4,5) separate_def map_add_def awaited_at)
  have len: "length rs = length ps" using assms(6) by (metis answers_def length_map)
  let ?zs = "zip rs ps"
  have z: "map fst ?zs = rs" "map snd ?zs = ps" "map (frame \<circ> fst) ?zs = map frame rs"
    using len by (simp_all flip: map_map)
  have inv: "cli_inv sys watched ?zs c1" using assms(1,6) c1(2,3) p fl by (simp add: cli_inv_def z)
  have s: "contents (inputbuffer c1) @ concat (map bytes_in es) @ t = concat (map (frame \<circ> fst) ?zs)"
    using assms(4,8) c1(6) by (simp add: z)
  have "length (concat (map bytes_in es)) \<le> length (concat (map frame rs))" by (metis assms(8) le_add1 length_append)
  then have b: "writeIndex (inputbuffer c1) + length (concat (map bytes_in es)) + length (concat (map (frame \<circ> fst) ?zs)) \<le> DECODE_MAX"
    using assms(9) c1(6) by (simp add: z)
  have n: "begun (frame \<circ> fst) ?zs (contents (inputbuffer c1))"
    using assms(4) c1(6) package_length_ge [of "fst (hd ?zs)"] by (auto simp: begun_def)
  from cli.run [OF inv assms(7) s b n] obtain zs1 zs2 c' where
    c': "?zs = zs1 @ zs2" "cli_run sys es c1 = Some (Inr c')" "cli_inv sys watched zs2 c'" "cli_eff sys zs1 c1 c'"
      "contents (inputbuffer c') @ t = concat (map (frame \<circ> fst) zs2)" "begun (frame \<circ> fst) zs2 (contents (inputbuffer c'))" by blast
  let ?n = "length zs1"
  have rp: "rs = map fst zs1 @ map fst zs2" "ps = map snd zs1 @ map snd zs2" using z(1,2) unfolding c'(1) by simp_all
  have td: "take ?n rs = map fst zs1" "take ?n ps = map snd zs1" "drop ?n ps = map snd zs2" "?n + length zs2 = length ps"
    by (simp_all add: rp)
  have "?n = length ps \<and> read_dones c' = read_dones c" if "t = []"
  proof -
    have "zs2 = []" using begun_all [OF c'(6)] c'(5) that by simp
    then have e: "map snd zs1 = ps" "?n = length ps" using rp(2) by simp_all
    have "read_dones c' = forget ps (read_dones c ++ awaited ps)" using c'(4) unfolding cli_eff_def e(1) c1(4) by blast
    also have "\<dots> = read_dones c" by (rule forget_awaited) (use p in blast)
    finally show ?thesis using e(2) by blast
  qed
  then show ?thesis using c1 c'(2-4) td
    by (intro exI [of _ ?n] exI [of _ c']) (simp add: cli_eff_def cli_inv_def)
qed

text \<open>C1.
  A conversation. A client's connection has any number of pending calls (as \<open>CallMethod\<close> leaves
  them), a server's connection is idle. The server handles any sequence of readable and writable
  events, in which some prefix of the requests' bytes arrives (\<open>t\<close> is under way); the client
  handles a writable event and then any sequence of events, in which some prefix of what the
  server's kernel has taken arrives (\<open>u\<close> is under way). However the bytes are cut and whatever the kernels
  take, neither side faults or hangs; the client has output exactly the frames of its
  requests; the closures of a first part of the calls have run, once each and in order,
  each with the response parsed from the server's reply to its own request and with this reply's error, and the
  other calls still wait. When nothing is under way, every call is complete.
\<close>

theorem conversation:
  assumes "kernel_ok (sys_epoll sys) wc" "cli_ok wc c" "calls_pending ps c"
    "contents (inputbuffer c) = []" "contents (outputbuffer c) = []"
    "sum_list (map (package_length \<circ> pc_req) ps) \<le> buffer_room (outputbuffer c)"
    "kernel_ok (epoll sv) ws" "cfg_workThread (config sv) = 0" "threadId l = Some me" "srv_ok ws s"
    "contents (inputbuffer s) = []" "contents (outputbuffer s) = []"
    "rs = replies sv (c_sock s) (map pc_req ps)" "\<forall>r \<in> set rs. fst (sys_parse sys (pb_data r))"
    "length ps \<le> 2147483647" "sum_list (map package_length rs) \<le> buffer_room (outputbuffer s)"
    "writeIndex (inputbuffer s) + 2 * length (concat (map (frame \<circ> pc_req) ps)) \<le> DECODE_MAX"
    "writeIndex (inputbuffer c) + 2 * length (concat (map frame rs)) \<le> DECODE_MAX"
    "\<forall>e \<in> set (es @ ce). polite e" "concat (map bytes_in es) @ t = concat (map (frame \<circ> pc_req) ps)"
  shows "\<exists>s'. srv_run sv me l pool exec es s = Some (Inr s')
    \<and> (\<forall>u. c_sent s' = c_sent s @ concat (map bytes_in ce) @ u \<longrightarrow>
      (\<exists>n c'. cli_run sys (Writable w # ce) c = Some (Inr c') \<and> n \<le> length ps
        \<and> c_sent c' @ contents (outputbuffer c') = c_sent c @ concat (map (frame \<circ> pc_req) ps)
        \<and> answered sys (take n rs) (take n ps) (c_env c) (c_env c') \<and> in_flight (drop n ps) c'
        \<and> (t = [] \<and> contents (outputbuffer s') = [] \<and> u = [] \<longrightarrow> n = length ps \<and> read_dones c' = read_dones c)))"
proof -
  let ?ms = "map pc_req ps"
  have pe: "\<forall>e \<in> set es. polite e" and pc: "\<forall>e \<in> set ce. polite e" using assms(19) by auto
  have st: "contents (inputbuffer s) @ concat (map bytes_in es) @ t = concat (map frame ?ms)" using assms(11,20) by simp
  have "length (concat (map bytes_in es)) \<le> length (concat (map frame ?ms))" by (metis assms(20) le_add1 length_append map_map)
  then have b: "writeIndex (inputbuffer s) + length (concat (map bytes_in es)) + length (concat (map frame ?ms)) \<le> DECODE_MAX"
    using assms(17) by simp
  have len: "length ?ms \<le> 2147483647" using assms(15) by simp
  have n: "begun frame ?ms (contents (inputbuffer s))"
    using assms(11) package_length_ge [of "hd ?ms"] by (auto simp: begun_def)
  from srv_run_stream [OF assms(7-10) pe st b len assms(16) [unfolded assms(13)] n, of pool exec] obtain ms1 ms2 s' where
    s': "?ms = ms1 @ ms2" "srv_run sv me l pool exec es s = Some (Inr s')"
    "out_bytes s' = out_bytes s @ concat (map frame (replies sv (c_sock s) ms1))" "contents (inputbuffer s') @ t = concat (map frame ms2)"
    "begun frame ms2 (contents (inputbuffer s'))" by blast
  let ?rest = "concat (map frame (replies sv (c_sock s) ms2))"
  have ids: "\<forall>m \<in> set ?ms. msg_id m \<noteq> []" using assms(3) by (auto simp: calls_pending_def)
  have "map msg_id rs = map pc_id ps" unfolding assms(13) replies_ids [OF ids] by simp
  then have a: "answers sys rs ps" using assms(14) by (simp add: answers_def)
  have "\<exists>n c'. cli_run sys (Writable w # ce) c = Some (Inr c') \<and> n \<le> length ps
        \<and> c_sent c' @ contents (outputbuffer c') = c_sent c @ concat (map (frame \<circ> pc_req) ps)
        \<and> answered sys (take n rs) (take n ps) (c_env c) (c_env c') \<and> in_flight (drop n ps) c'
        \<and> (t = [] \<and> contents (outputbuffer s') = [] \<and> u = [] \<longrightarrow> n = length ps \<and> read_dones c' = read_dones c)"
    if u: "c_sent s' = c_sent s @ concat (map bytes_in ce) @ u" for u
  proof -
    have "concat (map bytes_in ce) @ u @ contents (outputbuffer s') @ ?rest = concat (map frame rs)"
      using s'(3) u assms(12) by (simp add: assms(13) s'(1) out_bytes_def)
    from cli_conversation [OF assms(1-4,6) a pc this assms(18), of w] assms(5) obtain n c' where
      c': "cli_run sys (Writable w # ce) c = Some (Inr c')" "n \<le> length ps"
      "c_sent c' @ contents (outputbuffer c') = c_sent c @ concat (map (frame \<circ> pc_req) ps)"
      "answered sys (take n rs) (take n ps) (c_env c) (c_env c')" "in_flight (drop n ps) c'"
      "u @ contents (outputbuffer s') @ ?rest = [] \<longrightarrow> n = length ps \<and> read_dones c' = read_dones c"
      unfolding out_bytes_def by fastforce
    have "?rest = []" if "t = []" using begun_all [OF s'(5)] s'(4) that by (simp add: replies_def)
    with c' show ?thesis by (intro exI [of _ n] exI [of _ c']) simp
  qed
  then show ?thesis using s'(2) by blast
qed

text \<open>Two calls on one connection: both requests arrive in one event, both replies in another.\<close>

definition two_calls :: "nat pending_call list" where
  "two_calls = [\<lparr>pc_req = sample_req, pc_channel = 0, pc_controller = 0, pc_closure = \<lparr>cb = Some 42\<rparr>\<rparr>,
    \<lparr>pc_req = sample_req\<lparr>msg_id := ''8'', pb_data := ''c''\<rparr>, pc_channel = 1, pc_controller = 1, pc_closure = \<lparr>cb = Some 43\<rparr>\<rparr>]"

definition two_pending :: sample_conn_t where
  "two_pending = sample_rpc_conn\<lparr>write_dones := map to_write two_calls,
    c_channel := (c_channel sample_rpc_conn)\<lparr>events := EPOLLET OR EPOLLOUT\<rparr>,
    c_env := sample_env\<lparr>channels := (\<lambda>i. (channels sample_env i)\<lparr>ch_timer := Some (0, i), ch_controller := Some i,
      ch_closure := Some \<lparr>cb = Some (42 + i)\<rparr>\<rparr>)\<rparr>\<rparr>"

definition two_replies :: "tinypb list" where
  "two_replies = [reply_to sample_req ''abab'', reply_to (sample_req\<lparr>msg_id := ''8'', pb_data := ''c''\<rparr>) ''cc'']"

lemma two_replies: "replies sample_server sock (map pc_req two_calls) = two_replies"
  by (simp add: two_replies_def two_calls_def replies_def server_reply_def dispatch_def sample_server_def wire_def sample_req_def
      TinyPB_new_def parseServiceFullName_def default_id_def echo_service_def reply_to_def Let_def)

lemma two_lengths: "map (length \<circ> frame \<circ> pc_req) two_calls = [35, 34]" "map (length \<circ> frame) two_replies = [37, 35]"
  by (simp_all add: two_calls_def two_replies_def reply_to_def sample_req_def TinyPB_new_def package_length_def)

lemma two_served:
  "\<exists>s'. srv_run sample_server 1 (sample_loop (sample_conn ConnectionByServer)) (ThreadPool_new 0) log_done
      [Readable 5 [Read_bytes (concat (map (frame \<circ> pc_req) two_calls))], Writable [Written 1000]]
      (sample_conn ConnectionByServer) = Some (Inr s')
    \<and> c_sent s' = concat (map frame two_replies) \<and> contents (outputbuffer s') = []"
proof -
  let ?s = "sample_conn ConnectionByServer" and ?d = "concat (map (frame \<circ> pc_req) two_calls)"
  let ?r = "concat (map frame two_replies)" and ?as = "[Read_bytes (concat (map (frame \<circ> pc_req) two_calls))]"
  have len: "length ?d = 69" "length ?r = 72"
    using two_lengths by (simp_all add: length_concat comp_assoc)
  then have ne: "?d \<noteq> []" "?r \<noteq> []" by auto
  have "\<exists>s1. onMessage (epoll sample_server) (message_callback sample_server 1 (sample_loop ?s) (ThreadPool_new 0)) log_done 5
        (then_again (Read_error EAGAIN) ?as) ?s = Some (Inr s1)
    \<and> contents (outputbuffer s1) = contents (outputbuffer ?s) @ ?r
    \<and> contents (inputbuffer s1) = [] \<and> lastTime s1 = Some 5
    \<and> (c_kernel s1) (ch_fd (c_channel ?s)) = Some (events (c_channel ?s) OR EPOLLOUT)
    \<and> in_sync (\<lambda>k. k) (c_channel s1, c_kernel s1) \<and> c_type s1 = ConnectionByServer \<and> \<not> disConnect s1
    \<and> buffer_wf (outputbuffer s1) \<and> buffer_wf (inputbuffer s1) \<and> c_sent s1 = c_sent ?s"
    by (rule requests_answered [where ms = "map pc_req two_calls" and rs = two_replies and as = ?as and d = ?d])
      (use map_ctl_ok ne len two_lengths two_replies in \<open>simp_all add: sample_conn_def Connection_new_def arrives_def EXTRABUF_def then_again_def
        sample_server_def sample_config_def sample_loop_def in_sync_def useET_def Channel_new_def buffer_room_def MAX_SIZE_def DECODE_MAX_def
        replies_def comp_def two_calls_def two_replies_def\<close>)
  then obtain s1 where s1: "onMessage (epoll sample_server) (message_callback sample_server 1 (sample_loop ?s) (ThreadPool_new 0)) log_done 5
        (then_again (Read_error EAGAIN) ?as) ?s = Some (Inr s1)" "contents (outputbuffer s1) = ?r"
      "in_sync (\<lambda>k. k) (c_channel s1, c_kernel s1)" "c_type s1 = ConnectionByServer" "\<not> disConnect s1" "buffer_wf (outputbuffer s1)"
      "c_sent s1 = []" by (auto simp: sample_conn_def Connection_new_def)
  let ?ans = "then_again (Write_error EAGAIN) (clip (length (contents (outputbuffer s1))) [Written 1000])"
  have "takes ?ans 0 [72] ?r" using s1(2) len by (simp add: takes_def then_again_def)
  then have snd: "sends ?ans ?r" using len by (auto simp: sends_def intro!: exI [of _ "[72]"])
  have fl: "(if c_type s1 = ConnectionByClient then flush_requests log_done s1 else Inr s1) = Inr s1" using s1(4) by simp
  obtain s' where "sendMessage map_ctl log_done ?ans s1 = Some (Inr s')" "c_sent s' = ?r" "contents (outputbuffer s') = []"
    using sendMessage_all [OF s1(5) fl s1(6,2) ne(2) snd map_ctl_ok s1(3)] s1(7) by auto
  then show ?thesis using s1(1) by (intro exI [of _ s']) (simp add: sample_server_def)
qed

lemma conversation_witness:
  "\<exists>s' c'. srv_run sample_server 1 (sample_loop (sample_conn ConnectionByServer)) (ThreadPool_new 0) log_done
      [Readable 5 [Read_bytes (concat (map (frame \<circ> pc_req) two_calls))], Writable [Written 1000]]
      (sample_conn ConnectionByServer) = Some (Inr s')
    \<and> cli_run sample_sys [Writable [Written 7], Readable 6 [Read_bytes (concat (map frame two_replies))]] two_pending = Some (Inr c')
    \<and> runs (c_env c') = [(0, [42]), (1, [43])] \<and> ch_response (channels (c_env c') 0) = Some ''abab''
    \<and> ch_response (channels (c_env c') 1) = Some ''cc'' \<and> read_dones c' = Map.empty"
proof -
  let ?s = "sample_conn ConnectionByServer" and ?c = two_pending and ?d = "concat (map (frame \<circ> pc_req) two_calls)"
  let ?r = "concat (map frame two_replies)"
  let ?es = "[Readable 5 [Read_bytes ?d], Writable [Written 1000]]" and ?ce = "[Readable 6 [Read_bytes ?r]]"
  have len: "length ?d = 69" "length ?r = 72" "sum_list (map (package_length \<circ> pc_req) two_calls) = 69"
      "sum_list (map package_length two_replies) = 72"
    using two_lengths by (simp_all add: length_concat comp_assoc) (simp_all add: comp_def)
  then have ne: "?d \<noteq> []" "?r \<noteq> []" by auto
  have io: "outputbuffer ?c = Buffer_new" "inputbuffer ?c = Buffer_new" "c_sent ?c = []" "runs (c_env ?c) = []" "read_dones ?c = Map.empty"
    by (simp_all add: two_pending_def sample_defs)
  have c: "cli_ok (\<lambda>k. k) ?c" "calls_pending two_calls ?c"
    by (simp_all add: cli_ok_def out_open_def calls_pending_def two_pending_def two_calls_def sample_defs in_sync_def Channel_new_def useET_def
        separate_def ready_def sample_req_def or_epollout)
  have k: "kernel_ok (sys_epoll sample_sys) (\<lambda>k. k)" "kernel_ok (epoll sample_server) (\<lambda>k. k)"
    using map_ctl_ok by (simp_all add: sample_sys_def sample_server_def)
  have w: "cfg_workThread (config sample_server) = 0" "threadId (sample_loop ?s) = Some 1"
    by (simp_all add: sample_server_def sample_config_def sample_loop_def)
  have s: "srv_ok (\<lambda>k. k) ?s" "contents (inputbuffer ?s) = []" "contents (outputbuffer ?s) = []" "c_sent ?s = []"
    by (simp_all add: srv_ok_def out_ok_def out_open_def in_sync_def sample_conn_def Connection_new_def useET_def Channel_new_def)
  have p: "\<forall>r \<in> set two_replies. fst (sys_parse sample_sys (pb_data r))"
    by (simp add: two_replies_def sample_sys_def)
  have b: "sum_list (map (package_length \<circ> pc_req) two_calls) \<le> buffer_room (outputbuffer ?c)"
    "sum_list (map package_length two_replies) \<le> buffer_room (outputbuffer ?s)" "length two_calls \<le> 2147483647"
    "writeIndex (inputbuffer ?s) + 2 * length ?d \<le> DECODE_MAX" "writeIndex (inputbuffer ?c) + 2 * length ?r \<le> DECODE_MAX"
    using len io by (simp_all add: two_calls_def sample_conn_def Connection_new_def buffer_room_def MAX_SIZE_def DECODE_MAX_def)
  have e: "\<forall>e \<in> set (?es @ ?ce). polite e" using ne len by (simp add: EXTRABUF_def)
  have t: "concat (map bytes_in ?es) @ [] = ?d" by simp
  have i: "contents (inputbuffer ?c) = []" "contents (outputbuffer ?c) = []" using io by simp_all
  obtain s' where s': "srv_run sample_server 1 (sample_loop ?s) (ThreadPool_new 0) log_done ?es ?s = Some (Inr s')"
    "c_sent s' = ?r" "contents (outputbuffer s') = []" using two_served by blast
  have u: "c_sent s' = c_sent ?s @ concat (map bytes_in ?ce) @ []" using s'(2) s(4) by simp
  from conversation [OF k(1) c i b(1) k(2) w s(1-3) two_replies [symmetric] p b(3,2,4,5) e t, of "ThreadPool_new 0" log_done "[Written 7]"]
  obtain n c' where c': "cli_run sample_sys (Writable [Written 7] # ?ce) ?c = Some (Inr c')"
    "answered sample_sys (take n two_replies) (take n two_calls) (c_env ?c) (c_env c')"
    "n = length two_calls" "read_dones c' = read_dones ?c"
    using s'(1,3) u by auto
  have "answered sample_sys two_replies two_calls (c_env ?c) (c_env c')"
    using c'(2,3) by (simp add: two_calls_def two_replies_def)
  then have "runs (c_env c') = [(0, [42]), (1, [43])]" "ch_response (channels (c_env c') 0) = Some ''abab''"
    "ch_response (channels (c_env c') 1) = Some ''cc''"
    using io(4) by (simp_all add: answered_def two_calls_def two_replies_def Run_def sample_sys_def)
  then show ?thesis using s'(1) c'(1,4) io(5) by (intro exI [of _ s'] exI [of _ c']) simp
qed

end
