(* ===== verification/Log.thy ===== *)
theory Log
  imports Config ServerNode
begin

text \<open>
  The logger, \<open>src/common/log.h\<close>. The \<open>spdlog\<close> library is not part of the repository: a logger
  is what the constructor hands to it (name, sinks, level, level to flush on; \<open>None\<close> for a
  level that is not set), and \<open>opens\<close> says for which paths its file sink can be made, where
  it throws otherwise. The two calls of \<open>localtime_r\<close> may answer differently.
\<close>

record tm =
  tm_year :: int
  tm_mon :: int
  tm_mday :: int
  tm_hour :: int
  tm_min :: int
  tm_sec :: int

text \<open>The fields \<open>localtime_r\<close> gives, up to the year 9999.\<close>

definition tm_valid :: "tm \<Rightarrow> bool" where
  "tm_valid p \<longleftrightarrow> 0 \<le> tm_year p \<and> tm_year p \<le> 8099 \<and> 0 \<le> tm_mon p \<and> tm_mon p \<le> 11 \<and> 1 \<le> tm_mday p \<and> tm_mday p \<le> 31
    \<and> 0 \<le> tm_hour p \<and> tm_hour p \<le> 23 \<and> 0 \<le> tm_min p \<and> tm_min p \<le> 59 \<and> 0 \<le> tm_sec p \<and> tm_sec p \<le> 60"

definition NowDateToInt :: "tm \<Rightarrow> int" where
  "NowDateToInt p = (1900 + tm_year p) * 10000 + (tm_mon p + 1) * 100 + tm_mday p"

definition NowTimeToInt :: "tm \<Rightarrow> int" where
  "NowTimeToInt p = tm_hour p * 10000 + tm_min p * 100 + tm_sec p"

datatype log_level = Trace | Debug | Info | Warn | Err

datatype log_sink = Rotating_file string nat nat | Stdout_color

record spd_logger =
  lg_name :: string
  lg_sinks :: "log_sink list"
  lg_level :: "log_level option"
  lg_flush :: "log_level option"

definition set_level :: "log_level \<Rightarrow> spd_logger \<Rightarrow> spd_logger" where
  "set_level v lg = lg\<lparr>lg_level := Some v, lg_flush := Some v\<rparr>"

definition logger_name :: "cconfig \<Rightarrow> tm \<Rightarrow> tm \<Rightarrow> string" where
  "logger_name cfg d t = cfg_logger_name_prefix cfg @ ''_'' @ to_string (NowDateToInt d) @ ''_'' @ to_string (NowTimeToInt t)"

definition log_path :: "cconfig \<Rightarrow> tm \<Rightarrow> tm \<Rightarrow> string" where
  "log_path cfg d t = cfg_log_out_dir cfg @ ''/'' @ logger_name cfg d t @ ''.log''"

text \<open>The constructor; \<open>None\<close> is the null pointer left by a caught exception.\<close>

definition XLogger_new :: "(string \<Rightarrow> bool) \<Rightarrow> cconfig \<Rightarrow> tm \<Rightarrow> tm \<Rightarrow> spd_logger option" where
  "XLogger_new opens cfg d t = (
    if \<not> opens (log_path cfg d t) then None
    else
      let sinks = [Rotating_file (log_path cfg d t) (500 * 1024 * 1024) 1000];
          sinks = (if cfg_log_out_console cfg then sinks @ [Stdout_color] else sinks);
          lg = \<lparr>lg_name = logger_name cfg d t, lg_sinks = sinks, lg_level = None, lg_flush = None\<rparr>;
          level = cfg_log_level cfg in
      Some (if level = ''trace'' then set_level Trace lg
        else if level = ''debug'' then set_level Debug lg
        else if level = ''info'' then set_level Info lg
        else if level = ''warn'' then set_level Warn lg
        else if level = ''error'' then set_level Err lg
        else lg))"

text \<open>
  \<open>XLOG_INFO\<close> and its like call \<open>log\<close> on the pointer \<open>getLogger\<close> returns; what the library
  does with the line is the argument \<open>emit\<close>.
\<close>

definition xlog :: "(spd_logger \<Rightarrow> log_level \<Rightarrow> string \<Rightarrow> 'o) \<Rightarrow> spd_logger option \<Rightarrow> log_level \<Rightarrow> string \<Rightarrow> 'o res" where
  "xlog emit m_logger lv line = (case m_logger of None \<Rightarrow> Inl Null_deref | Some lg \<Rightarrow> Inr (emit lg lv line))"

section \<open>Names\<close>

text \<open>Two decimal digits below a number.\<close>

lemma two_digits_inj:
  fixes a b a' b' :: int
  assumes "a * 100 + b = a' * 100 + b'" "0 \<le> b" "b < 100" "0 \<le> b'" "b' < 100"
  shows "a = a' \<and> b = b'"
  using assms by (cases a a' rule: linorder_cases) linarith+

lemma NowDateToInt_inj:
  assumes "tm_valid d" "tm_valid d'"
  shows "NowDateToInt d = NowDateToInt d' \<longleftrightarrow> (tm_year d, tm_mon d, tm_mday d) = (tm_year d', tm_mon d', tm_mday d')"
proof
  assume e0: "NowDateToInt d = NowDateToInt d'"
  have e: "((1900 + tm_year d) * 100 + (tm_mon d + 1)) * 100 + tm_mday d
      = ((1900 + tm_year d') * 100 + (tm_mon d' + 1)) * 100 + tm_mday d'"
    using e0 by (simp add: NowDateToInt_def)
  have b: "0 \<le> tm_mday d" "tm_mday d < 100" "0 \<le> tm_mday d'" "tm_mday d' < 100" "0 \<le> tm_mon d + 1" "tm_mon d + 1 < 100"
    "0 \<le> tm_mon d' + 1" "tm_mon d' + 1 < 100" using assms(1,2) by (simp_all add: tm_valid_def)
  from two_digits_inj [OF e b(1-4)] two_digits_inj [OF _ b(5-8), of "1900 + tm_year d" "1900 + tm_year d'"]
  show "(tm_year d, tm_mon d, tm_mday d) = (tm_year d', tm_mon d', tm_mday d')" by simp
qed (simp add: NowDateToInt_def)

lemma NowTimeToInt_inj:
  assumes "tm_valid t" "tm_valid t'"
  shows "NowTimeToInt t = NowTimeToInt t' \<longleftrightarrow> (tm_hour t, tm_min t, tm_sec t) = (tm_hour t', tm_min t', tm_sec t')"
proof
  assume e0: "NowTimeToInt t = NowTimeToInt t'"
  have e: "(tm_hour t * 100 + tm_min t) * 100 + tm_sec t = (tm_hour t' * 100 + tm_min t') * 100 + tm_sec t'"
    using e0 by (simp add: NowTimeToInt_def)
  have b: "0 \<le> tm_sec t" "tm_sec t < 100" "0 \<le> tm_sec t'" "tm_sec t' < 100" "0 \<le> tm_min t" "tm_min t < 100"
    "0 \<le> tm_min t'" "tm_min t' < 100" using assms(1,2) by (simp_all add: tm_valid_def)
  from two_digits_inj [OF e b(1-4)] two_digits_inj [OF _ b(5-8), of "tm_hour t" "tm_hour t'"]
  show "(tm_hour t, tm_min t, tm_sec t) = (tm_hour t', tm_min t', tm_sec t')" by simp
qed (simp add: NowTimeToInt_def)

lemma to_string_parts:
  assumes "to_string a @ CHR ''_'' # u = to_string b @ CHR ''_'' # v"
  shows "a = b \<and> u = v"
proof -
  have n: "CHR ''_'' \<notin> set (to_string i)" for i by (intro not_in_to_string) (simp_all add: is_digit_def)
  have "to_string a = to_string b"
    using arg_cong [OF assms, of "takeWhile (\<lambda>c. c \<noteq> CHR ''_'')"] by (simp add: takeWhile_to_sep n)
  with assms show ?thesis by (simp add: to_string_inj)
qed

text \<open>C40.
  The log file of a start names its second: two starts with the same configuration open the
  same file only if the clock showed the same date and the same time of day.
\<close>

theorem log_path_unique:
  assumes "tm_valid d" "tm_valid d'" "tm_valid t" "tm_valid t'"
  shows "log_path cfg d t = log_path cfg d' t' \<longleftrightarrow>
    (tm_year d, tm_mon d, tm_mday d) = (tm_year d', tm_mon d', tm_mday d')
    \<and> (tm_hour t, tm_min t, tm_sec t) = (tm_hour t', tm_min t', tm_sec t')"
proof -
  let ?a = "to_string (NowDateToInt d)" and ?b = "to_string (NowTimeToInt t)"
  let ?a' = "to_string (NowDateToInt d')" and ?b' = "to_string (NowTimeToInt t')"
  have "log_path cfg d t = log_path cfg d' t' \<longleftrightarrow> ?a @ CHR ''_'' # ?b = ?a' @ CHR ''_'' # ?b'"
    using append_same_eq [of "?a @ CHR ''_'' # ?b" "''.log''" "?a' @ CHR ''_'' # ?b'"]
    by (simp add: log_path_def logger_name_def)
  also have "\<dots> \<longleftrightarrow> NowDateToInt d = NowDateToInt d' \<and> NowTimeToInt t = NowTimeToInt t'"
    using to_string_parts [of "NowDateToInt d" ?b "NowDateToInt d'" ?b'] to_string_inj by auto
  finally have "log_path cfg d t = log_path cfg d' t' \<longleftrightarrow> NowDateToInt d = NowDateToInt d' \<and> NowTimeToInt t = NowTimeToInt t'" .
  then show ?thesis using NowDateToInt_inj [OF assms(1,2)] NowTimeToInt_inj [OF assms(3,4)]
    by (simp only:)
qed

lemma log_path_unique_witness:
  "log_path sample_config \<lparr>tm_year = 125, tm_mon = 4, tm_mday = 11, tm_hour = 9, tm_min = 5, tm_sec = 3\<rparr>
      \<lparr>tm_year = 125, tm_mon = 4, tm_mday = 11, tm_hour = 9, tm_min = 5, tm_sec = 3\<rparr>
    \<noteq> log_path sample_config \<lparr>tm_year = 125, tm_mon = 10, tm_mday = 11, tm_hour = 9, tm_min = 5, tm_sec = 3\<rparr>
      \<lparr>tm_year = 125, tm_mon = 4, tm_mday = 11, tm_hour = 9, tm_min = 5, tm_sec = 3\<rparr>"
  by (subst log_path_unique) (simp_all add: tm_valid_def)

text \<open>
  The constructor's exception handler is no error handling: without the file the pointer stays
  null and every log line dereferences it.
\<close>

lemma xlog_after_failure: "\<not> opens (log_path cfg d t) \<Longrightarrow> xlog emit (XLogger_new opens cfg d t) lv line = Inl Null_deref"
  by (simp add: xlog_def XLogger_new_def)

end
