(* ===== verification/Spec2Isabelle.thy ===== *)
theory Spec2Isabelle
  imports Threads OrderService Conversation Log
begin

text \<open>
  A verification library for pb-RPC, an RPC framework in C++ with Protobuf for serialization, etcd
  for registration and a multi-reactor TCP layer. All paths are under \<open>src/src/\<close>.

  \<^bold>\<open>The program.\<close> A server registers its services in etcd under its address. A client watches
  etcd, keeps for each service a table of servers and connects to the least loaded one. A call is
  serialized, gets a message identifier, is framed by the coder and queued on the connection to the
  service; the event loop of the connection writes it, the server's event loop reads and decodes it,
  the dispatcher calls the service, and the reply travels back to the callback that waits for the
  identifier. A time-out of the event loop ends calls without a reply. A heartbeat drops connections
  that do not answer. Event loops and request handlers are tasks of one pool of threads.

  \<^bold>\<open>The theories\<close>, from the bottom up, with the code they model:

  \<^item> \<^verbatim>\<open>Prelude\<close>: faults (\<open>fault\<close>) and results (\<open>'a res\<close>, a sum), their sequencing \<open>bindR\<close> and
    \<open>foldR\<close>, 32-bit and size arithmetic, byte order; the locales \<open>event_refinement\<close> (runs of events that
    refine an abstract state) and \<open>message_stream\<close> (runs of an end of a connection that consumes messages).
  \<^item> \<^verbatim>\<open>Buffer\<close>: \<open>common/Buffer.h\<close>, \<open>common/Buffer.cpp\<close>; the locale \<open>byte_queue\<close> is its contract.
  \<^item> \<^verbatim>\<open>Coder\<close>, \<^verbatim>\<open>CoderParse\<close>: \<open>coder/tinypb_protocol.h\<close>, \<open>coder/tinypb_coder.cpp\<close>; the locale
    \<open>stream_decoder\<close> says what a decoder on a byte queue promises.
  \<^item> \<^verbatim>\<open>Strings\<close>: the parts of the C++ library that parse and print numbers.
  \<^item> \<^verbatim>\<open>ErrorCode\<close>, \<^verbatim>\<open>MsgId\<close>, \<^verbatim>\<open>Config\<close>: \<open>common/error_code.h\<close>, \<open>common/msg_id_util.cpp\<close>, \<open>common/Config.cpp\<close>.
  \<^item> \<^verbatim>\<open>ServerNode\<close>, \<^verbatim>\<open>ServerList\<close>: \<open>common/ServerNode.h\<close> (with the locale \<open>min_queue\<close> of its heap),
    \<open>common/RpcServerList.cpp\<close>, \<open>common/RpcDiscovery.h\<close> (with the locale \<open>server_directory\<close>, which
    extends \<open>event_refinement\<close> of the prelude).
  \<^item> \<^verbatim>\<open>TimerQueue\<close>: \<open>common/TimeEvent.cpp\<close>, \<open>net/TIme.cpp\<close>.
  \<^item> \<^verbatim>\<open>Reactor\<close>, \<^verbatim>\<open>Sockets\<close>: \<open>net/Channel.cpp\<close>, \<open>net/Epoll.cpp\<close>, \<open>net/EventLoop.cpp\<close>; \<open>net/Socket.cpp\<close>,
    \<open>net/InterAddress.cpp\<close>, \<open>net/Acceptor.cpp\<close>.
  \<^item> \<^verbatim>\<open>Connection\<close>: \<open>net/Connection.cpp\<close>, both sides. \<^verbatim>\<open>Output\<close>: the byte
    stream of its writes over any sequence of events.
  \<^item> \<^verbatim>\<open>Controller\<close>, \<^verbatim>\<open>Dispatcher\<close>: \<open>rpc/rpc_controller.cpp\<close>, \<open>rpc/rpc_callback.cpp\<close>, \<open>rpc/rpc_dispatcher.cpp\<close>,
    \<open>common/RpcRegistry.h\<close>.
  \<^item> \<^verbatim>\<open>ThreadPool\<close>, \<^verbatim>\<open>TcpServer\<close>, \<^verbatim>\<open>TcpClient\<close>, \<^verbatim>\<open>Threads\<close>: \<open>common/ThreadPool.cpp\<close>, \<open>net/TcpServer.cpp\<close>,
    \<open>net/TcpClient.cpp\<close>, \<open>net/EventLoopGroup.h\<close>.
  \<^item> \<^verbatim>\<open>RpcChannel\<close>: \<open>rpc/rpc_channel.cpp\<close>. \<^verbatim>\<open>RpcSystem\<close>: client and server composed.
    \<^verbatim>\<open>Workers\<close>: replies of worker threads through the loop's task queue.
    \<^verbatim>\<open>ServerStream\<close>: a server's connection over any sequence of readable and writable events;
    \<^verbatim>\<open>Conversation\<close>: a client's connection with many pending calls and a server's, each over any such sequence
    (both ends are interpretations of \<open>message_stream\<close>).
  \<^item> \<^verbatim>\<open>OrderService\<close>: the example service and its caller, \<open>Server.cpp\<close>, \<open>client.cpp\<close> and
    \<open>proto/order.proto\<close>. \<^verbatim>\<open>Log\<close>: \<open>common/log.h\<close>.

  \<^bold>\<open>How the model corresponds to the code.\<close> Objects are records with the members' names; a method is
  a function from the old to the new record, with a fault where the code fails an assertion, reads
  out of bounds or an uninitialised variable, dereferences null, overflows or locks a mutex it
  holds. Answers of the kernel, of etcd and of Protobuf are arguments; a loop over such answers that
  need not end is a \<open>partial_function\<close> over an infinite stream of answers, with \<open>None\<close> for a loop
  that never ends. Callbacks are data (a constructor with what the closure captures), interpreted by
  the function the caller passes. Threads appear as labelled steps where their interleaving matters
  (the pool); the events of one connection, which run on one thread, are sequences of actions. No
  fuel is used.

  \<^bold>\<open>What the lemmas show.\<close> Coding: frames are written, cut, joined and read back exactly, nothing else
  is accepted, and decoding ends. A server's connection turns the stream of
  requests into the stream of replies, whatever the network does, and a client with many pending calls gets
  each reply to its own call. A buffer's memory does not grow with the traffic. Calls: a closure runs at most once, a reply and a time-out run it,
  and the end-to-end round trip holds. Discovery: the node table refines a map and gives a least
  loaded node; a registration is found. Loops: tasks and timers run once and in order, channels and
  kernel agree, and the timer runs while an event is pending. Pool: order, no stranded task. Every group also says where the code breaks its
  promise (unparsable frames and replies, end of stream, write errors, lost wake-ups, the heartbeat).

  \<^bold>\<open>Not modelled.\<close> What \<open>spdlog\<close> does with a log line, generated Protobuf code (\<open>proto/\<close>), signal handling and
  printing in the \<open>main\<close> functions, and \<open>echoServer.cpp\<close>, which is not part of the build and is written against an interface of \<open>TcpServer\<close> that is
  commented out; destructors other than the connection's and reference counts, except for the heartbeat's dangling reference; memory ordering of atomics.
\<close>

end
